(* ===== verification/KPrelude.thy ===== *)
theory KPrelude
  imports Main "HOL-Library.Word" "HOL-Library.Multiset" "HOL-Library.Code_Target_Nat"
begin

text \<open>
  Shared vocabulary of the development: the machine types of the target (a 32-bit ARM
  kernel, so \<open>unsigned long\<close>, \<open>size_t\<close> and \<open>resource_size_t\<close> are 32 bits wide), the
  error numbers and the result type of fallible kernel functions, \<open>memcpy\<close> on byte
  arrays, bounded \<open>for\<close> loops, and the generic lemmas on lists, powers of two and
  reachable states that the component theories use.
\<close>

unbundle bit_operations_syntax

named_theorems k_simps \<open>rewrite rules shared by the component theories\<close>
named_theorems k_invs \<open>preservation lemmas of component invariants\<close>

section \<open>Machine types\<close>

type_synonym u8 = "8 word"
type_synonym u16 = "16 word"
type_synonym u32 = "32 word"
type_synonym u64 = "64 word"
type_synonym ulong = "32 word"

section \<open>Results of fallible functions\<close>

text \<open>
  A C function that returns a negative error number returns \<open>Err\<close>; a \<open>BUG_ON\<close> or a
  \<open>panic\<close> that fires is \<open>Bug\<close>, after which the kernel does not continue.
\<close>

datatype errno = EPERM | EINTR | EAGAIN | ENOMEM | EFAULT | EBUSY | ENODEV | EINVAL
  | ENOTTY | ERANGE | EOVERFLOW | EBADF | ETIME | ENOENT | ESRCH | EIO | E2BIG | EACCES | EEXIST
  | ENOSPC | EFBIG | EIDRM | ENOSYS

datatype 'a kres = Ok 'a | Err errno | Bug

fun kres_ok :: "'a kres \<Rightarrow> bool" where
  "kres_ok (Ok _) = True"
| "kres_ok (Err _) = False"
| "kres_ok Bug = False"

section \<open>Bounded loops and array updates\<close>

text \<open>
  \<open>for_range a b body s\<close> is \<^verbatim>\<open>for (k = a; k < b; k++) body\<close>, threading the state;
  \<open>for_down\<close> is \<^verbatim>\<open>for (k = n - 1; k >= 0; k--) body\<close>.
\<close>

definition for_range :: "nat \<Rightarrow> nat \<Rightarrow> (nat \<Rightarrow> 's \<Rightarrow> 's) \<Rightarrow> 's \<Rightarrow> 's" where
  "for_range a b body s = fold body [a..<b] s"

definition for_down :: "nat \<Rightarrow> (nat \<Rightarrow> 's \<Rightarrow> 's) \<Rightarrow> 's \<Rightarrow> 's" where
  "for_down n body s = fold body (rev [0..<n]) s"

lemma for_range_empty [simp]: "b \<le> a \<Longrightarrow> for_range a b body s = s"
  by (simp add: for_range_def)

lemma for_range_Suc [simp]:
  "a \<le> b \<Longrightarrow> for_range a (Suc b) body s = body b (for_range a b body s)"
  by (simp add: for_range_def)

lemma for_range_step: "a < b \<Longrightarrow> for_range a b body s = for_range (Suc a) b body (body a s)"
  by (simp add: for_range_def upt_conv_Cons)

lemma for_down_0 [simp]: "for_down 0 body s = s"
  by (simp add: for_down_def)

lemma for_down_Suc [simp]: "for_down (Suc n) body s = for_down n body (body n s)"
  by (simp add: for_down_def)

text \<open>A loop that stores \<open>f k\<close> at index \<open>k\<close> fills exactly the range of the counter.\<close>

lemma length_for_range_store [simp]:
  "length (for_range a b (\<lambda>k xs. xs[g k := f k]) xs) = length xs"
  by (induction b) (auto simp: for_range_def)

lemma nth_for_range_store:
  "i < length xs \<Longrightarrow>
   for_range 0 b (\<lambda>k xs. xs[k := f k]) xs ! i = (if i < b then f i else xs ! i)"
proof (induction b)
  case 0
  then show ?case by simp
next
  case (Suc b)
  then show ?case by (cases "i = b") auto
qed

text \<open>The same for a loop that rewrites each element from its own old value.\<close>

lemma length_for_range:
  "(\<And>k ys. length (body k ys) = length ys) \<Longrightarrow> length (for_range a b body xs) = length xs"
  by (induction b) (auto simp: for_range_def)

lemma nth_for_range_modify:
  "i < length xs \<Longrightarrow>
   for_range 0 n (\<lambda>k xs. xs[d + k := f (xs ! (d + k))]) xs ! i =
     (if d \<le> i \<and> i < d + n then f (xs ! i) else xs ! i)"
proof (induction n)
  case 0
  then show ?case by auto
next
  case (Suc n)
  then show ?case
    by (cases "i = d + n") (auto simp: length_for_range nth_list_update)
qed

section \<open>memcpy\<close>

text \<open>
  \<open>mem_write buf off bs\<close> is \<^verbatim>\<open>memcpy(buf + off, bs, |bs|)\<close> and \<open>mem_read buf off n\<close>
  the \<open>n\<close> bytes at \<open>buf + off\<close>. Both are meaningful only in range
  (\<open>off + |bs| \<le> |buf|\<close>, \<open>off + n \<le> |buf|\<close>), which the component theories prove of
  each copy they make.
\<close>

definition mem_write :: "'a list \<Rightarrow> nat \<Rightarrow> 'a list \<Rightarrow> 'a list" where
  "mem_write buf off bs = take off buf @ bs @ drop (off + length bs) buf"

definition mem_read :: "'a list \<Rightarrow> nat \<Rightarrow> nat \<Rightarrow> 'a list" where
  "mem_read buf off n = take n (drop off buf)"

lemma length_mem_write [simp]:
  "off + length bs \<le> length buf \<Longrightarrow> length (mem_write buf off bs) = length buf"
  by (simp add: mem_write_def)

lemma length_mem_read [simp]:
  "off + n \<le> length buf \<Longrightarrow> length (mem_read buf off n) = n"
  by (simp add: mem_read_def)

lemma nth_mem_write:
  "off + length bs \<le> length buf \<Longrightarrow> i < length buf \<Longrightarrow>
   mem_write buf off bs ! i =
     (if off \<le> i \<and> i < off + length bs then bs ! (i - off) else buf ! i)"
  by (auto simp: mem_write_def nth_append min_def)

lemma nth_mem_read:
  "off + n \<le> length buf \<Longrightarrow> i < n \<Longrightarrow> mem_read buf off n ! i = buf ! (off + i)"
  by (simp add: mem_read_def)

lemma mem_write_Nil [simp]: "mem_write buf off [] = buf"
  by (simp add: mem_write_def)

lemma mem_read_0 [simp]: "mem_read buf off 0 = []"
  by (simp add: mem_read_def)

text \<open>
  \<open>copy_from_user\<close> of \<open>n\<close> bytes from a user buffer of which the bytes \<open>ubuf\<close> are readable: the
  bytes that arrive, zero-filled, and whether it was less than asked for.
\<close>

definition copy_from_user :: "u8 list \<Rightarrow> nat \<Rightarrow> u8 list \<times> bool" where
  "copy_from_user ubuf n = (take n ubuf @ replicate (n - length ubuf) 0, length ubuf < n)"

section \<open>Rings of bytes\<close>

text \<open>
  The contents of a ring of \<open>length buf\<close> cells: \<open>n\<close> cells from index \<open>off\<close> on, modulo
  the length. Both ring buffers of the development (\<open>Kfifo\<close>, \<open>Logger\<close>) copy in two
  pieces, up to the end of the array and from its start; the lemmas below say that the
  two pieces are one write, respectively one read, modulo the length.
\<close>

definition ring_read :: "'a list \<Rightarrow> nat \<Rightarrow> nat \<Rightarrow> 'a list" where
  "ring_read buf off n = map (\<lambda>i. buf ! ((off + i) mod length buf)) [0..<n]"

lemma length_ring_read [simp]: "length (ring_read buf off n) = n"
  by (simp add: ring_read_def)

lemma nth_ring_read [simp]:
  "i < n \<Longrightarrow> ring_read buf off n ! i = buf ! ((off + i) mod length buf)"
  by (simp add: ring_read_def)

lemma ring_read_0 [simp]: "ring_read buf off 0 = []"
  by (simp add: ring_read_def)

lemma ring_read_add:
  "ring_read buf off (m + n) = ring_read buf off m @ ring_read buf (off + m) n"
  by (rule nth_equalityI) (auto simp: nth_append add.assoc)

lemma ring_read_mod [simp]:
  "ring_read buf (off mod length buf) n = ring_read buf off n"
  by (rule nth_equalityI) (auto simp: mod_add_left_eq)

lemma take_ring_read: "m \<le> n \<Longrightarrow> take m (ring_read buf off n) = ring_read buf off m"
  by (rule nth_equalityI) auto

lemma drop_ring_read: "m \<le> n \<Longrightarrow> drop m (ring_read buf off n) = ring_read buf (off + m) (n - m)"
  by (rule nth_equalityI) (auto simp: add.assoc)

lemma mem_read_ring: "off + n \<le> length buf \<Longrightarrow> mem_read buf off n = ring_read buf off n"
  by (rule nth_equalityI) (auto simp: nth_mem_read)

definition ring_copy_out :: "'a list \<Rightarrow> nat \<Rightarrow> nat \<Rightarrow> 'a list" where
  "ring_copy_out buf off n =
     (let l = min n (length buf - off) in mem_read buf off l @ mem_read buf 0 (n - l))"

definition ring_copy_in :: "'a list \<Rightarrow> nat \<Rightarrow> 'a list \<Rightarrow> 'a list" where
  "ring_copy_in buf off bs =
     (let l = min (length bs) (length buf - off)
      in mem_write (mem_write buf off (take l bs)) 0 (drop l bs))"

lemma ring_copy_out_eq:
  assumes "off < length buf" and "n \<le> length buf"
  shows "ring_copy_out buf off n = ring_read buf off n"
proof (rule nth_equalityI)
  show len: "length (ring_copy_out buf off n) = length (ring_read buf off n)"
    using assms by (simp add: ring_copy_out_def Let_def min_def)
  fix i assume "i < length (ring_copy_out buf off n)"
  with len have i: "i < n" by simp
  show "ring_copy_out buf off n ! i = ring_read buf off n ! i"
  proof (cases "off + i < length buf")
    case True
    with i assms show ?thesis
      by (auto simp: ring_copy_out_def Let_def nth_append nth_mem_read min_def)
  next
    case False
    then have "(off + i) mod length buf = off + i - length buf"
      using i assms by (simp add: mod_if)
    moreover have "i - (length buf - off) = off + i - length buf"
      using assms(1) by simp
    ultimately show ?thesis
      using False i assms
      by (auto simp: ring_copy_out_def Let_def nth_append nth_mem_read min_def)
  qed
qed

lemma length_ring_copy_in [simp]:
  assumes "off < length buf" and "length bs \<le> length buf"
  shows "length (ring_copy_in buf off bs) = length buf"
  using assms by (auto simp: ring_copy_in_def Let_def min_def)

lemma nth_ring_copy_in:
  assumes "off < length buf" and "length bs \<le> length buf" and "i < length buf"
  shows "ring_copy_in buf off bs ! i =
    (if off \<le> i \<and> i < off + length bs then bs ! (i - off)
     else if i + length buf < off + length bs then bs ! (i + length buf - off)
     else buf ! i)"
  using assms
  by (auto simp: ring_copy_in_def Let_def min_def nth_mem_write add.commute [of i])

text \<open>Reading back what was just written, and cells the write did not touch.\<close>

lemma ring_read_copy_in_same:
  assumes "off < length buf" and "length bs \<le> length buf"
  shows "ring_read (ring_copy_in buf off bs) off (length bs) = bs"
proof (rule nth_equalityI)
  fix i assume "i < length (ring_read (ring_copy_in buf off bs) off (length bs))"
  then have i: "i < length bs" by simp
  have m: "(off + i) mod length buf = (if off + i < length buf then off + i else off + i - length buf)"
    using i assms by (simp add: mod_if)
  have "ring_read (ring_copy_in buf off bs) off (length bs) ! i
      = ring_copy_in buf off bs ! ((off + i) mod length buf)"
    using i assms by simp
  also have "\<dots> = bs ! i"
    using i assms m by (subst nth_ring_copy_in) (auto split: if_splits)
  finally show "ring_read (ring_copy_in buf off bs) off (length bs) ! i = bs ! i" .
qed simp

lemma ring_read_copy_in_before:
  assumes "off < length buf" and "start < length buf"
    and "n + length bs \<le> length buf" and "(start + n) mod length buf = off"
  shows "ring_read (ring_copy_in buf off bs) start n = ring_read buf start n"
proof (rule nth_equalityI)
  fix i assume "i < length (ring_read (ring_copy_in buf off bs) start n)"
  then have i: "i < n" by simp
  have off: "off = (if start + n < length buf then start + n else start + n - length buf)"
    using assms by (auto simp: mod_if)
  have m: "(start + i) mod length buf =
      (if start + i < length buf then start + i else start + i - length buf)"
    using i assms by (simp add: mod_if)
  have "ring_read (ring_copy_in buf off bs) start n ! i
      = ring_copy_in buf off bs ! ((start + i) mod length buf)"
    using i assms by simp
  also have "\<dots> = buf ! ((start + i) mod length buf)"
    using i assms(1-3) off m by (subst nth_ring_copy_in) (auto split: if_splits)
  also have "\<dots> = ring_read buf start n ! i"
    using i by simp
  finally show "ring_read (ring_copy_in buf off bs) start n ! i = ring_read buf start n ! i" .
qed simp

section \<open>Powers of two\<close>

text \<open>Masking with \<open>2 ^ k - 1\<close> is the remainder modulo \<open>2 ^ k\<close>.\<close>

lemma and_pow2_minus1_nat: "(n::nat) AND (2 ^ k - 1) = n mod 2 ^ k"
  by (metis mask_eq_exp_minus_1 and.commute take_bit_eq_mask take_bit_eq_mod)

lemma unat_and_pow2_minus1:
  fixes w :: "'a::len word"
  assumes "s = 2 ^ k" and "k < LENGTH('a)"
  shows "unat (w AND (s - 1)) = unat w mod 2 ^ k"
proof -
  have "w AND (s - 1) = take_bit k w"
    by (simp add: assms(1) take_bit_eq_mask mask_eq_exp_minus_1)
  then have "unat (w AND (s - 1)) = take_bit k (unat w)"
    by (simp only: unsigned_take_bit_eq)
  then show ?thesis
    by (simp add: take_bit_eq_mod)
qed

lemma unat_pow2 [simp]:
  "k < LENGTH('a) \<Longrightarrow> unat ((2::'a::len word) ^ k) = 2 ^ k"
  by (metis mod_less power_strict_increasing_iff of_nat_numeral of_nat_power one_less_numeral_iff
      semiring_norm(76) unat_of_nat)

lemma unat_drop_bit: "unat (drop_bit n w) = unat w div 2 ^ n" for w :: "'a::len word"
  using unsigned_less [of w]
  by (simp add: unsigned_drop_bit_eq drop_bit_eq_div [where 'a = nat] take_bit_nat_eq_self)

lemma unat_u32: "unat w < 2 ^ 32" for w :: u32
  using unsigned_less [of w, where ?'a = nat] by simp

lemma unat_u64: "unat w < 2 ^ 64" for w :: u64
  using unsigned_less [of w, where ?'a = nat] by simp

lemma word_pred_less: "a < b \<Longrightarrow> a \<le> b - 1 \<and> b - 1 < b" for a b :: "'a::len word"
proof -
  assume "a < b"
  then have lt: "unat a < unat b" by (simp add: word_less_nat_alt)
  then have "b \<noteq> 0" by auto
  then have "unat (b - 1) = unat b - 1" by (rule unat_minus_one)
  then show ?thesis using lt by (simp add: word_less_nat_alt word_le_nat_alt)
qed

lemma word_succ_le: "a < b \<Longrightarrow> a < a + 1 \<and> a + 1 \<le> b" for a b :: "'a::len word"
proof -
  assume "a < b"
  then have lt: "unat a < unat b" by (simp add: word_less_nat_alt)
  then have "unat a + 1 < 2 ^ LENGTH('a)" using unsigned_less [of b, where ?'a = nat] by linarith
  then have "unat (a + 1) = unat a + 1" by (simp add: unat_word_ariths)
  then show ?thesis using lt by (simp add: word_less_nat_alt word_le_nat_alt)
qed

lemma unat_and_not_mask:
  fixes w :: "'a::len word"
  assumes "a = 2 ^ k" and "k < LENGTH('a)"
  shows "unat (w AND NOT (a - 1)) = unat w div 2 ^ k * 2 ^ k"
proof -
  have "w AND NOT (a - 1) = push_bit k (drop_bit k w)"
    unfolding assms(1) mask_eq_exp_minus_1 [symmetric]
    by (rule bit_word_eqI) (auto simp: bit_simps)
  moreover have "unat w div 2 ^ k * 2 ^ k < 2 ^ LENGTH('a)"
    using unsigned_less [of w, where ?'a = nat] div_times_less_eq_dividend [of "unat w" "2 ^ k"] by linarith
  ultimately show ?thesis
    using assms(2) by (simp add: push_bit_eq_mult unat_word_ariths unat_drop_bit)
qed

section \<open>Reachable states\<close>

text \<open>
  The states a component can reach: a start state, then any number of steps. The locale
  is the invariant argument every state machine of the development uses: an invariant
  that holds at the start and is kept by each step holds in every reachable state.
\<close>

inductive reach :: "('s \<Rightarrow> bool) \<Rightarrow> ('s \<Rightarrow> 's \<Rightarrow> bool) \<Rightarrow> 's \<Rightarrow> bool"
  for init :: "'s \<Rightarrow> bool" and step :: "'s \<Rightarrow> 's \<Rightarrow> bool" where
  reach_init: "init s \<Longrightarrow> reach init step s"
| reach_step: "reach init step s \<Longrightarrow> step s t \<Longrightarrow> reach init step t"

locale invariant_machine =
  fixes init :: "'s \<Rightarrow> bool" and step :: "'s \<Rightarrow> 's \<Rightarrow> bool" and inv :: "'s \<Rightarrow> bool"
  assumes inv_init: "init s \<Longrightarrow> inv s"
    and inv_step: "inv s \<Longrightarrow> step s t \<Longrightarrow> inv t"
begin

lemma reach_inv: "reach init step s \<Longrightarrow> inv s"
  by (induction rule: reach.induct) (auto intro: inv_init inv_step)

lemma reach_step_inv: "reach init step s \<Longrightarrow> step s t \<Longrightarrow> inv s \<and> inv t"
  using reach_inv inv_step by blast

end

end
