(* ===== verification/Bitops.thy ===== *)
theory Bitops
  imports KPrelude
begin

text \<open>
  Bit operations on words and on arrays of words: \<open>asm-generic/bitops\<close> (\<open>__ffs\<close>, \<open>ffz\<close>,
  \<open>fls\<close>, the non-atomic bit setters), \<open>include/linux/log2.h\<close> and
  \<open>lib/find_next_bit.c\<close>. A name that starts with two underscores in the source starts
  with \<open>u_\<close> here.
\<close>

section \<open>Words\<close>

abbreviation BITS_PER_LONG :: nat where "BITS_PER_LONG \<equiv> 32"

text \<open>
  One round of the binary searches: \<^verbatim>\<open>if ((word & mask) == 0) { num += k; word >>= k; }\<close>
  and, for \<open>fls\<close>, \<^verbatim>\<open>if (!(x & mask)) { x <<= k; r -= k; }\<close>.
\<close>

definition ffs_step :: "ulong \<Rightarrow> nat \<Rightarrow> nat \<times> ulong \<Rightarrow> nat \<times> ulong" where
  "ffs_step m k s =
     (let (num, word) = s
      in if word AND m = 0 then (num + k, drop_bit k word) else (num, word))"

definition u_ffs :: "ulong \<Rightarrow> nat" where
  "u_ffs w =
     (let s = (0, w);
          s = ffs_step 0xffff 16 s;
          s = ffs_step 0xff 8 s;
          s = ffs_step 0xf 4 s;
          s = ffs_step 0x3 2 s;
          (num, word) = s
      in if word AND 0x1 = 0 then num + 1 else num)"

definition ffz :: "ulong \<Rightarrow> nat" where
  "ffz x = u_ffs (NOT x)"

definition fls_step :: "u32 \<Rightarrow> nat \<Rightarrow> nat \<times> u32 \<Rightarrow> nat \<times> u32" where
  "fls_step m k s =
     (let (r, x) = s
      in if x AND m = 0 then (r - k, push_bit k x) else (r, x))"

definition fls :: "u32 \<Rightarrow> nat" where
  "fls x =
     (if x = 0 then 0
      else let s = (32, x);
               s = fls_step 0xffff0000 16 s;
               s = fls_step 0xff000000 8 s;
               s = fls_step 0xf0000000 4 s;
               s = fls_step 0xc0000000 2 s;
               s = fls_step 0x80000000 1 s
           in fst s)"

definition fls_long :: "ulong \<Rightarrow> nat" where
  "fls_long l = fls l"

definition is_power_of_2 :: "ulong \<Rightarrow> bool" where
  "is_power_of_2 n \<longleftrightarrow> n \<noteq> 0 \<and> n AND (n - 1) = 0"

definition u_roundup_pow_of_two :: "ulong \<Rightarrow> ulong" where
  "u_roundup_pow_of_two n = push_bit (fls_long (n - 1)) 1"

definition u_rounddown_pow_of_two :: "ulong \<Rightarrow> ulong" where
  "u_rounddown_pow_of_two n = push_bit (fls_long n - 1) 1"

section \<open>Single bits of an array of words\<close>

definition BIT_MASK :: "nat \<Rightarrow> ulong" where
  "BIT_MASK nr = push_bit (nr mod BITS_PER_LONG) 1"

definition BIT_WORD :: "nat \<Rightarrow> nat" where
  "BIT_WORD nr = nr div BITS_PER_LONG"

definition BITS_TO_LONGS :: "nat \<Rightarrow> nat" where
  "BITS_TO_LONGS nr = (nr + BITS_PER_LONG - 1) div BITS_PER_LONG"

definition u_set_bit :: "nat \<Rightarrow> ulong list \<Rightarrow> ulong list" where
  "u_set_bit nr addr = addr[BIT_WORD nr := addr ! BIT_WORD nr OR BIT_MASK nr]"

definition u_clear_bit :: "nat \<Rightarrow> ulong list \<Rightarrow> ulong list" where
  "u_clear_bit nr addr = addr[BIT_WORD nr := addr ! BIT_WORD nr AND NOT (BIT_MASK nr)]"

definition u_change_bit :: "nat \<Rightarrow> ulong list \<Rightarrow> ulong list" where
  "u_change_bit nr addr = addr[BIT_WORD nr := addr ! BIT_WORD nr XOR BIT_MASK nr]"

definition u_test_and_set_bit :: "nat \<Rightarrow> ulong list \<Rightarrow> bool \<times> ulong list" where
  "u_test_and_set_bit nr addr =
     (let m = BIT_MASK nr; old = addr ! BIT_WORD nr
      in (old AND m \<noteq> 0, addr[BIT_WORD nr := old OR m]))"

definition u_test_and_clear_bit :: "nat \<Rightarrow> ulong list \<Rightarrow> bool \<times> ulong list" where
  "u_test_and_clear_bit nr addr =
     (let m = BIT_MASK nr; old = addr ! BIT_WORD nr
      in (old AND m \<noteq> 0, addr[BIT_WORD nr := old AND NOT m]))"

definition u_test_and_change_bit :: "nat \<Rightarrow> ulong list \<Rightarrow> bool \<times> ulong list" where
  "u_test_and_change_bit nr addr =
     (let m = BIT_MASK nr; old = addr ! BIT_WORD nr
      in (old AND m \<noteq> 0, addr[BIT_WORD nr := old XOR m]))"

definition test_bit :: "nat \<Rightarrow> ulong list \<Rightarrow> bool" where
  "test_bit nr addr \<longleftrightarrow>
     1 AND drop_bit (nr AND (BITS_PER_LONG - 1)) (addr ! BIT_WORD nr) \<noteq> 0"

section \<open>Searching an array of words\<close>

text \<open>
  The four searches of \<open>lib/find_next_bit.c\<close>. The pointer \<open>p\<close> is the index of the word
  it points to; \<open>size\<close> counts the bits that are left. The labels \<open>found_first\<close> and
  \<open>found_middle\<close> are functions of the variables live at the label. No sum exceeds the
  given \<open>size\<close> rounded up to a word, so the counters are natural numbers.
\<close>

definition find_next_bit_found_first :: "ulong \<Rightarrow> nat \<Rightarrow> nat \<Rightarrow> nat" where
  "find_next_bit_found_first tmp siz result =
     (let tmp = tmp AND drop_bit (BITS_PER_LONG - siz) (NOT 0)
      in if tmp = 0 then result + siz else result + u_ffs tmp)"

function find_next_bit_words :: "ulong list \<Rightarrow> nat \<Rightarrow> nat \<Rightarrow> nat \<Rightarrow> nat" where
  "find_next_bit_words addr p siz result =
     (if BITS_PER_LONG \<le> siz then
        if addr ! p \<noteq> 0 then result + u_ffs (addr ! p)
        else find_next_bit_words addr (p + 1) (siz - BITS_PER_LONG) (result + BITS_PER_LONG)
      else if siz = 0 then result
      else find_next_bit_found_first (addr ! p) siz result)"
  by pat_completeness auto
termination
  by (relation "measure (\<lambda>(addr, p, siz, result). siz)") auto

definition find_next_bit :: "ulong list \<Rightarrow> nat \<Rightarrow> nat \<Rightarrow> nat" where
  "find_next_bit addr size0 offset0 =
     (let p = offset0 div BITS_PER_LONG;
          result = offset0 - offset0 mod BITS_PER_LONG
      in if size0 \<le> offset0 then size0
         else let siz = size0 - result; offset = offset0 mod BITS_PER_LONG
              in if offset \<noteq> 0 then
                   let tmp = addr ! p AND push_bit offset (NOT 0)
                   in if siz < BITS_PER_LONG then find_next_bit_found_first tmp siz result
                      else if tmp \<noteq> 0 then result + u_ffs tmp
                      else find_next_bit_words addr (p + 1) (siz - BITS_PER_LONG)
                             (result + BITS_PER_LONG)
                 else find_next_bit_words addr p siz result)"

definition find_next_zero_bit_found_first :: "ulong \<Rightarrow> nat \<Rightarrow> nat \<Rightarrow> nat" where
  "find_next_zero_bit_found_first tmp siz result =
     (let tmp = tmp OR push_bit siz (NOT 0)
      in if tmp = NOT 0 then result + siz else result + ffz tmp)"

function find_next_zero_bit_words :: "ulong list \<Rightarrow> nat \<Rightarrow> nat \<Rightarrow> nat \<Rightarrow> nat" where
  "find_next_zero_bit_words addr p siz result =
     (if BITS_PER_LONG \<le> siz then
        if NOT (addr ! p) \<noteq> 0 then result + ffz (addr ! p)
        else find_next_zero_bit_words addr (p + 1) (siz - BITS_PER_LONG)
               (result + BITS_PER_LONG)
      else if siz = 0 then result
      else find_next_zero_bit_found_first (addr ! p) siz result)"
  by pat_completeness auto
termination
  by (relation "measure (\<lambda>(addr, p, siz, result). siz)") auto

definition find_next_zero_bit :: "ulong list \<Rightarrow> nat \<Rightarrow> nat \<Rightarrow> nat" where
  "find_next_zero_bit addr size0 offset0 =
     (let p = offset0 div BITS_PER_LONG;
          result = offset0 - offset0 mod BITS_PER_LONG
      in if size0 \<le> offset0 then size0
         else let siz = size0 - result; offset = offset0 mod BITS_PER_LONG
              in if offset \<noteq> 0 then
                   let tmp = addr ! p OR drop_bit (BITS_PER_LONG - offset) (NOT 0)
                   in if siz < BITS_PER_LONG
                      then find_next_zero_bit_found_first tmp siz result
                      else if NOT tmp \<noteq> 0 then result + ffz tmp
                      else find_next_zero_bit_words addr (p + 1) (siz - BITS_PER_LONG)
                             (result + BITS_PER_LONG)
                 else find_next_zero_bit_words addr p siz result)"

text \<open>
  \<open>find_first_bit\<close> and \<open>find_first_zero_bit\<close> are the same word loop from the first word,
  with the last word masked in place.
\<close>

definition find_first_bit :: "ulong list \<Rightarrow> nat \<Rightarrow> nat" where
  "find_first_bit addr siz = find_next_bit_words addr 0 siz 0"

definition find_first_zero_bit :: "ulong list \<Rightarrow> nat \<Rightarrow> nat" where
  "find_first_zero_bit addr siz = find_next_zero_bit_words addr 0 siz 0"

declare find_next_bit_words.simps [simp del] find_next_zero_bit_words.simps [simp del]

section \<open>The lowest and the highest set bit\<close>

lemma word_neq_iff: "v \<noteq> w \<longleftrightarrow> (\<exists>i < LENGTH('a). bit v i \<noteq> bit w i)" for v w :: "'a::len word"
  by (auto intro: bit_word_eqI)

lemma and_low_mask_eq_0:
  fixes w :: "'a::len word"
  shows "w AND mask k = 0 \<longleftrightarrow> (\<forall>i < k. \<not> bit w i)"
  by (auto simp: bit_eq_iff bit_simps bit_imp_le_length)

text \<open>
  The invariant of the binary searches: \<open>word\<close> is \<open>w\<close> shifted by \<open>num\<close>, nothing below
  \<open>num\<close> is set, and one of the lowest \<open>k\<close> bits of \<open>word\<close> is; a round halves \<open>k\<close>.
\<close>

definition ffs_inv :: "ulong \<Rightarrow> nat \<Rightarrow> nat \<times> ulong \<Rightarrow> bool" where
  "ffs_inv w k s \<longleftrightarrow>
     snd s = drop_bit (fst s) w \<and> (\<forall>i < fst s. \<not> bit w i) \<and> (\<exists>i < k. bit (snd s) i)"

lemma ffs_step_inv:
  assumes "ffs_inv w (2 * k) s" and "m = mask k"
  shows "ffs_inv w k (ffs_step m k s)"
proof (cases "snd s AND mask k = 0")
  case True
  then have none: "\<forall>i < k. \<not> bit w (fst s + i)"
    using assms(1) by (auto simp: and_low_mask_eq_0 ffs_inv_def bit_simps)
  from assms(1) obtain i where i: "i < 2 * k" "bit w (fst s + i)"
    by (auto simp: ffs_inv_def bit_simps)
  with none have "k \<le> i" by (meson not_less)
  with i have "\<exists>i < k. bit w (fst s + k + i)"
    by (intro exI [of _ "i - k"]) auto
  moreover have "\<not> bit w i" if "i < fst s + k" for i
    using that none assms(1) by (cases "i < fst s") (auto simp: ffs_inv_def dest: spec [of _ "i - fst s"])
  ultimately show ?thesis
    using True assms by (auto simp: ffs_inv_def ffs_step_def split_beta bit_simps ac_simps)
next
  case False
  then have "\<exists>i < k. bit (snd s) i" by (simp add: and_low_mask_eq_0)
  then show ?thesis
    using False assms by (auto simp: ffs_inv_def ffs_step_def split_beta)
qed

text \<open>For \<open>fls\<close>: nothing at or above \<open>r\<close> is set, and one of the highest \<open>k\<close> bits of \<open>x\<close> is.\<close>

definition fls_inv :: "u32 \<Rightarrow> nat \<Rightarrow> nat \<times> u32 \<Rightarrow> bool" where
  "fls_inv w k s \<longleftrightarrow>
     k \<le> fst s \<and> fst s \<le> 32 \<and> snd s = push_bit (32 - fst s) w \<and>
     (\<forall>i. fst s \<le> i \<longrightarrow> \<not> bit w i) \<and> (\<exists>i. fst s \<le> i + k \<and> i < fst s \<and> bit w i)"

lemma fls_step_inv:
  assumes inv: "fls_inv w (2 * k) s" and m: "m = push_bit (32 - k) (mask k)" and k: "k \<le> 16"
  shows "fls_inv w k (fls_step m k s)"
proof -
  let ?r = "fst s"
  from inv have r: "2 * k \<le> ?r" "?r \<le> 32" and x: "snd s = push_bit (32 - ?r) w"
    and above: "\<And>i. ?r \<le> i \<Longrightarrow> \<not> bit w i"
    by (auto simp: fls_inv_def)
  have bits: "bit (snd s AND m) i \<longleftrightarrow> 32 - k \<le> i \<and> i < 32 \<and> bit w (i - (32 - ?r))" for i
    using r k by (auto simp: x m bit_simps)
  show ?thesis
  proof (cases "snd s AND m = 0")
    case True
    have none: "\<not> bit w i" if "?r \<le> i + k" for i
      using True that bits [of "i + (32 - ?r)"] above [of i] r by (cases "?r \<le> i") auto
    from inv obtain i where "?r \<le> i + 2 * k" "i < ?r" "bit w i" by (auto simp: fls_inv_def)
    moreover with none have "i < ?r - k" using r by (meson less_diff_conv not_less)
    moreover have "push_bit k (push_bit (32 - ?r) w) = push_bit (32 - (?r - k)) w"
      using r by (simp add: ac_simps)
    ultimately show ?thesis
      using True r none x by (auto simp: fls_inv_def fls_step_def split_beta intro!: exI [of _ i])
  next
    case False
    then obtain i where "bit (snd s AND m) i" by (auto simp: bit_eq_iff)
    with bits have "32 - k \<le> i" "i < 32" "bit w (i - (32 - ?r))" by auto
    then have "\<exists>i. ?r \<le> i + k \<and> i < ?r \<and> bit w i"
      using r k by (intro exI [of _ "i - (32 - ?r)"]) auto
    then show ?thesis
      using False r x above by (auto simp: fls_inv_def fls_step_def split_beta)
  qed
qed

text \<open>
  The reference for every search: the first index from \<open>i\<close> on below \<open>n\<close> that satisfies
  \<open>P\<close>, or \<open>n\<close>.
\<close>

function next_index :: "(nat \<Rightarrow> bool) \<Rightarrow> nat \<Rightarrow> nat \<Rightarrow> nat" where
  "next_index P n i = (if i < n then if P i then i else next_index P n (Suc i) else n)"
  by pat_completeness auto
termination
  by (relation "measure (\<lambda>(P, n, i). n - i)") auto

declare next_index.simps [simp del]

lemma next_index_ge [simp]: "n \<le> i \<Longrightarrow> next_index P n i = n"
  by (simp add: next_index.simps)

lemma next_index_bounds:
  "i \<le> n \<Longrightarrow> i \<le> next_index P n i \<and> next_index P n i \<le> n \<and>
     (next_index P n i < n \<longrightarrow> P (next_index P n i)) \<and> (\<forall>j. i \<le> j \<and> j < next_index P n i \<longrightarrow> \<not> P j)"
proof (induction P n i rule: next_index.induct)
  case (1 P n i)
  show ?case
  proof (cases "i < n \<and> \<not> P i")
    case True
    then have IH: "Suc i \<le> next_index P n (Suc i)" "next_index P n (Suc i) \<le> n"
        "next_index P n (Suc i) < n \<longrightarrow> P (next_index P n (Suc i))"
        "\<forall>j. Suc i \<le> j \<and> j < next_index P n (Suc i) \<longrightarrow> \<not> P j"
      using "1.IH" by simp_all
    have "\<not> P j" if "i \<le> j" "j < next_index P n (Suc i)" for j
      using that True IH(4) by (cases "j = i") auto
    with True IH show ?thesis by (simp add: next_index.simps [of P n i])
  next
    case False
    then show ?thesis using "1.prems" by (auto simp: next_index.simps [of P n i])
  qed
qed

lemma next_index_le: "i \<le> n \<Longrightarrow> next_index P n i \<le> n"
  using next_index_bounds by blast

lemma next_index_le_n: "next_index P n i \<le> max i n"
  by (cases "i \<le> n") (auto simp: le_max_iff_disj next_index_le)

lemma next_index_lower: "i \<le> n \<Longrightarrow> i \<le> next_index P n i"
  using next_index_bounds by blast

lemma next_index_hit: "next_index P n i < n \<Longrightarrow> P (next_index P n i)"
  using next_index_bounds [of i n P] by (cases "i \<le> n") auto

lemma next_index_skip: "i \<le> j \<Longrightarrow> j < next_index P n i \<Longrightarrow> \<not> P j"
  using next_index_bounds [of i n P] by (cases "i \<le> n") auto

lemma next_index_eqI:
  assumes "i \<le> r" and "r \<le> n" and "r < n \<Longrightarrow> P r" and "\<And>j. i \<le> j \<Longrightarrow> j < r \<Longrightarrow> \<not> P j"
  shows "next_index P n i = r"
proof (rule ccontr)
  let ?x = "next_index P n i"
  assume "?x \<noteq> r"
  then consider "?x < r" | "r < ?x" by linarith
  then show False
  proof cases
    case 1
    then have "P ?x" using assms(2) next_index_hit [of P n i] by linarith
    with 1 show False using assms next_index_lower [of i n P] by simp
  next
    case 2
    then have "r < n" using assms(1,2) next_index_le [of i n P] by linarith
    with 2 assms(1,3) show False using next_index_skip [of i r P n] by blast
  qed
qed

lemma next_index_jump:
  assumes "i \<le> m" and "m \<le> n" and "\<And>j. i \<le> j \<Longrightarrow> j < m \<Longrightarrow> \<not> P j"
  shows "next_index P n i = next_index P n m"
proof (rule next_index_eqI)
  show "i \<le> next_index P n m" using assms(1,2) next_index_lower [of m n P] by linarith
  show "next_index P n m \<le> n" using assms(2) by (rule next_index_le)
  show "next_index P n m < n \<Longrightarrow> P (next_index P n m)" by (rule next_index_hit)
  show "\<not> P j" if "i \<le> j" "j < next_index P n m" for j
    using that assms(3) next_index_skip [of m j P n] by (cases "j < m") auto
qed

lemma next_index_shift:
  assumes "i \<le> n"
  shows "next_index P (a + n) (a + i) = a + next_index (\<lambda>j. P (a + j)) n i"
proof (rule next_index_eqI)
  show "\<not> P j" if "a + i \<le> j" "j < a + next_index (\<lambda>j. P (a + j)) n i" for j
    using that next_index_skip [of i "j - a" "\<lambda>j. P (a + j)" n] by simp
qed (use assms next_index_lower [of i n] next_index_le [of i n] next_index_hit [of _ n i] in auto)

lemma next_index_cong:
  "(\<And>j. i \<le> j \<Longrightarrow> j < n \<Longrightarrow> P j = Q j) \<Longrightarrow> next_index P n i = next_index Q n i"
proof (cases "i \<le> n")
  case True
  assume "\<And>j. i \<le> j \<Longrightarrow> j < n \<Longrightarrow> P j = Q j"
  then show ?thesis
    using True next_index_lower [of i n Q] next_index_le [of i n Q] next_index_hit [of Q n i]
      next_index_skip [of i _ Q n]
    by (intro next_index_eqI) auto
qed simp

lemma u_ffs_inv:
  assumes "w \<noteq> 0"
  shows "bit w (u_ffs w) \<and> (\<forall>i < u_ffs w. \<not> bit w i)"
proof -
  define s where "s = ffs_step 0x3 2 (ffs_step 0xf 4 (ffs_step 0xff 8 (ffs_step 0xffff 16 (0, w))))"
  have "ffs_inv w (2 * 16) (0, w)"
    using assms by (auto simp: ffs_inv_def bit_eq_iff dest: bit_imp_le_length)
  then have "ffs_inv w 16 (ffs_step 0xffff 16 (0, w))"
    by (rule ffs_step_inv) (simp add: mask_eq_exp_minus_1)
  then have "ffs_inv w 8 (ffs_step 0xff 8 (ffs_step 0xffff 16 (0, w)))"
    by (intro ffs_step_inv) (simp_all add: mask_eq_exp_minus_1)
  then have "ffs_inv w 4 (ffs_step 0xf 4 (ffs_step 0xff 8 (ffs_step 0xffff 16 (0, w))))"
    by (intro ffs_step_inv) (simp_all add: mask_eq_exp_minus_1)
  then have "ffs_inv w 2 s"
    unfolding s_def by (intro ffs_step_inv) (simp_all add: mask_eq_exp_minus_1)
  then have s: "snd s = drop_bit (fst s) w" "\<forall>i < fst s. \<not> bit w i"
      "bit w (fst s) \<or> bit w (Suc (fst s))"
    by (auto simp: ffs_inv_def bit_simps less_2_cases_iff)
  have u: "u_ffs w = (if bit w (fst s) then fst s else Suc (fst s))"
    by (simp add: u_ffs_def s_def [symmetric] split_beta s(1) and_one_eq bit_iff_odd_drop_bit
        even_iff_mod_2_eq_zero)
  then show ?thesis using s(2,3) by (auto simp: less_Suc_eq)
qed

lemma u_ffs_eq: "w \<noteq> 0 \<Longrightarrow> u_ffs w = next_index (bit w) 32 0"
  using u_ffs_inv [of w] bit_imp_le_length [of w "u_ffs w"]
  by (intro next_index_eqI [symmetric]) auto

lemma ffz_eq: "w \<noteq> NOT 0 \<Longrightarrow> ffz w = next_index (\<lambda>i. \<not> bit w i) 32 0"
proof -
  assume "w \<noteq> NOT 0"
  then have "NOT w \<noteq> 0" by (metis bit.double_compl)
  then have "ffz w = next_index (bit (NOT w)) 32 0" by (simp add: ffz_def u_ffs_eq)
  also have "\<dots> = next_index (\<lambda>i. \<not> bit w i) 32 0"
    by (rule next_index_cong) (simp add: bit_simps)
  finally show ?thesis .
qed

lemma fls_inv:
  assumes "w \<noteq> 0"
  shows "0 < fls w \<and> fls w \<le> 32 \<and> bit w (fls w - 1) \<and> (\<forall>i \<ge> fls w. \<not> bit w i)"
proof -
  have "fls_inv w (2 * 16) (32, w)"
    using assms by (fastforce simp: fls_inv_def bit_eq_iff dest: bit_imp_le_length)
  then have "fls_inv w 16 (fls_step 0xffff0000 16 (32, w))"
    by (rule fls_step_inv) (simp_all add: mask_eq_exp_minus_1)
  then have "fls_inv w 8 (fls_step 0xff000000 8 (fls_step 0xffff0000 16 (32, w)))"
    by (intro fls_step_inv) (simp_all add: mask_eq_exp_minus_1)
  then have "fls_inv w 4 (fls_step 0xf0000000 4 (fls_step 0xff000000 8 (fls_step 0xffff0000 16 (32, w))))"
    by (intro fls_step_inv) (simp_all add: mask_eq_exp_minus_1)
  then have "fls_inv w 2 (fls_step 0xc0000000 2 (fls_step 0xf0000000 4 (fls_step 0xff000000 8
      (fls_step 0xffff0000 16 (32, w)))))"
    by (intro fls_step_inv) (simp_all add: mask_eq_exp_minus_1)
  then have "fls_inv w 1 (fls_step 0x80000000 1 (fls_step 0xc0000000 2 (fls_step 0xf0000000 4
      (fls_step 0xff000000 8 (fls_step 0xffff0000 16 (32, w))))))"
    by (intro fls_step_inv) (simp_all add: mask_eq_exp_minus_1)
  moreover define r where "r = fls w"
  ultimately have "1 \<le> r" "r \<le> 32" "\<forall>i. r \<le> i \<longrightarrow> \<not> bit w i" "\<exists>i. r \<le> i + 1 \<and> i < r \<and> bit w i"
    using assms by (auto simp: fls_inv_def fls_def Let_def)
  then obtain i where "r \<le> i + 1" "i < r" "bit w i" by blast
  then have "r - 1 = i" by simp
  then have "bit w (r - 1)" using \<open>bit w i\<close> by simp
  with \<open>1 \<le> r\<close> \<open>r \<le> 32\<close> \<open>\<forall>i. r \<le> i \<longrightarrow> \<not> bit w i\<close> show ?thesis
    by (simp add: r_def)
qed

text \<open>Powers of two: \<open>n & (n - 1)\<close> clears the lowest set bit.\<close>

lemma and_minus_one_bit:
  fixes n :: ulong
  assumes "n \<noteq> 0" and "\<And>i. i < k \<Longrightarrow> \<not> bit n i" and "bit n k"
  shows "bit (n AND (n - 1)) i \<longleftrightarrow> bit n i \<and> i \<noteq> k"
proof -
  have k: "k < 32" using assms(3) bit_imp_le_length by force
  define h where "h = n AND NOT (mask (Suc k))"
  have n: "n = h OR 2 ^ k"
  proof (rule bit_word_eqI)
    show "bit n i = bit (h OR 2 ^ k) i" if "i < LENGTH(32)" for i
      using that assms k by (cases "i < k") (auto simp: h_def bit_simps less_Suc_eq)
  qed
  have disj: "h AND 2 ^ k = 0" "h AND mask k = 0"
    by (auto intro!: bit_word_eqI simp: h_def bit_simps)
  have "n = h + 2 ^ k" using n disj by (simp add: disjunctive_add_eq_or)
  then have "n - 1 = h + mask k" by (simp add: mask_eq_exp_minus_1)
  also have "\<dots> = h OR mask k" using disj by (simp add: disjunctive_add_eq_or)
  finally have "bit (n - 1) i \<longleftrightarrow> bit h i \<or> i < k \<and> i < 32"
    by (auto simp: bit_simps)
  moreover have "bit h i \<longleftrightarrow> bit n i \<and> k < i"
    using bit_imp_le_length [of n i] by (auto simp: h_def bit_simps)
  ultimately show ?thesis
    using k assms(2) [of i] assms(3) by (cases i k rule: linorder_cases) (auto simp: bit_and_iff)
qed

lemma is_power_of_2_iff: "is_power_of_2 n \<longleftrightarrow> (\<exists>k < 32. n = 2 ^ k)"
proof
  assume pow: "is_power_of_2 n"
  then have n: "n \<noteq> 0" by (simp add: is_power_of_2_def)
  let ?k = "u_ffs n"
  have k: "bit n ?k" "\<And>i. i < ?k \<Longrightarrow> \<not> bit n i" using u_ffs_inv [OF n] by auto
  have "?k < 32" using k(1) bit_imp_le_length by force
  have "bit n i \<longleftrightarrow> i = ?k" for i
    using pow and_minus_one_bit [OF n k(2,1), of i] k(1) by (auto simp: is_power_of_2_def)
  then have "n = 2 ^ ?k" using \<open>?k < 32\<close> by (intro bit_word_eqI) (auto simp: bit_simps)
  with \<open>?k < 32\<close> show "\<exists>k < 32. n = 2 ^ k" by blast
next
  assume "\<exists>k < 32. n = 2 ^ k"
  then obtain k where k: "k < 32" "n = 2 ^ k" by blast
  then have "n \<noteq> 0" by (simp add: exp_eq_zero_iff)
  moreover have "n AND (n - 1) = 0"
    unfolding k(2) mask_eq_exp_minus_1 [symmetric]
    by (rule bit_word_eqI) (auto simp: bit_simps)
  ultimately show "is_power_of_2 n" by (simp add: is_power_of_2_def)
qed

lemma fls_bounds:
  assumes "w \<noteq> 0"
  shows "2 ^ (fls w - 1) \<le> unat w" and "unat w < 2 ^ fls w"
proof -
  have f: "0 < fls w" "bit w (fls w - 1)" "\<And>i. fls w \<le> i \<Longrightarrow> \<not> bit w i"
    using fls_inv [OF assms] by auto
  have "take_bit (fls w) w = w"
    using f(3) by (intro bit_word_eqI) (auto simp: bit_simps simp flip: not_le)
  then have "take_bit (fls w) (unat w) = unat w" by (metis unsigned_take_bit_eq)
  then show "unat w < 2 ^ fls w" by (metis take_bit_nat_less_exp)
  have "bit (unat w) (fls w - 1)" using f(2) by (simp add: bit_unsigned_iff)
  then show "2 ^ (fls w - 1) \<le> unat w"
    by (metis bit_iff_odd div_less even_zero not_less)
qed

lemma roundup_pow_of_two_spec:
  assumes "1 < n" and "n \<le> 2 ^ 31"
  shows "\<exists>k < 32. u_roundup_pow_of_two n = 2 ^ k \<and> unat n \<le> 2 ^ k \<and> 2 ^ k < 2 * unat n"
proof -
  have n: "n - 1 \<noteq> 0" using assms(1) by auto
  have "1 < unat n" using assms(1) by (simp add: word_less_nat_alt)
  moreover then have "n \<noteq> 0" by auto
  ultimately have un: "unat (n - 1) = unat n - 1" "1 < unat n"
    by (simp_all add: unat_minus_one)
  have le: "unat n \<le> 2 ^ 31" using assms(2) by (simp add: word_le_nat_alt)
  note b = fls_bounds [OF n]
  have "2 ^ (fls (n - 1) - 1) < (2::nat) ^ 31" using b(1) un le by simp
  then have "fls (n - 1) - 1 < 31" by (rule power_less_imp_less_exp [rotated]) simp
  then have k: "fls (n - 1) < 32" by simp
  have pos: "0 < fls (n - 1)" using fls_inv [OF n] by simp
  then have "(2::nat) ^ fls (n - 1) = 2 * 2 ^ (fls (n - 1) - 1)" by (simp flip: power_Suc)
  then show ?thesis
    using k b un pos by (intro exI [of _ "fls (n - 1)"])
      (auto simp: u_roundup_pow_of_two_def fls_long_def push_bit_eq_mult)
qed

section \<open>Single bits\<close>

lemma test_bit_eq: "test_bit nr addr = bit (addr ! (nr div 32)) (nr mod 32)"
proof -
  have "nr AND 31 = nr mod 32"
    using and_pow2_minus1_nat [of nr 5] by simp
  then show ?thesis
    by (simp add: test_bit_def BIT_WORD_def bit_iff_odd_drop_bit one_and_eq
        odd_iff_mod_2_eq_one)
qed

lemma length_bit_setters [simp]:
  "length (u_set_bit nr addr) = length addr"
  "length (u_clear_bit nr addr) = length addr"
  "length (u_change_bit nr addr) = length addr"
  by (simp_all add: u_set_bit_def u_clear_bit_def u_change_bit_def)

lemma div_mod_eq_iff: "(i div 32 = j div 32 \<and> i mod 32 = j mod 32) \<longleftrightarrow> i = (j::nat)"
  by (metis div_mult_mod_eq)

lemma test_u_set_bit:
  "i < 32 * length addr \<Longrightarrow> test_bit j (u_set_bit i addr) \<longleftrightarrow> j = i \<or> test_bit j addr"
  using div_mod_eq_iff [of j i]
  by (cases "j div 32 = i div 32")
     (auto simp: test_bit_eq u_set_bit_def BIT_WORD_def BIT_MASK_def bit_simps div_less_iff_less_mult mult.commute)

lemma test_u_clear_bit:
  "i < 32 * length addr \<Longrightarrow> test_bit j (u_clear_bit i addr) \<longleftrightarrow> j \<noteq> i \<and> test_bit j addr"
  using div_mod_eq_iff [of j i]
  by (cases "j div 32 = i div 32")
     (auto simp: test_bit_eq u_clear_bit_def BIT_WORD_def BIT_MASK_def bit_simps div_less_iff_less_mult mult.commute)

lemma test_u_change_bit:
  "i < 32 * length addr \<Longrightarrow> test_bit j (u_change_bit i addr) \<longleftrightarrow> (j = i) \<noteq> test_bit j addr"
  using div_mod_eq_iff [of j i]
  by (cases "j div 32 = i div 32")
     (auto simp: test_bit_eq u_change_bit_def BIT_WORD_def BIT_MASK_def bit_simps div_less_iff_less_mult mult.commute)

lemma and_BIT_MASK: "addr ! BIT_WORD nr AND BIT_MASK nr \<noteq> 0 \<longleftrightarrow> test_bit nr addr"
proof -
  have "w AND push_bit k 1 \<noteq> 0 \<longleftrightarrow> bit w k" for w :: ulong and k
    using bit_imp_le_length [of w k] by (auto simp: word_neq_iff bit_simps)
  then show ?thesis by (simp add: test_bit_eq BIT_WORD_def BIT_MASK_def)
qed

lemma u_test_and_bit_eq [k_simps]:
  "u_test_and_set_bit nr addr = (test_bit nr addr, u_set_bit nr addr)"
  "u_test_and_clear_bit nr addr = (test_bit nr addr, u_clear_bit nr addr)"
  "u_test_and_change_bit nr addr = (test_bit nr addr, u_change_bit nr addr)"
  by (simp_all add: u_test_and_set_bit_def u_test_and_clear_bit_def u_test_and_change_bit_def
      u_set_bit_def u_clear_bit_def u_change_bit_def Let_def and_BIT_MASK)

section \<open>The searches\<close>

lemma bit_drop_all_ones: "bit (drop_bit (32 - n) (NOT 0 :: ulong)) i \<longleftrightarrow> i < n \<and> i < 32"
  if "n \<le> 32" for n
  using that by (auto simp: bit_simps)

lemma bit_push_all_ones: "bit (push_bit n (NOT 0 :: ulong)) i \<longleftrightarrow> n \<le> i \<and> i < 32"
  by (auto simp: bit_simps)

lemma find_next_bit_found_first_eq:
  assumes "siz < 32"
  shows "find_next_bit_found_first tmp siz result = result + next_index (bit tmp) siz 0"
proof -
  define t where "t = tmp AND drop_bit (32 - siz) (NOT 0)"
  have t: "bit t i \<longleftrightarrow> bit tmp i \<and> i < siz" for i
    using assms bit_drop_all_ones [of siz i] by (auto simp: t_def bit_and_iff)
  show ?thesis
  proof (cases "t = 0")
    case True
    then have "next_index (bit tmp) siz 0 = siz"
      using t by (intro next_index_eqI) auto
    with True show ?thesis by (simp add: find_next_bit_found_first_def t_def Let_def)
  next
    case False
    with u_ffs_inv [OF False] t have "next_index (bit tmp) siz 0 = u_ffs t"
      by (intro next_index_eqI) (auto simp: le_less)
    with False show ?thesis by (simp add: find_next_bit_found_first_def t_def Let_def)
  qed
qed

lemma find_next_zero_bit_found_first_eq:
  assumes "siz < 32"
  shows "find_next_zero_bit_found_first tmp siz result
    = result + next_index (\<lambda>i. \<not> bit tmp i) siz 0"
proof -
  define t where "t = tmp OR push_bit siz (NOT 0)"
  have t: "i < 32 \<Longrightarrow> bit t i \<longleftrightarrow> bit tmp i \<or> siz \<le> i" for i
    by (auto simp only: t_def bit_or_iff bit_push_all_ones)
  show ?thesis
  proof (cases "t = NOT 0")
    case True
    then have "bit tmp j" if "j < siz" for j
      using that assms t [of j] by (simp add: bit_simps)
    then have "next_index (\<lambda>i. \<not> bit tmp i) siz 0 = siz"
      by (intro next_index_eqI) auto
    with True show ?thesis by (simp add: find_next_zero_bit_found_first_def t_def Let_def)
  next
    case False
    then obtain k where "k < 32" "\<not> bit t k" by (auto simp: word_neq_iff bit_simps)
    then have k: "k < siz" "\<not> bit tmp k" using t by (auto simp: not_le)
    let ?x = "next_index (\<lambda>i. \<not> bit tmp i) siz 0"
    have "?x < siz" using k next_index_skip [of 0 k "\<lambda>i. \<not> bit tmp i" siz]
        next_index_le [of 0 siz "\<lambda>i. \<not> bit tmp i"] by (cases "k < ?x") auto
    have "next_index (\<lambda>i. \<not> bit t i) 32 0 = ?x"
    proof (rule next_index_eqI)
      show "\<not> bit t ?x"
        using \<open>?x < siz\<close> assms t [of ?x] next_index_hit [of "\<lambda>i. \<not> bit tmp i" siz 0] by simp
      show "\<not> \<not> bit t j" if "j < ?x" for j
        using that \<open>?x < siz\<close> assms t [of j] next_index_skip [of 0 j "\<lambda>i. \<not> bit tmp i" siz] by simp
    qed (use \<open>?x < siz\<close> assms in simp_all)
    with False show ?thesis
      unfolding find_next_zero_bit_found_first_def Let_def t_def [symmetric] by (simp add: ffz_eq)
  qed
qed

text \<open>
  One word of the array against the reference: the bits of word \<open>p\<close> are the bits
  \<open>32 * p\<close> to \<open>32 * p + 31\<close> of the array. Both loops are instances of one argument,
  over the predicate \<open>Q\<close> that is searched for.
\<close>

lemma next_index_word:
  assumes "\<And>j. j < 32 \<Longrightarrow> P (32 * p + j) \<longleftrightarrow> Q j" and "n \<le> 32"
  shows "next_index P (32 * p + n) (32 * p) = 32 * p + next_index Q n 0"
  using next_index_shift [of 0 n P "32 * p"] assms next_index_cong [of 0 n "\<lambda>j. P (32 * p + j)" Q]
  by simp

lemma next_index_word_hit:
  assumes "\<And>j. j < 32 \<Longrightarrow> P (32 * p + j) \<longleftrightarrow> Q j" and "next_index Q 32 0 < 32"
    and "32 * p + 32 \<le> n"
  shows "next_index P n (32 * p) = 32 * p + next_index Q 32 0"
proof (rule next_index_eqI)
  show "\<not> P j" if "32 * p \<le> j" "j < 32 * p + next_index Q 32 0" for j
    using that assms(1) [of "j - 32 * p"] assms(2) next_index_skip [of 0 "j - 32 * p" Q 32] by simp
qed (use assms next_index_hit [of Q 32 0] in auto)

lemma next_index_word_miss:
  assumes "\<And>j. j < 32 \<Longrightarrow> P (32 * p + j) \<longleftrightarrow> Q j" and "\<And>j. j < 32 \<Longrightarrow> \<not> Q j"
    and "32 * p + 32 \<le> n"
  shows "next_index P n (32 * p) = next_index P n (32 * p + 32)"
  using assms by (intro next_index_jump) (auto simp: le_iff_add)

lemma test_bit_word: "j < 32 \<Longrightarrow> test_bit (32 * p + j) addr = bit (addr ! p) j"
  by (simp add: test_bit_eq)

lemma find_next_bit_words_eq:
  "find_next_bit_words addr p siz (32 * p) = next_index (\<lambda>i. test_bit i addr) (32 * p + siz) (32 * p)"
proof (induction siz arbitrary: p rule: less_induct)
  case (less siz)
  let ?P = "\<lambda>i. test_bit i addr" and ?Q = "bit (addr ! p)"
  have word: "j < 32 \<Longrightarrow> ?P (32 * p + j) = ?Q j" for j by (rule test_bit_word)
  note unfold = find_next_bit_words.simps [of addr p siz "32 * p"]
  consider (hit) "32 \<le> siz" "addr ! p \<noteq> 0" | (miss) "32 \<le> siz" "addr ! p = 0" | (last) "siz < 32"
    by linarith
  then show ?case
  proof cases
    case hit
    then have "next_index ?Q 32 0 < 32"
      using u_ffs_inv [of "addr ! p"] bit_imp_le_length [of "addr ! p" "u_ffs (addr ! p)"]
      by (simp add: u_ffs_eq [symmetric])
    from next_index_word_hit [of ?P p ?Q, OF word this] hit show ?thesis
      unfolding unfold by (simp add: u_ffs_eq)
  next
    case miss
    have "find_next_bit_words addr p siz (32 * p)
        = find_next_bit_words addr (p + 1) (siz - 32) (32 * (p + 1))"
      unfolding unfold using miss by (simp add: add.commute)
    also have "\<dots> = next_index ?P (32 * p + siz) (32 * p + 32)"
      using less.IH [of "siz - 32" "p + 1"] miss by (simp add: add.commute)
    also have "\<dots> = next_index ?P (32 * p + siz) (32 * p)"
      using next_index_word_miss [of ?P p ?Q, OF word] miss by simp
    finally show ?thesis .
  next
    case last
    with next_index_word [of ?P p ?Q, OF word, of siz] show ?thesis
      unfolding unfold by (simp add: find_next_bit_found_first_eq)
  qed
qed

lemma find_next_zero_bit_words_eq:
  "find_next_zero_bit_words addr p siz (32 * p)
     = next_index (\<lambda>i. \<not> test_bit i addr) (32 * p + siz) (32 * p)"
proof (induction siz arbitrary: p rule: less_induct)
  case (less siz)
  let ?P = "\<lambda>i. \<not> test_bit i addr" and ?Q = "\<lambda>i. \<not> bit (addr ! p) i"
  have word: "j < 32 \<Longrightarrow> ?P (32 * p + j) = ?Q j" for j by (simp add: test_bit_word)
  note unfold = find_next_zero_bit_words.simps [of addr p siz "32 * p"]
  consider (hit) "32 \<le> siz" "addr ! p \<noteq> NOT 0" | (miss) "32 \<le> siz" "addr ! p = NOT 0"
    | (last) "siz < 32"
    by linarith
  then show ?case
  proof cases
    case hit
    then obtain k where k: "k < 32" "\<not> bit (addr ! p) k" by (auto simp: word_neq_iff bit_simps)
    then have "next_index ?Q 32 0 < 32"
      using next_index_skip [of 0 k ?Q 32] by (cases "next_index ?Q 32 0" k rule: linorder_cases) auto
    moreover have "NOT (addr ! p) \<noteq> 0" using hit by (metis bit.double_compl)
    ultimately show ?thesis
      using next_index_word_hit [of ?P p ?Q, OF word] hit
      unfolding unfold by (simp add: ffz_eq)
  next
    case miss
    then have "NOT (addr ! p) = 0" and full: "j < 32 \<Longrightarrow> bit (addr ! p) j" for j
      by (simp_all add: bit_simps)
    have "find_next_zero_bit_words addr p siz (32 * p)
        = find_next_zero_bit_words addr (p + 1) (siz - 32) (32 * (p + 1))"
      unfolding unfold using miss by (simp add: add.commute)
    also have "\<dots> = next_index ?P (32 * p + siz) (32 * p + 32)"
      using less.IH [of "siz - 32" "p + 1"] miss by (simp add: add.commute)
    also have "\<dots> = next_index ?P (32 * p + siz) (32 * p)"
      using next_index_word_miss [of ?P p ?Q, OF word] full miss by simp
    finally show ?thesis .
  next
    case last
    with next_index_word [of ?P p ?Q, OF word, of siz] show ?thesis
      unfolding unfold by (simp add: find_next_zero_bit_found_first_eq)
  qed
qed

text \<open>The first word of a search that starts at offset \<open>o'\<close> inside word \<open>p\<close>.\<close>

lemma next_index_first_word:
  assumes Q: "\<And>j. j < 32 \<Longrightarrow> Q j \<longleftrightarrow> o' \<le> j \<and> P (32 * p + j)" and o': "32 * p + o' < siz" "o' < 32"
  shows "siz - 32 * p \<le> 32 \<Longrightarrow>
      next_index P siz (32 * p + o') = 32 * p + next_index Q (siz - 32 * p) 0"
    and "32 \<le> siz - 32 * p \<Longrightarrow> j < 32 \<Longrightarrow> Q j \<Longrightarrow>
      next_index P siz (32 * p + o') = 32 * p + next_index Q 32 0"
    and "32 \<le> siz - 32 * p \<Longrightarrow> (\<And>j. j < 32 \<Longrightarrow> \<not> Q j) \<Longrightarrow>
      next_index P siz (32 * p + o') = next_index P siz (32 * (p + 1))"
proof -
  have Qo: "\<not> Q j" if "j < o'" for j using that Q [of j] o' by simp
  assume small: "siz - 32 * p \<le> 32"
  have "next_index P siz (32 * p + o') = 32 * p + next_index (\<lambda>j. P (32 * p + j)) (siz - 32 * p) o'"
    using next_index_shift [of o' "siz - 32 * p" P "32 * p"] o' by simp
  also have "next_index (\<lambda>j. P (32 * p + j)) (siz - 32 * p) o' = next_index Q (siz - 32 * p) o'"
    using Q small by (intro next_index_cong) auto
  also have "\<dots> = next_index Q (siz - 32 * p) 0"
    using Qo o' by (intro next_index_jump [symmetric]) auto
  finally show "next_index P siz (32 * p + o') = 32 * p + next_index Q (siz - 32 * p) 0" .
next
  assume j: "32 \<le> siz - 32 * p" "j < 32" "Q j"
  let ?x = "next_index Q 32 0"
  have "?x < 32" using j next_index_skip [of 0 j Q 32] by (cases ?x j rule: linorder_cases) auto
  have "Q ?x" using \<open>?x < 32\<close> by (rule next_index_hit)
  show "next_index P siz (32 * p + o') = 32 * p + ?x"
  proof (rule next_index_eqI)
    show "\<not> P i" if "32 * p + o' \<le> i" "i < 32 * p + ?x" for i
      using that \<open>?x < 32\<close> Q [of "i - 32 * p"] next_index_skip [of 0 "i - 32 * p" Q 32] by simp
  qed (use \<open>Q ?x\<close> \<open>?x < 32\<close> Q [of ?x] j in simp_all)
next
  assume none: "32 \<le> siz - 32 * p" "\<And>j. j < 32 \<Longrightarrow> \<not> Q j"
  show "next_index P siz (32 * p + o') = next_index P siz (32 * (p + 1))"
  proof (rule next_index_jump)
    show "\<not> P j" if "32 * p + o' \<le> j" "j < 32 * (p + 1)" for j
      using that none(2) [of "j - 32 * p"] Q [of "j - 32 * p"] by simp
  qed (use none o' in simp_all)
qed

lemma find_next_bit_eq: "find_next_bit addr siz off = next_index (\<lambda>i. test_bit i addr) siz off"
proof (cases "off < siz")
  case True
  define p o' where "p = off div 32" and "o' = off mod 32"
  define tmp where "tmp = addr ! p AND push_bit o' (NOT 0)"
  let ?P = "\<lambda>i. test_bit i addr"
  have off: "off = 32 * p + o'" "o' < 32" "off - o' = 32 * p"
    by (auto simp: p_def o'_def minus_mod_eq_mult_div)
  have Q: "bit tmp j \<longleftrightarrow> o' \<le> j \<and> ?P (32 * p + j)" if "j < 32" for j
    using that bit_push_all_ones [of o' j] test_bit_word [of j p addr]
    unfolding tmp_def bit_and_iff by blast
  note first = next_index_first_word [of "bit tmp" o' ?P p siz, OF Q]
  have tmp0: "tmp = 0 \<longleftrightarrow> (\<forall>j < 32. \<not> bit tmp j)" by (auto intro: bit_word_eqI)
  have def: "find_next_bit addr siz off =
      (if o' \<noteq> 0 then
         if siz - 32 * p < 32 then find_next_bit_found_first tmp (siz - 32 * p) (32 * p)
         else if tmp \<noteq> 0 then 32 * p + u_ffs tmp
         else find_next_bit_words addr (p + 1) (siz - 32 * p - 32) (32 * (p + 1))
       else find_next_bit_words addr p (siz - 32 * p) (32 * p))"
    using True
    unfolding find_next_bit_def Let_def p_def [symmetric] o'_def [symmetric] off(3) tmp_def [symmetric]
    by (simp add: add.commute)
  consider (aligned) "o' = 0" | (short) "o' \<noteq> 0" "siz - 32 * p < 32"
    | (hit) "o' \<noteq> 0" "32 \<le> siz - 32 * p" "tmp \<noteq> 0"
    | (miss) "o' \<noteq> 0" "32 \<le> siz - 32 * p" "tmp = 0" by linarith
  then show ?thesis
  proof cases
    case aligned
    with True off show ?thesis unfolding def by (simp add: find_next_bit_words_eq)
  next
    case short
    with True off first(1) show ?thesis unfolding def by (simp add: find_next_bit_found_first_eq)
  next
    case hit
    with True off first(2) tmp0 show ?thesis unfolding def by (auto simp: u_ffs_eq)
  next
    case miss
    with True off first(3) tmp0 show ?thesis unfolding def find_next_bit_words_eq by simp
  qed
qed (simp add: find_next_bit_def)

lemma find_next_zero_bit_eq:
  "find_next_zero_bit addr siz off = next_index (\<lambda>i. \<not> test_bit i addr) siz off"
proof (cases "off < siz")
  case True
  define p o' where "p = off div 32" and "o' = off mod 32"
  define tmp where "tmp = addr ! p OR drop_bit (32 - o') (NOT 0)"
  let ?P = "\<lambda>i. \<not> test_bit i addr"
  have off: "off = 32 * p + o'" "o' < 32" "off - o' = 32 * p"
    by (auto simp: p_def o'_def minus_mod_eq_mult_div)
  have Q: "\<not> bit tmp j \<longleftrightarrow> o' \<le> j \<and> ?P (32 * p + j)" if "j < 32" for j
    using that off(2) bit_drop_all_ones [of o' j] test_bit_word [of j p addr]
    unfolding tmp_def bit_or_iff by auto
  note first = next_index_first_word [of "\<lambda>j. \<not> bit tmp j" o' ?P p siz, OF Q]
  have tmp0: "NOT tmp = 0 \<longleftrightarrow> (\<forall>j < 32. bit tmp j)" "tmp = NOT 0 \<longleftrightarrow> NOT tmp = 0"
    using word_neq_iff [of "NOT tmp" 0] by (auto simp: bit_simps) (metis bit.double_compl bit.compl_zero)
  have def: "find_next_zero_bit addr siz off =
      (if o' \<noteq> 0 then
         if siz - 32 * p < 32 then find_next_zero_bit_found_first tmp (siz - 32 * p) (32 * p)
         else if NOT tmp \<noteq> 0 then 32 * p + ffz tmp
         else find_next_zero_bit_words addr (p + 1) (siz - 32 * p - 32) (32 * (p + 1))
       else find_next_zero_bit_words addr p (siz - 32 * p) (32 * p))"
    using True
    unfolding find_next_zero_bit_def Let_def p_def [symmetric] o'_def [symmetric] off(3) tmp_def [symmetric]
    by (simp add: add.commute)
  consider (aligned) "o' = 0" | (short) "o' \<noteq> 0" "siz - 32 * p < 32"
    | (hit) "o' \<noteq> 0" "32 \<le> siz - 32 * p" "NOT tmp \<noteq> 0"
    | (miss) "o' \<noteq> 0" "32 \<le> siz - 32 * p" "NOT tmp = 0" by linarith
  then show ?thesis
  proof cases
    case aligned
    with True off show ?thesis unfolding def by (simp add: find_next_zero_bit_words_eq)
  next
    case short
    with True off first(1) show ?thesis unfolding def by (simp add: find_next_zero_bit_found_first_eq)
  next
    case hit
    then have "tmp \<noteq> NOT 0" using tmp0(2) by blast
    moreover obtain j where "j < 32" "\<not> bit tmp j" using hit(3) tmp0(1) by blast
    ultimately show ?thesis using hit True off first(2) [of j] unfolding def by (simp add: ffz_eq)
  next
    case miss
    with True off first(3) tmp0(1) show ?thesis
      unfolding def find_next_zero_bit_words_eq by simp
  qed
qed (simp add: find_next_zero_bit_def)

lemma find_first_bit_eq: "find_first_bit addr siz = next_index (\<lambda>i. test_bit i addr) siz 0"
  using find_next_bit_words_eq [of addr 0] by (simp add: find_first_bit_def)

lemma find_first_zero_bit_eq: "find_first_zero_bit addr siz = next_index (\<lambda>i. \<not> test_bit i addr) siz 0"
  using find_next_zero_bit_words_eq [of addr 0] by (simp add: find_first_zero_bit_def)

section \<open>The interface of a bit array\<close>

text \<open>
  What the clients of the bit operations (\<open>Bitmap\<close>, \<open>Genalloc\<close>) rely on: a setter and
  a clearer that change one bit, and two searches that return the next set, respectively
  clear, bit. \<open>cap\<close> is the number of bits the array holds.
\<close>

locale bit_array =
  fixes test :: "nat \<Rightarrow> 'b \<Rightarrow> bool" and set1 :: "nat \<Rightarrow> 'b \<Rightarrow> 'b" and clear1 :: "nat \<Rightarrow> 'b \<Rightarrow> 'b"
    and find_set :: "'b \<Rightarrow> nat \<Rightarrow> nat \<Rightarrow> nat" and find_clear :: "'b \<Rightarrow> nat \<Rightarrow> nat \<Rightarrow> nat"
    and cap :: "'b \<Rightarrow> nat"
  assumes test_set1: "i < cap b \<Longrightarrow> test j (set1 i b) \<longleftrightarrow> j = i \<or> test j b"
    and test_clear1: "i < cap b \<Longrightarrow> test j (clear1 i b) \<longleftrightarrow> j \<noteq> i \<and> test j b"
    and cap_set1 [simp]: "cap (set1 i b) = cap b"
    and cap_clear1 [simp]: "cap (clear1 i b) = cap b"
    and find_set_eq: "find_set b n i = next_index (\<lambda>j. test j b) n i"
    and find_clear_eq: "find_clear b n i = next_index (\<lambda>j. \<not> test j b) n i"
begin

lemma set_run:
  "s + n \<le> cap b \<Longrightarrow> cap (for_range 0 n (\<lambda>k. set1 (s + k)) b) = cap b \<and>
   (test j (for_range 0 n (\<lambda>k. set1 (s + k)) b) \<longleftrightarrow> (s \<le> j \<and> j < s + n) \<or> test j b)"
  by (induction n) (auto simp: test_set1)

lemma clear_run:
  "s + n \<le> cap b \<Longrightarrow> cap (for_range 0 n (\<lambda>k. clear1 (s + k)) b) = cap b \<and>
   (test j (for_range 0 n (\<lambda>k. clear1 (s + k)) b) \<longleftrightarrow> \<not> (s \<le> j \<and> j < s + n) \<and> test j b)"
  by (induction n) (auto simp: test_clear1)

text \<open>
  A run of \<open>n\<close> clear bits from a clear bit \<open>s\<close>: there is one exactly when the next set
  bit after \<open>s\<close>, searched up to \<open>s + n\<close>, is at least \<open>n\<close> away.
\<close>

lemma clear_run_iff:
  assumes "\<not> test s b" and "0 < n"
  shows "s + n \<le> find_set b (s + n) (s + 1) \<longleftrightarrow> (\<forall>j. s \<le> j \<and> j < s + n \<longrightarrow> \<not> test j b)"
proof
  assume *: "s + n \<le> find_set b (s + n) (s + 1)"
  show "\<forall>j. s \<le> j \<and> j < s + n \<longrightarrow> \<not> test j b"
  proof (intro allI impI)
    fix j assume "s \<le> j \<and> j < s + n"
    then show "\<not> test j b"
      using * assms next_index_skip [of "s + 1" j "\<lambda>j. test j b" "s + n"]
      by (cases "j = s") (auto simp: find_set_eq)
  qed
next
  assume none: "\<forall>j. s \<le> j \<and> j < s + n \<longrightarrow> \<not> test j b"
  have "next_index (\<lambda>j. test j b) (s + n) (s + 1) = s + n"
    using none assms(2) by (intro next_index_eqI) auto
  then show "s + n \<le> find_set b (s + n) (s + 1)" by (simp add: find_set_eq)
qed

end

interpretation bits: bit_array test_bit u_set_bit u_clear_bit find_next_bit find_next_zero_bit
  "\<lambda>addr. 32 * length addr"
  by unfold_locales
     (simp_all add: test_u_set_bit test_u_clear_bit find_next_bit_eq find_next_zero_bit_eq)

end
