(* ===== verification/Hweight.thy ===== *)
theory Hweight
  imports Bitops
begin

text \<open>
  The Hamming weights of \<open>lib/hweight.c\<close>: sums of neighbouring bits, pairs, nibbles and
  bytes computed in parallel inside one word, against the number of set bits.
\<close>

section \<open>The parallel sums\<close>

definition hweight32 :: "u32 \<Rightarrow> u32" where
  "hweight32 w =
     (let res = w - (drop_bit 1 w AND 0x55555555);
          res = (res AND 0x33333333) + (drop_bit 2 res AND 0x33333333);
          res = (res + drop_bit 4 res) AND 0x0F0F0F0F;
          res = res + drop_bit 8 res
      in (res + drop_bit 16 res) AND 0x000000FF)"

definition hweight16 :: "u32 \<Rightarrow> u32" where
  "hweight16 w =
     (let res = w - (drop_bit 1 w AND 0x5555);
          res = (res AND 0x3333) + (drop_bit 2 res AND 0x3333);
          res = (res + drop_bit 4 res) AND 0x0F0F
      in (res + drop_bit 8 res) AND 0x00FF)"

definition hweight8 :: "u32 \<Rightarrow> u32" where
  "hweight8 w =
     (let res = w - (drop_bit 1 w AND 0x55);
          res = (res AND 0x33) + (drop_bit 2 res AND 0x33)
      in (res + drop_bit 4 res) AND 0x0F)"

definition hweight64 :: "u64 \<Rightarrow> ulong" where
  "hweight64 w = hweight32 (ucast (drop_bit 32 w)) + hweight32 (ucast w)"

definition hweight_long :: "ulong \<Rightarrow> ulong" where
  "hweight_long w = hweight32 w"

section \<open>Lanes\<close>

text \<open>
  A number as a list of \<open>k\<close>-bit lanes, lowest first. Masks, shifts by whole lanes and
  sums without carries work lane by lane.
\<close>

fun lanes :: "nat \<Rightarrow> nat list \<Rightarrow> nat" where
  "lanes k [] = 0"
| "lanes k (d # ds) = d + 2 ^ k * lanes k ds"

lemma bit_below:
  fixes x :: nat
  assumes "x < 2 ^ k" and "bit x i"
  shows "i < k"
  using assms by (metis bit_take_bit_iff take_bit_nat_eq_self_iff)

lemma bit_lane:
  fixes x y :: nat
  assumes "x < 2 ^ k"
  shows "bit (x + 2 ^ k * y) i \<longleftrightarrow> (if i < k then bit x i else bit y (i - k))"
proof -
  have "x AND push_bit k y = 0"
    using bit_below [OF assms] by (intro bit_eqI) (fastforce simp: bit_simps)
  then have "x + push_bit k y = x OR push_bit k y" by (rule disjunctive_add_eq_or)
  then have "bit (x + 2 ^ k * y) i \<longleftrightarrow> bit (x OR push_bit k y) i"
    by (simp add: push_bit_eq_mult mult.commute)
  then show ?thesis using bit_below [OF assms, of i] by (auto simp: bit_simps)
qed

lemma and_less_pow: "a < 2 ^ k \<Longrightarrow> a AND b < 2 ^ k" for a b :: nat
proof -
  assume "a < 2 ^ k"
  then have "take_bit k (a AND b) = a AND b"
    by (intro bit_eqI) (auto simp: bit_simps dest: bit_below)
  then show ?thesis by (metis take_bit_nat_less_exp)
qed

lemma and_lane:
  fixes a b c d :: nat
  assumes "a < 2 ^ k" and "c < 2 ^ k"
  shows "(a + 2 ^ k * b) AND (c + 2 ^ k * d) = (a AND c) + 2 ^ k * (b AND d)"
  by (rule bit_eqI) (simp add: bit_lane assms and_less_pow bit_and_iff)

definition weight :: "nat \<Rightarrow> nat" where
  "weight w = card {i. bit w i}"

lemma finite_bits: "finite {i. bit w i}" for w :: nat
proof (rule finite_subset)
  show "{i. bit w i} \<subseteq> {..<w}" by (auto dest: bit_below [OF less_exp])
qed simp

lemma weight_lane: "a < 2 ^ k \<Longrightarrow> weight (a + 2 ^ k * b) = weight a + weight b"
proof -
  assume a: "a < 2 ^ k"
  have "{i. bit (a + 2 ^ k * b) i} = {i. bit a i} \<union> (+) k ` {i. bit b i}"
    using bit_below [OF a] by (auto simp: bit_lane [OF a] image_iff split: if_splits)
       (metis le_add_diff_inverse not_less)
  moreover have "{i. bit a i} \<inter> (+) k ` {i. bit b i} = {}"
    using bit_below [OF a] by fastforce
  ultimately show ?thesis
    by (simp add: weight_def card_Un_disjoint finite_bits card_image)
qed

lemma weight_lanes: "\<forall>d \<in> set ds. d < 2 ^ k \<Longrightarrow> weight (lanes k ds) = sum_list (map weight ds)"
  by (induction ds) (simp_all add: weight_lane, simp add: weight_def)

lemma lanes_exist:
  "w < 2 ^ (k * n) \<Longrightarrow> \<exists>ds. length ds = n \<and> (\<forall>d \<in> set ds. d < 2 ^ k) \<and> w = lanes k ds"
proof (induction n arbitrary: w)
  case (Suc n)
  then have "w div 2 ^ k < 2 ^ (k * n)"
    by (simp add: div_less_iff_less_mult power_add mult.commute)
  then obtain ds where "length ds = n" "\<forall>d \<in> set ds. d < 2 ^ k" "w div 2 ^ k = lanes k ds"
    using Suc.IH by blast
  then show ?case
    by (intro exI [of _ "w mod 2 ^ k # ds"]) (auto simp flip: \<open>w div 2 ^ k = lanes k ds\<close>)
qed simp

lemma lanes_bound: "\<forall>d \<in> set ds. d < 2 ^ k \<Longrightarrow> lanes k ds < 2 ^ (k * length ds)"
proof (induction ds)
  case (Cons d ds)
  then have "d + 2 ^ k * lanes k ds < 2 ^ k * (lanes k ds + 1)" by simp
  also have "\<dots> \<le> 2 ^ k * 2 ^ (k * length ds)"
    using Cons by (intro mult_left_mono) (auto simp: Suc_le_eq)
  finally show ?case by (simp add: power_add)
qed simp

lemma lanes_low: "x < 2 ^ k \<Longrightarrow> lanes k (x # ds) mod 2 ^ k = x"
  by simp

lemma lanes_add:
  "length xs = length ys \<Longrightarrow> lanes k xs + lanes k ys = lanes k (map2 (+) xs ys)"
proof (induction xs ys rule: list_induct2)
  case (Cons x xs y ys)
  then show ?case by (simp add: distrib_left flip: Cons.IH)
qed simp

lemma lanes_diff:
  "length xs = length ys \<Longrightarrow> list_all2 (\<le>) ys xs \<Longrightarrow>
   lanes k ys \<le> lanes k xs \<and> lanes k xs - lanes k ys = lanes k (map2 (-) xs ys)"
proof (induction xs ys rule: list_induct2)
  case (Cons x xs y ys)
  then have "lanes k ys \<le> lanes k xs" "lanes k xs - lanes k ys = lanes k (map2 (-) xs ys)" "y \<le> x"
    by auto
  moreover from this have "2 ^ k * lanes k ys \<le> 2 ^ k * lanes k xs" by simp
  ultimately show ?case
    by (auto simp: diff_mult_distrib2 simp flip: \<open>lanes k xs - lanes k ys = lanes k (map2 (-) xs ys)\<close>
        intro: add_mono)
qed simp

lemma lanes_and:
  "length xs = length ys \<Longrightarrow> \<forall>d \<in> set xs. d < 2 ^ k \<Longrightarrow> \<forall>d \<in> set ys. d < 2 ^ k \<Longrightarrow>
   lanes k xs AND lanes k ys = lanes k (map2 (AND) xs ys)"
  by (induction xs ys rule: list_induct2) (simp_all add: and_lane)

text \<open>Shifting inside the lanes, with the bits that cross a boundary masked off.\<close>

lemma lanes_shift_and:
  assumes "j \<le> k" and "m < 2 ^ (k - j)" and "\<forall>d \<in> set ds. d < 2 ^ k"
  shows "(lanes k ds div 2 ^ j) AND lanes k (replicate (length ds) m)
    = lanes k (map (\<lambda>d. (d div 2 ^ j) AND m) ds)"
  using assms(3)
proof (induction ds)
  case (Cons d ds)
  let ?L = "lanes k ds" and ?M = "lanes k (replicate (length ds) m)"
  have kj: "(2::nat) ^ k = 2 ^ j * 2 ^ (k - j)" using assms(1) by (simp flip: power_add)
  have "(d + 2 ^ k * ?L) div 2 ^ j = d div 2 ^ j + 2 ^ (k - j) * ?L"
    unfolding kj by (simp add: mult.assoc)
  also have "\<dots> = (d div 2 ^ j + 2 ^ (k - j) * (?L mod 2 ^ j)) + 2 ^ k * (?L div 2 ^ j)"
    unfolding kj by (simp add: algebra_simps) (metis add.commute distrib_left mod_mult_div_eq mult.left_commute mult.commute)
  finally have split: "lanes k (d # ds) div 2 ^ j = \<dots>" by simp
  have lo: "d div 2 ^ j < 2 ^ (k - j)"
    using Cons.prems by (simp add: div_less_iff_less_mult kj mult.commute)
  then have "d div 2 ^ j + 2 ^ (k - j) * (?L mod 2 ^ j) < 2 ^ (k - j) * (?L mod 2 ^ j + 1)" by simp
  also have "\<dots> \<le> 2 ^ (k - j) * 2 ^ j" by (intro mult_left_mono) (auto simp: Suc_le_eq)
  finally have low: "d div 2 ^ j + 2 ^ (k - j) * (?L mod 2 ^ j) < 2 ^ k" by (simp add: kj mult.commute)
  have "m < 2 ^ k" using assms(1,2) by (meson diff_le_self le_less_trans less_le_trans one_le_numeral power_increasing)
  have "(d div 2 ^ j + 2 ^ (k - j) * (?L mod 2 ^ j)) AND m = (d div 2 ^ j) AND m"
    using and_lane [OF lo assms(2), of "?L mod 2 ^ j" 0] by simp
  then show ?case
    using Cons by (simp add: split [unfolded lanes.simps] and_lane [OF low \<open>m < 2 ^ k\<close>])
qed simp

section \<open>hweight32 counts the set bits\<close>

lemma weight_small: "weight 0 = 0" "weight (Suc 0) = 1" "weight 2 = 1" "weight 3 = 2"
proof -
  show "weight 0 = 0" by (simp add: weight_def)
  have one: "weight 1 = 1" by (simp add: weight_def bit_Suc_0_iff)
  then show "weight (Suc 0) = 1" by simp
  from one show "weight 2 = 1" "weight 3 = 2"
    using weight_lane [of 0 1 1] weight_lane [of 1 1 1] \<open>weight 0 = 0\<close> by (simp_all add: numeral_2_eq_2 numeral_3_eq_3)
qed

lemma weight_crumb:
  fixes d :: nat
  assumes "d < 4"
  shows "d - d div 2 mod 2 = weight d" "weight d \<le> 2"
proof -
  from assms consider "d = 0" | "d = 1" | "d = 2" | "d = 3" by linarith
  then show "d - d div 2 mod 2 = weight d" "weight d \<le> 2"
    by (cases; simp add: weight_small)+
qed

text \<open>The first two steps on natural numbers, each from lanes to lanes.\<close>

lemma hweight_pairs:
  assumes "\<forall>d \<in> set ds. d < 4"
  shows "lanes 2 ds - (lanes 2 ds div 2 AND lanes 2 (replicate (length ds) 1)) = lanes 2 (map weight ds)"
    and "lanes 2 ds div 2 AND lanes 2 (replicate (length ds) 1) \<le> lanes 2 ds"
proof -
  have m: "lanes 2 ds div 2 AND lanes 2 (replicate (length ds) 1) = lanes 2 (map (\<lambda>d. d div 2 AND 1) ds)"
    using lanes_shift_and [of 1 2 1 ds] assms by simp
  have "list_all2 (\<le>) (map (\<lambda>d. d div 2 AND 1) ds) ds"
    by (auto simp: list_all2_conv_all_nth intro: order_trans [OF mod_less_eq_dividend div_le_dividend])
  note d = lanes_diff [OF _ this, of 2]
  have "map2 (-) ds (map (\<lambda>d. d div 2 AND 1) ds) = map weight ds"
    using assms by (intro nth_equalityI) (simp_all add: weight_crumb(1) and_one_eq)
  with d m show "lanes 2 ds - (lanes 2 ds div 2 AND lanes 2 (replicate (length ds) 1)) = lanes 2 (map weight ds)"
    and "lanes 2 ds div 2 AND lanes 2 (replicate (length ds) 1) \<le> lanes 2 ds"
    by simp_all
qed

lemma hweight_nibbles:
  assumes "\<forall>(a, b) \<in> set ps. a \<le> 2 \<and> b \<le> 2"
  shows "(lanes 4 (map (\<lambda>(a, b). a + 4 * b) ps) AND lanes 4 (replicate (length ps) 3))
       + (lanes 4 (map (\<lambda>(a, b). a + 4 * b) ps) div 4 AND lanes 4 (replicate (length ps) 3))
     = lanes 4 (map (\<lambda>(a, b). a + b) ps)"
proof -
  let ?es = "map (\<lambda>(a, b). a + 4 * b) ps"
  have es: "\<forall>e \<in> set ?es. e < 2 ^ 4" using assms by fastforce
  have three: "(x + 4 * y) AND 3 = (x::nat)" "(y + x div 4) AND 3 = y" if "x \<le> 2" "y \<le> 2" for x y :: nat
    using that and_pow2_minus1_nat [of "x + 4 * y" 2] and_pow2_minus1_nat [of y 2] by auto
  have "map2 (+) (map (\<lambda>e. e AND 3) ?es) (map (\<lambda>e. e div 4 AND 3) ?es) = map (\<lambda>(a, b). a + b) ps"
    using assms by (intro nth_equalityI) (auto simp: three split_beta dest!: nth_mem)
  then show ?thesis
    using lanes_shift_and [of 0 4 3 ?es] lanes_shift_and [of 2 4 3 ?es] es
    by (simp add: lanes_add)
qed

text \<open>The sums of nibbles into bytes, and of the four bytes.\<close>

lemma hweight_bytes:
  fixes n0 n1 n2 n3 n4 n5 n6 n7 :: nat
  assumes "n0 \<le> 4" "n1 \<le> 4" "n2 \<le> 4" "n3 \<le> 4" "n4 \<le> 4" "n5 \<le> 4" "n6 \<le> 4" "n7 \<le> 4"
  defines "r \<equiv> lanes 4 [n0, n1, n2, n3, n4, n5, n6, n7]"
  shows "(r + r div 16) AND 0x0F0F0F0F = lanes 8 [n0 + n1, n2 + n3, n4 + n5, n6 + n7]"
    and "r + r div 16 < 2 ^ 32"
proof -
  let ?ds = "[(n0 + n1) + 16 * (n1 + n2), (n2 + n3) + 16 * (n3 + n4),
    (n4 + n5) + 16 * (n5 + n6), (n6 + n7) + 16 * n7]"
  have "r div 16 = lanes 4 [n1, n2, n3, n4, n5, n6, n7]"
    unfolding r_def using assms(1) by simp
  then have sum: "r + r div 16 = lanes 8 ?ds" unfolding r_def by simp
  have low: "(a + a' + 16 * b) AND 15 = a + a'" if "a \<le> 4" "a' \<le> 4" for a a' b :: nat
    using that and_pow2_minus1_nat [of "a + a' + 16 * b" 4] by simp
  have "lanes 8 ?ds AND lanes 8 [15, 15, 15, 15] = lanes 8 (map2 (AND) ?ds [15, 15, 15, 15])"
    using assms by (intro lanes_and) auto
  also have "\<dots> = lanes 8 [n0 + n1, n2 + n3, n4 + n5, n6 + n7]"
    using low [OF assms(1,2), of "n1 + n2"] low [OF assms(3,4), of "n3 + n4"]
      low [OF assms(5,6), of "n5 + n6"] low [OF assms(7,8), of n7]
    by (simp del: lanes.simps)
  finally show "(r + r div 16) AND 0x0F0F0F0F = lanes 8 [n0 + n1, n2 + n3, n4 + n5, n6 + n7]"
    unfolding sum by simp
  show "r + r div 16 < 2 ^ 32"
    unfolding sum using lanes_bound [of ?ds 8] assms by (simp del: lanes.simps)
qed

lemma hweight_total:
  fixes b0 b1 b2 b3 :: nat
  assumes "b0 \<le> 8" "b1 \<le> 8" "b2 \<le> 8" "b3 \<le> 8"
  defines "r \<equiv> lanes 8 [b0, b1, b2, b3]"
  defines "s \<equiv> r + r div 256"
  shows "(s + s div 65536) AND 255 = b0 + b1 + b2 + b3"
    and "s + s div 65536 < 2 ^ 32" and "s < 2 ^ 32"
proof -
  have "r div 256 = lanes 8 [b1, b2, b3]" unfolding r_def using assms(1) by simp
  then have s: "s = lanes 8 [b0 + b1, b1 + b2, b2 + b3, b3]" unfolding s_def r_def by simp
  then have "s div 65536 = lanes 8 [b2 + b3, b3]" using assms by simp
  with s have t: "s + s div 65536 = lanes 8 [b0 + b1 + b2 + b3, b1 + b2 + b3, b2 + b3, b3]" by simp
  then have "(s + s div 65536) mod 256 = b0 + b1 + b2 + b3"
    using lanes_low [of "b0 + b1 + b2 + b3" 8] assms(1-4) by (simp del: lanes.simps)
  then show "(s + s div 65536) AND 255 = b0 + b1 + b2 + b3"
    using and_pow2_minus1_nat [of "s + s div 65536" 8] by simp
  show "s + s div 65536 < 2 ^ 32" "s < 2 ^ 32" using assms(1-4) unfolding t s by simp_all
qed

lemma length_16D: "length ds = 16 \<Longrightarrow>
  \<exists>a b c d e f g h i j k l m n p q. ds = [a, b, c, d, e, f, g, h, i, j, k, l, m, n, p, q]"
  by (auto simp: numeral_eq_Suc length_Suc_conv)

lemma replicate_16: "replicate 16 x = [x, x, x, x, x, x, x, x, x, x, x, x, x, x, x, x]"
  by (simp add: numeral_eq_Suc)

lemmas unat_word_steps = unsigned_and_eq unat_drop_bit

lemma hweight32_weight: "unat (hweight32 w) = weight (unat w)"
proof -
  define r1 where "r1 = w - (drop_bit 1 w AND 0x55555555)"
  define r2 where "r2 = (r1 AND 0x33333333) + (drop_bit 2 r1 AND 0x33333333)"
  define r3 where "r3 = (r2 + drop_bit 4 r2) AND 0x0F0F0F0F"
  define r4 where "r4 = r3 + drop_bit 8 r3"
  have "unat w < 2 ^ (2 * 16)" using unsigned_less [of w] by simp
  then obtain ds where ds: "length ds = 16" "\<forall>d \<in> set ds. d < 2 ^ 2" "unat w = lanes 2 ds"
    using lanes_exist by blast
  obtain a b c d e f g h i j k l m n p q where
    l: "map weight ds = [a, b, c, d, e, f, g, h, i, j, k, l, m, n, p, q]"
    using length_16D [of "map weight ds"] ds(1) by auto
  let ?ps = "[(a, b), (c, d), (e, f), (g, h), (i, j), (k, l), (m, n), (p, q)]"
  let ?P = "lanes 4 (map (\<lambda>(a, b). a + 4 * b) ?ps)"
  have le2: "\<forall>x \<in> set (map weight ds). x \<le> 2" using ds(2) weight_crumb(2) by auto
  then have bounds: "a \<le> 2" "b \<le> 2" "c \<le> 2" "d \<le> 2" "e \<le> 2" "f \<le> 2" "g \<le> 2" "h \<le> 2"
    "i \<le> 2" "j \<le> 2" "k \<le> 2" "l \<le> 2" "m \<le> 2" "n \<le> 2" "p \<le> 2" "q \<le> 2"
    unfolding l by simp_all
  have "lanes 2 (replicate (length ds) 1) = 0x55555555" unfolding ds(1) by (simp add: replicate_16)
  then have "unat r1 = lanes 2 (map weight ds)"
    using hweight_pairs [of ds] ds(2,3) unfolding r1_def
    by (subst unat_sub) (simp_all add: word_le_nat_alt unat_word_steps)
  then have r1: "unat r1 = ?P" unfolding l by simp
  have "unat (r1 AND 0x33333333) + unat (drop_bit 2 r1 AND 0x33333333) = lanes 4 [a + b, c + d, e + f, g + h, i + j, k + l, m + n, p + q]"
    using hweight_nibbles [of ?ps] bounds
    by (simp add: unat_word_steps r1)
  then have "unat r2 = lanes 4 [a + b, c + d, e + f, g + h, i + j, k + l, m + n, p + q]"
    unfolding r2_def using bounds by (subst unat_plus_if') simp
  note hweight_bytes [of "a + b" "c + d" "e + f" "g + h" "i + j" "k + l" "m + n" "p + q", folded this]
  then have "unat r3 = lanes 8 [a + b + (c + d), e + f + (g + h), i + j + (k + l), m + n + (p + q)]"
    unfolding r3_def using bounds by (simp add: unat_word_steps unat_plus_if' del: lanes.simps)
  note hweight_total [of "a + b + (c + d)" "e + f + (g + h)" "i + j + (k + l)" "m + n + (p + q)", folded this]
  then have "unat ((r4 + drop_bit 16 r4) AND 0xFF) = sum_list (map weight ds)"
    unfolding r4_def l using bounds by (simp add: unat_word_steps unat_plus_if')
  moreover have "hweight32 w = (r4 + drop_bit 16 r4) AND 0xFF"
    by (simp add: hweight32_def Let_def r1_def r2_def r3_def r4_def)
  ultimately show ?thesis using weight_lanes [OF ds(2)] ds(3) by simp
qed

lemma weight_unat: "weight (unat w) = card {i. bit w i}" for w :: "'a::len word"
  by (simp add: weight_def bit_unsigned_iff)

theorem hweight32_eq: "unat (hweight32 w) = card {i. bit w i}"
  by (simp add: hweight32_weight weight_unat)

lemma hweight_long_eq: "unat (hweight_long w) = card {i. bit w i}"
  by (simp add: hweight_long_def hweight32_eq)

lemma weight_le: "w < 2 ^ n \<Longrightarrow> weight w \<le> n"
  using card_mono [of "{..<n}" "{i. bit w i}"] bit_below by (fastforce simp: weight_def)

lemma hweight64_eq: "unat (hweight64 w) = card {i. bit w i}"
proof -
  have w: "unat w < 2 ^ 64" using unsigned_less [of w] by simp
  have lo: "unat (ucast w :: u32) = unat w mod 2 ^ 32"
    by (simp add: unsigned_ucast_eq take_bit_eq_mod)
  have hi: "unat (ucast (drop_bit 32 w) :: u32) = unat w div 2 ^ 32"
    using w by (simp add: unsigned_ucast_eq unat_drop_bit take_bit_nat_eq_self)
  have "weight (unat w mod 2 ^ 32) \<le> 32" "weight (unat w div 2 ^ 32) \<le> 32"
    using w by (auto intro!: weight_le)
  moreover have "weight (unat w mod 2 ^ 32 + 2 ^ 32 * (unat w div 2 ^ 32))
      = weight (unat w mod 2 ^ 32) + weight (unat w div 2 ^ 32)"
    by (rule weight_lane) simp
  ultimately show ?thesis
    by (simp add: hweight64_def unat_plus_if' hweight32_weight lo hi flip: weight_unat)
qed

text \<open>The narrow routines agree with the wide one on arguments that fit.\<close>

lemma and_narrow:
  fixes x m :: "'a::len word"
  assumes "unat x < 2 ^ k"
  shows "x AND m = x AND take_bit k m"
  using assms by (intro bit_word_eqI) (auto simp: bit_simps bit_unsigned_iff dest: bit_below)

lemma and_le_mask: "unat (x AND m) \<le> unat m" for x m :: "'a::len word"
  by (simp add: word_and_le1 flip: word_le_nat_alt)

lemma hweight16_eq:
  assumes "unat w < 2 ^ 16"
  shows "unat (hweight16 w) = card {i. bit w i}"
proof -
  define r1 where "r1 = w - (drop_bit 1 w AND 0x5555)"
  define r2 where "r2 = (r1 AND 0x3333) + (drop_bit 2 r1 AND 0x3333)"
  define r3 where "r3 = (r2 + drop_bit 4 r2) AND 0x0F0F"
  have "unat (drop_bit 1 w AND 0x5555) \<le> unat w"
    using and_le_mask [of "0x5555" "drop_bit 1 w"] by (simp add: unat_drop_bit and.commute)
  then have r1: "unat r1 < 2 ^ 16"
    using assms by (simp add: r1_def unat_sub word_le_nat_alt)
  have "unat (r1 AND 0x3333) \<le> 0x3333" "unat (drop_bit 2 r1 AND 0x3333) \<le> 0x3333"
    using and_le_mask [where m = "0x3333 :: u32"] by auto
  then have r2: "unat r2 \<le> 0x6666" by (simp add: r2_def unat_plus_if')
  with div_le_mono [OF r2, of 16] have s2: "unat (r2 + drop_bit 4 r2) < 2 ^ 16" by (simp add: unat_plus_if' unat_drop_bit)
  have r3: "unat r3 \<le> 0x0F0F" using and_le_mask [where m = "0x0F0F :: u32"] by (auto simp: r3_def)
  with div_le_mono [OF r3, of 256] have "unat (r3 + drop_bit 8 r3) < 2 ^ 16" by (simp add: unat_plus_if' unat_drop_bit)
  then have s3: "drop_bit 16 (r3 + drop_bit 8 r3) = 0"
    by (simp add: unat_drop_bit flip: unat_eq_0)
  have narrow: "drop_bit n x AND m = drop_bit n x AND take_bit 16 m" if "unat x < 2 ^ 16" for n and x m :: u32
    using that by (intro and_narrow) (auto simp: unat_drop_bit intro: le_less_trans [OF div_le_dividend])
  have "w - (drop_bit 1 w AND 0x55555555) = r1"
    using narrow [OF assms, of 1 "0x55555555"] by (simp add: r1_def)
  moreover have "(r1 AND 0x33333333) + (drop_bit 2 r1 AND 0x33333333) = r2"
    using narrow [OF r1, of 2 "0x33333333"] narrow [OF r1, of 0 "0x33333333"] by (simp add: r2_def)
  moreover have "(r2 + drop_bit 4 r2) AND 0x0F0F0F0F = r3"
    using narrow [OF s2, of 0 "0x0F0F0F0F"] by (simp add: r3_def)
  ultimately have "hweight32 w = (r3 + drop_bit 8 r3) AND 0xFF"
    by (simp add: hweight32_def Let_def s3 del: drop_bit_and)
  then have "hweight16 w = hweight32 w"
    by (simp add: hweight16_def Let_def r1_def r2_def r3_def)
  then show ?thesis by (simp add: hweight32_eq)
qed

lemma hweight8_eq:
  assumes "unat w < 2 ^ 8"
  shows "unat (hweight8 w) = card {i. bit w i}"
proof -
  define r1 where "r1 = w - (drop_bit 1 w AND 0x55)"
  define r2 where "r2 = (r1 AND 0x33) + (drop_bit 2 r1 AND 0x33)"
  have "unat (drop_bit 1 w AND 0x55) \<le> unat w"
    using and_le_mask [of "0x55" "drop_bit 1 w"] by (simp add: unat_drop_bit and.commute)
  then have r1: "unat r1 < 2 ^ 8"
    using assms by (simp add: r1_def unat_sub word_le_nat_alt)
  have "unat (r1 AND 0x33) \<le> 0x33" "unat (drop_bit 2 r1 AND 0x33) \<le> 0x33"
    using and_le_mask [where m = "0x33 :: u32"] by auto
  then have r2: "unat r2 \<le> 0x66" by (simp add: r2_def unat_plus_if')
  with div_le_mono [OF r2, of 16] have s2: "unat (r2 + drop_bit 4 r2) < 2 ^ 8" by (simp add: unat_plus_if' unat_drop_bit)
  define r3 where "r3 = (r2 + drop_bit 4 r2) AND 0x0F"
  have "unat r3 \<le> 0x0F" using and_le_mask [where m = "0x0F :: u32"] by (auto simp: r3_def)
  then have s3: "drop_bit 8 r3 = 0" by (simp add: unat_drop_bit flip: unat_eq_0)
  have narrow: "drop_bit n x AND m = drop_bit n x AND take_bit 8 m" if "unat x < 2 ^ 8" for n and x m :: u32
    using that by (intro and_narrow) (auto simp: unat_drop_bit intro: le_less_trans [OF div_le_dividend])
  have "w - (drop_bit 1 w AND 0x5555) = r1"
    using narrow [OF assms, of 1 "0x5555"] by (simp add: r1_def)
  moreover have "(r1 AND 0x3333) + (drop_bit 2 r1 AND 0x3333) = r2"
    using narrow [OF r1, of 2 "0x3333"] narrow [OF r1, of 0 "0x3333"] by (simp add: r2_def)
  moreover have "(r2 + drop_bit 4 r2) AND 0x0F0F = r3"
    using narrow [OF s2, of 0 "0x0F0F"] by (simp add: r3_def)
  ultimately have "hweight16 w = (r3 + drop_bit 8 r3) AND 0xFF"
    by (simp add: hweight16_def Let_def del: drop_bit_and)
  then have "hweight16 w = r3 AND 0xFF" by (simp add: s3)
  also have "\<dots> = hweight8 w"
    by (simp add: hweight8_def Let_def r1_def r2_def r3_def and.assoc)
  finally show ?thesis using hweight16_eq [of w] assms by simp
qed

end
