(* ===== verification/Bitmap.thy ===== *)
theory Bitmap
  imports Hweight
begin

text \<open>
  Bitmaps of \<open>lib/bitmap.c\<close> and \<open>include/linux/bitmap.h\<close>: arrays of \<open>unsigned long\<close> with a
  number of valid bits. Each operation is given word by word as the code has it and shown to
  be the operation of its name on the set of positions of the valid bits, whatever the unused
  bits of the last word hold.
\<close>

section \<open>Operations on whole words\<close>

definition BITMAP_LAST_WORD_MASK :: "nat \<Rightarrow> ulong" where
  "BITMAP_LAST_WORD_MASK nbits =
     (if nbits mod BITS_PER_LONG \<noteq> 0 then push_bit (nbits mod BITS_PER_LONG) 1 - 1 else NOT 0)"

definition bitmap_zero :: "ulong list \<Rightarrow> nat \<Rightarrow> ulong list" where
  "bitmap_zero dst nbits = mem_write dst 0 (replicate (BITS_TO_LONGS nbits) 0)"

definition bitmap_fill :: "ulong list \<Rightarrow> nat \<Rightarrow> ulong list" where
  "bitmap_fill dst nbits =
     (let nlongs = BITS_TO_LONGS nbits
      in (mem_write dst 0 (replicate (nlongs - 1) (NOT 0)))[nlongs - 1 := BITMAP_LAST_WORD_MASK nbits])"

definition bitmap_copy :: "ulong list \<Rightarrow> ulong list \<Rightarrow> nat \<Rightarrow> ulong list" where
  "bitmap_copy dst src nbits = mem_write dst 0 (mem_read src 0 (BITS_TO_LONGS nbits))"

text \<open>
  The predicates scan the whole words and return early; the bits of the last, partial word
  are compared under the mask.
\<close>

definition u_bitmap_empty :: "ulong list \<Rightarrow> nat \<Rightarrow> bool" where
  "u_bitmap_empty bitmap bits =
     (let lim = bits div BITS_PER_LONG
      in list_all (\<lambda>k. bitmap ! k = 0) [0..<lim]
         \<and> (bits mod BITS_PER_LONG \<noteq> 0 \<longrightarrow> bitmap ! lim AND BITMAP_LAST_WORD_MASK bits = 0))"

definition u_bitmap_full :: "ulong list \<Rightarrow> nat \<Rightarrow> bool" where
  "u_bitmap_full bitmap bits =
     (let lim = bits div BITS_PER_LONG
      in list_all (\<lambda>k. NOT (bitmap ! k) = 0) [0..<lim]
         \<and> (bits mod BITS_PER_LONG \<noteq> 0 \<longrightarrow> NOT (bitmap ! lim) AND BITMAP_LAST_WORD_MASK bits = 0))"

definition u_bitmap_equal :: "ulong list \<Rightarrow> ulong list \<Rightarrow> nat \<Rightarrow> bool" where
  "u_bitmap_equal bitmap1 bitmap2 bits =
     (let lim = bits div BITS_PER_LONG
      in list_all (\<lambda>k. bitmap1 ! k = bitmap2 ! k) [0..<lim]
         \<and> (bits mod BITS_PER_LONG \<noteq> 0 \<longrightarrow>
              (bitmap1 ! lim XOR bitmap2 ! lim) AND BITMAP_LAST_WORD_MASK bits = 0))"

definition u_bitmap_intersects :: "ulong list \<Rightarrow> ulong list \<Rightarrow> nat \<Rightarrow> bool" where
  "u_bitmap_intersects bitmap1 bitmap2 bits =
     (let lim = bits div BITS_PER_LONG
      in list_ex (\<lambda>k. bitmap1 ! k AND bitmap2 ! k \<noteq> 0) [0..<lim]
         \<or> (bits mod BITS_PER_LONG \<noteq> 0
              \<and> (bitmap1 ! lim AND bitmap2 ! lim) AND BITMAP_LAST_WORD_MASK bits \<noteq> 0))"

definition u_bitmap_subset :: "ulong list \<Rightarrow> ulong list \<Rightarrow> nat \<Rightarrow> bool" where
  "u_bitmap_subset bitmap1 bitmap2 bits =
     (let lim = bits div BITS_PER_LONG
      in list_all (\<lambda>k. bitmap1 ! k AND NOT (bitmap2 ! k) = 0) [0..<lim]
         \<and> (bits mod BITS_PER_LONG \<noteq> 0 \<longrightarrow>
              (bitmap1 ! lim AND NOT (bitmap2 ! lim)) AND BITMAP_LAST_WORD_MASK bits = 0))"

definition u_bitmap_weight :: "ulong list \<Rightarrow> nat \<Rightarrow> nat" where
  "u_bitmap_weight bitmap bits =
     (let lim = bits div BITS_PER_LONG;
          w = for_range 0 lim (\<lambda>k w. w + unat (hweight_long (bitmap ! k))) 0
      in if bits mod BITS_PER_LONG \<noteq> 0
         then w + unat (hweight_long (bitmap ! lim AND BITMAP_LAST_WORD_MASK bits)) else w)"

definition u_bitmap_complement :: "ulong list \<Rightarrow> ulong list \<Rightarrow> nat \<Rightarrow> ulong list" where
  "u_bitmap_complement dst src bits =
     (let lim = bits div BITS_PER_LONG;
          dst = for_range 0 lim (\<lambda>k dst. dst[k := NOT (src ! k)]) dst
      in if bits mod BITS_PER_LONG \<noteq> 0
         then dst[lim := NOT (src ! lim) AND BITMAP_LAST_WORD_MASK bits] else dst)"

definition u_bitmap_and :: "ulong list \<Rightarrow> ulong list \<Rightarrow> ulong list \<Rightarrow> nat \<Rightarrow> ulong list" where
  "u_bitmap_and dst bitmap1 bitmap2 bits =
     for_range 0 (BITS_TO_LONGS bits) (\<lambda>k dst. dst[k := bitmap1 ! k AND bitmap2 ! k]) dst"

definition u_bitmap_or :: "ulong list \<Rightarrow> ulong list \<Rightarrow> ulong list \<Rightarrow> nat \<Rightarrow> ulong list" where
  "u_bitmap_or dst bitmap1 bitmap2 bits =
     for_range 0 (BITS_TO_LONGS bits) (\<lambda>k dst. dst[k := bitmap1 ! k OR bitmap2 ! k]) dst"

definition u_bitmap_xor :: "ulong list \<Rightarrow> ulong list \<Rightarrow> ulong list \<Rightarrow> nat \<Rightarrow> ulong list" where
  "u_bitmap_xor dst bitmap1 bitmap2 bits =
     for_range 0 (BITS_TO_LONGS bits) (\<lambda>k dst. dst[k := bitmap1 ! k XOR bitmap2 ! k]) dst"

definition u_bitmap_andnot :: "ulong list \<Rightarrow> ulong list \<Rightarrow> ulong list \<Rightarrow> nat \<Rightarrow> ulong list" where
  "u_bitmap_andnot dst bitmap1 bitmap2 bits =
     for_range 0 (BITS_TO_LONGS bits) (\<lambda>k dst. dst[k := bitmap1 ! k AND NOT (bitmap2 ! k)]) dst"

section \<open>Shifts\<close>

text \<open>
  One word of the result of a shift, from the words of the source; the loops store it. The
  left shift runs downwards, so that it may work in place: \<open>bitmap_shift_left_inplace\<close> is
  the call with \<open>dst == src\<close> that \<open>__bitmap_parse\<close> makes.
\<close>

definition bitmap_shift_right_word :: "ulong list \<Rightarrow> nat \<Rightarrow> nat \<Rightarrow> nat \<Rightarrow> nat \<Rightarrow> nat \<Rightarrow> ulong" where
  "bitmap_shift_right_word src lim left off rem k =
     (let m = push_bit left 1 - 1;
          upper = (if rem = 0 \<or> off + k + 1 \<ge> lim then 0
                   else let upper = src ! (off + k + 1)
                        in if off + k + 1 = lim - 1 \<and> left \<noteq> 0 then upper AND m else upper);
          lower = src ! (off + k);
          lower = (if left \<noteq> 0 \<and> off + k = lim - 1 then lower AND m else lower);
          w = push_bit (BITS_PER_LONG - rem) upper OR drop_bit rem lower
      in if left \<noteq> 0 \<and> k = lim - 1 then w AND m else w)"

definition u_bitmap_shift_right :: "ulong list \<Rightarrow> ulong list \<Rightarrow> nat \<Rightarrow> nat \<Rightarrow> ulong list" where
  "u_bitmap_shift_right dst src shift bits =
     (let lim = BITS_TO_LONGS bits; left = bits mod BITS_PER_LONG;
          off = shift div BITS_PER_LONG; rem = shift mod BITS_PER_LONG;
          dst = for_range 0 (lim - off) (\<lambda>k dst. dst[k := bitmap_shift_right_word src lim left off rem k]) dst
      in if off \<noteq> 0 then mem_write dst (lim - off) (replicate off 0) else dst)"

definition bitmap_shift_left_word :: "ulong list \<Rightarrow> nat \<Rightarrow> nat \<Rightarrow> nat \<Rightarrow> nat \<Rightarrow> nat \<Rightarrow> ulong" where
  "bitmap_shift_left_word src lim left off rem k =
     (let lower = (if rem \<noteq> 0 \<and> k > 0 then src ! (k - 1) else 0);
          upper = src ! k;
          upper = (if left \<noteq> 0 \<and> k = lim - 1 then upper AND (push_bit left 1 - 1) else upper);
          w = drop_bit (BITS_PER_LONG - rem) lower OR push_bit rem upper
      in if left \<noteq> 0 \<and> k + off = lim - 1 then w AND (push_bit left 1 - 1) else w)"

definition u_bitmap_shift_left :: "ulong list \<Rightarrow> ulong list \<Rightarrow> nat \<Rightarrow> nat \<Rightarrow> ulong list" where
  "u_bitmap_shift_left dst src shift bits =
     (let lim = BITS_TO_LONGS bits; left = bits mod BITS_PER_LONG;
          off = shift div BITS_PER_LONG; rem = shift mod BITS_PER_LONG;
          dst = for_down (lim - off) (\<lambda>k dst. dst[k + off := bitmap_shift_left_word src lim left off rem k]) dst
      in if off \<noteq> 0 then mem_write dst 0 (replicate off 0) else dst)"

definition u_bitmap_shift_left_inplace :: "ulong list \<Rightarrow> nat \<Rightarrow> nat \<Rightarrow> ulong list" where
  "u_bitmap_shift_left_inplace dst shift bits =
     (let lim = BITS_TO_LONGS bits; left = bits mod BITS_PER_LONG;
          off = shift div BITS_PER_LONG; rem = shift mod BITS_PER_LONG;
          dst = for_down (lim - off) (\<lambda>k dst. dst[k + off := bitmap_shift_left_word dst lim left off rem k]) dst
      in if off \<noteq> 0 then mem_write dst 0 (replicate off 0) else dst)"

text \<open>On the little-endian target \<open>cpu_to_le32\<close> is the identity.\<close>

definition bitmap_copy_le :: "ulong list \<Rightarrow> ulong list \<Rightarrow> nat \<Rightarrow> ulong list" where
  "bitmap_copy_le dst src nbits = for_range 0 (nbits div BITS_PER_LONG) (\<lambda>i d. d[i := src ! i]) dst"

section \<open>Bitmaps as sets\<close>

text \<open>The valid positions that are set, and an array with room for \<open>n\<close> bits.\<close>

definition bmset :: "ulong list \<Rightarrow> nat \<Rightarrow> nat set" where
  "bmset b n = {i. i < n \<and> test_bit i b}"

definition bm_room :: "ulong list \<Rightarrow> nat \<Rightarrow> bool" where
  "bm_room b n \<longleftrightarrow> BITS_TO_LONGS n \<le> length b"

lemma finite_bmset [simp]: "finite (bmset b n)"
  by (simp add: bmset_def)

lemma BITS_TO_LONGS_eq: "BITS_TO_LONGS n = n div 32 + (if n mod 32 \<noteq> 0 then 1 else 0)"
proof -
  obtain a r where n: "n = 32 * a + r" "r < 32" by (metis mod_less_divisor mult_div_mod_eq zero_less_numeral)
  then have nd: "n div 32 = a" "n mod 32 = r" by simp_all
  show ?thesis
  proof (cases r)
    case 0
    then show ?thesis using n by (simp add: BITS_TO_LONGS_def)
  next
    case (Suc m)
    then have "n + 32 - 1 = 32 * (a + 1) + m" using n by simp
    moreover have "(32 * (a + 1) + m) div 32 = a + 1" using Suc n(2) by simp
    ultimately show ?thesis using Suc by (simp only: BITS_TO_LONGS_def nd) simp
  qed
qed

lemma word_index_less: "i < n \<Longrightarrow> i div 32 < BITS_TO_LONGS n"
proof -
  assume i: "i < n"
  then have "i div 32 \<le> n div 32" by (simp add: div_le_mono)
  moreover have "i div 32 < n div 32" if "n mod 32 = 0"
    using i that by (metis div_less_iff_less_mult mod_0_imp_dvd dvd_div_mult_self zero_less_numeral)
  ultimately show ?thesis by (auto simp: BITS_TO_LONGS_eq)
qed

lemma bm_room_word: "bm_room b n \<Longrightarrow> i < n \<Longrightarrow> i div 32 < length b"
  using word_index_less [of i n] by (simp add: bm_room_def)

lemma bm_room_bit: "bm_room b n \<Longrightarrow> i < n \<Longrightarrow> i < 32 * length b"
  using bm_room_word [of b n i] by (simp add: div_less_iff_less_mult mult.commute)

text \<open>A position is valid when its word is one of the first and, in the last, its bit is.\<close>

lemma valid_pos:
  assumes "q < 32"
  shows "32 * w + q < n \<longleftrightarrow> w < BITS_TO_LONGS n \<and> (w = BITS_TO_LONGS n - 1 \<and> n mod 32 \<noteq> 0 \<longrightarrow> q < n mod 32)"
proof -
  obtain a r where n: "n = 32 * a + r" "r < 32" by (metis mod_less_divisor mult_div_mod_eq zero_less_numeral)
  then have r: "n mod 32 = r" "n div 32 = a" by simp_all
  show ?thesis
    unfolding BITS_TO_LONGS_eq r using assms n by (cases "r = 0") auto
qed

lemma bit_last_word_mask:
  "n mod 32 \<noteq> 0 \<Longrightarrow> bit (BITMAP_LAST_WORD_MASK n) i \<longleftrightarrow> i < n mod 32"
proof -
  assume n: "n mod 32 \<noteq> 0"
  then have "BITMAP_LAST_WORD_MASK n = mask (n mod 32)"
    by (simp add: BITMAP_LAST_WORD_MASK_def mask_eq_exp_minus_1 push_bit_eq_mult)
  moreover have "n mod 32 < 32" by simp
  ultimately show ?thesis by (auto simp: bit_simps)
qed

text \<open>The shape all predicates share: whole words are zero, and the last one under its mask.\<close>

lemma masked_words_zero:
  fixes f :: "nat \<Rightarrow> ulong"
  shows "(\<forall>k < n div 32. f k = 0) \<and> (n mod 32 \<noteq> 0 \<longrightarrow> f (n div 32) AND BITMAP_LAST_WORD_MASK n = 0)
    \<longleftrightarrow> (\<forall>i < n. \<not> bit (f (i div 32)) (i mod 32))"
proof (intro iffI conjI allI impI)
  fix i
  assume *: "(\<forall>k < n div 32. f k = 0) \<and> (n mod 32 \<noteq> 0 \<longrightarrow> f (n div 32) AND BITMAP_LAST_WORD_MASK n = 0)"
    and i: "i < n"
  show "\<not> bit (f (i div 32)) (i mod 32)"
  proof (cases "i div 32 < n div 32")
    case True
    then show ?thesis using * by simp
  next
    case False
    then have d: "i div 32 = n div 32" using i div_le_mono [of i n 32] by simp
    then have "i mod 32 < n mod 32" using i by (metis div_mult_mod_eq nat_add_left_cancel_less)
    moreover from this have "f (n div 32) AND BITMAP_LAST_WORD_MASK n = 0" using * by simp
    ultimately show ?thesis
      using d bit_last_word_mask [of n "i mod 32"] bit_and_iff [of "f (n div 32)" "BITMAP_LAST_WORD_MASK n" "i mod 32"]
      by auto
  qed
next
  fix k assume *: "\<forall>i < n. \<not> bit (f (i div 32)) (i mod 32)" and k: "k < n div 32"
  show "f k = 0"
  proof (rule bit_word_eqI)
    fix j assume "j < LENGTH(32)"
    then have "32 * k + j < n" "(32 * k + j) div 32 = k" "(32 * k + j) mod 32 = j" using k by auto
    then show "bit (f k) j = bit (0::ulong) j" using * by (metis bit_0_eq bot_apply bot_bool_def)
  qed
next
  assume *: "\<forall>i < n. \<not> bit (f (i div 32)) (i mod 32)" and n: "n mod 32 \<noteq> 0"
  have "\<not> bit (f (n div 32)) j" if "j < n mod 32" for j
  proof -
    have j: "j < 32" using that mod_less_divisor [of 32 n] by linarith
    then have "32 * (n div 32) + j < n" using that by (metis mult_div_mod_eq nat_add_left_cancel_less)
    moreover have "(32 * (n div 32) + j) div 32 = n div 32" "(32 * (n div 32) + j) mod 32 = j" using j by simp_all
    ultimately show ?thesis using * by metis
  qed
  then show "f (n div 32) AND BITMAP_LAST_WORD_MASK n = 0"
    by (intro bit_word_eqI) (auto simp: bit_and_iff bit_last_word_mask [OF n])
qed

lemma u_bitmap_empty_eq: "u_bitmap_empty b n \<longleftrightarrow> bmset b n = {}"
  using masked_words_zero [of n "(!) b"]
  by (auto simp: u_bitmap_empty_def Let_def list_all_iff bmset_def test_bit_eq)

lemma u_bitmap_full_eq: "u_bitmap_full b n \<longleftrightarrow> bmset b n = {..<n}"
  using masked_words_zero [of n "\<lambda>k. NOT (b ! k)"]
  by (auto simp: u_bitmap_full_def Let_def list_all_iff bmset_def test_bit_eq bit_not_iff)

lemma xor_eq_0_iff: "a XOR b = 0 \<longleftrightarrow> a = b" for a b :: "'a::len word"
  by (metis xor.assoc xor.left_neutral xor.right_neutral xor_self_eq)

lemma u_bitmap_equal_eq: "u_bitmap_equal a b n \<longleftrightarrow> bmset a n = bmset b n"
  using masked_words_zero [of n "\<lambda>k. a ! k XOR b ! k"]
  by (auto simp: u_bitmap_equal_def Let_def list_all_iff bmset_def test_bit_eq bit_xor_iff set_eq_iff
      xor_eq_0_iff)

lemma u_bitmap_intersects_eq: "u_bitmap_intersects a b n \<longleftrightarrow> bmset a n \<inter> bmset b n \<noteq> {}"
  using masked_words_zero [of n "\<lambda>k. a ! k AND b ! k"]
  by (auto simp: u_bitmap_intersects_def Let_def list_ex_iff bmset_def test_bit_eq bit_and_iff)

lemma u_bitmap_subset_eq: "u_bitmap_subset a b n \<longleftrightarrow> bmset a n \<subseteq> bmset b n"
  using masked_words_zero [of n "\<lambda>k. a ! k AND NOT (b ! k)"]
  by (auto simp: u_bitmap_subset_def Let_def list_all_iff bmset_def test_bit_eq bit_and_iff bit_not_iff)

subsection \<open>Weight\<close>

lemma card_bmset_word:
  assumes "r \<le> 32"
  shows "card (bmset b (32 * k + r)) = card (bmset b (32 * k)) + card {j. j < r \<and> bit (b ! k) j}"
proof -
  have "bmset b (32 * k + r) = bmset b (32 * k) \<union> (+) (32 * k) ` {j. j < r \<and> bit (b ! k) j}"
  proof (intro equalityI subsetI)
    fix i assume i: "i \<in> bmset b (32 * k + r)"
    show "i \<in> bmset b (32 * k) \<union> (+) (32 * k) ` {j. j < r \<and> bit (b ! k) j}"
    proof (cases "i < 32 * k")
      case True
      then show ?thesis using i by (simp add: bmset_def)
    next
      case False
      then obtain j where "i = 32 * k + j" "j < r" using i by (auto simp: bmset_def le_iff_add not_less)
      then show ?thesis using i assms by (auto simp: bmset_def test_bit_word)
    qed
  qed (use assms in \<open>auto simp: bmset_def test_bit_word\<close>)
  moreover have "bmset b (32 * k) \<inter> (+) (32 * k) ` {j. j < r \<and> bit (b ! k) j} = {}"
    by (auto simp: bmset_def)
  ultimately show ?thesis by (simp add: card_Un_disjoint card_image)
qed

lemma bits_below_32: "{j. j < 32 \<and> bit w j} = {j. bit w j}" for w :: ulong
  using bit_imp_le_length by fastforce

lemma bitmap_weight_words:
  "for_range 0 k (\<lambda>k w. w + unat (hweight_long (b ! k))) 0 = card (bmset b (32 * k))"
proof (induction k)
  case 0
  then show ?case by (simp add: bmset_def)
next
  case (Suc k)
  then show ?case
    using card_bmset_word [of 32 b k] by (simp add: hweight_long_eq bits_below_32 add.commute)
qed

lemma u_bitmap_weight_eq: "u_bitmap_weight b n = card (bmset b n)"
proof -
  have "card {j. bit (b ! (n div 32) AND BITMAP_LAST_WORD_MASK n) j} = card {j. j < n mod 32 \<and> bit (b ! (n div 32)) j}"
    if "n mod 32 \<noteq> 0"
    using that by (intro arg_cong [where f = card]) (auto simp: bit_and_iff bit_last_word_mask)
  then show ?thesis
    using card_bmset_word [of "n mod 32" b "n div 32"] bitmap_weight_words [of "n div 32" b]
    by (cases "n mod 32 = 0") (auto simp: u_bitmap_weight_def Let_def hweight_long_eq)
qed

subsection \<open>Word-wise stores\<close>

lemma bmset_words:
  assumes "\<And>k. k < BITS_TO_LONGS n \<Longrightarrow> b ! k = f k"
  shows "bmset b n = {i. i < n \<and> bit (f (i div 32)) (i mod 32)}"
  using assms word_index_less by (auto simp: bmset_def test_bit_eq)

lemma nth_store_words:
  "bm_room dst n \<Longrightarrow> k < BITS_TO_LONGS n \<Longrightarrow>
   for_range 0 (BITS_TO_LONGS n) (\<lambda>k dst. dst[k := f k]) dst ! k = f k"
  by (simp add: nth_for_range_store bm_room_def)

lemma bmset_store_words:
  "bm_room dst n \<Longrightarrow> bmset (for_range 0 (BITS_TO_LONGS n) (\<lambda>k dst. dst[k := f k]) dst) n
     = {i. i < n \<and> bit (f (i div 32)) (i mod 32)}"
  by (rule bmset_words) (rule nth_store_words)

lemma bmset_logic:
  assumes "bm_room dst n"
  shows "bmset (u_bitmap_and dst a b n) n = bmset a n \<inter> bmset b n"
    and "bmset (u_bitmap_or dst a b n) n = bmset a n \<union> bmset b n"
    and "bmset (u_bitmap_xor dst a b n) n = (bmset a n - bmset b n) \<union> (bmset b n - bmset a n)"
    and "bmset (u_bitmap_andnot dst a b n) n = bmset a n - bmset b n"
  unfolding u_bitmap_and_def u_bitmap_or_def u_bitmap_xor_def u_bitmap_andnot_def
  by (simp_all add: bmset_store_words [OF assms])
     (auto simp: bmset_def test_bit_eq bit_and_iff bit_or_iff bit_xor_iff bit_not_iff)

lemma bmset_complement:
  assumes "bm_room dst n"
  shows "bmset (u_bitmap_complement dst src n) n = {..<n} - bmset src n"
proof -
  let ?f = "\<lambda>k. if k < n div 32 then NOT (src ! k) else NOT (src ! k) AND BITMAP_LAST_WORD_MASK n"
  have "u_bitmap_complement dst src n ! k = ?f k" if "k < BITS_TO_LONGS n" for k
    using that assms
    by (auto simp: u_bitmap_complement_def Let_def bm_room_def BITS_TO_LONGS_eq nth_list_update
        nth_for_range_store less_Suc_eq)
  then have w: "bmset (u_bitmap_complement dst src n) n = {i. i < n \<and> bit (?f (i div 32)) (i mod 32)}"
    by (rule bmset_words)
  have last: "bit (BITMAP_LAST_WORD_MASK n) (i mod 32)" if "i < n" "\<not> i div 32 < n div 32" for i
  proof -
    have "i div 32 = n div 32" using that div_le_mono [of i n 32] by simp
    then have "i mod 32 < n mod 32" using that by (metis div_mult_mod_eq nat_add_left_cancel_less)
    then show ?thesis by (simp add: bit_last_word_mask)
  qed
  show ?thesis
    unfolding w by (auto simp: bmset_def test_bit_eq bit_not_iff bit_and_iff last)
qed

lemma length_store_words [simp]: "length (for_range 0 m (\<lambda>k dst. dst[k := f k]) dst) = length dst"
  by simp

lemma bmset_zero: "bm_room dst n \<Longrightarrow> bmset (bitmap_zero dst n) n = {}"
  by (auto simp: bmset_words [of n _ "\<lambda>_. 0"] bitmap_zero_def nth_mem_write bm_room_def)

lemma length_bitmap_zero [simp]: "bm_room dst n \<Longrightarrow> length (bitmap_zero dst n) = length dst"
  by (simp add: bitmap_zero_def bm_room_def)

lemma bmset_copy: "bm_room dst n \<Longrightarrow> bm_room src n \<Longrightarrow> bmset (bitmap_copy dst src n) n = bmset src n"
  by (subst bmset_words [of n _ "(!) src"])
     (auto simp: bmset_def test_bit_eq bitmap_copy_def nth_mem_write nth_mem_read bm_room_def)

lemma bmset_fill:
  assumes "bm_room dst n" and "0 < n"
  shows "bmset (bitmap_fill dst n) n = {..<n}"
proof -
  let ?f = "\<lambda>k. if k < BITS_TO_LONGS n - 1 then NOT 0 else BITMAP_LAST_WORD_MASK n"
  have "bitmap_fill dst n ! k = ?f k" if "k < BITS_TO_LONGS n" for k
    using that assms
    by (auto simp: bitmap_fill_def Let_def bm_room_def nth_list_update nth_mem_write)
  then have w: "bmset (bitmap_fill dst n) n = {i. i < n \<and> bit (?f (i div 32)) (i mod 32)}"
    by (rule bmset_words)
  have "bit (?f (i div 32)) (i mod 32)" if "i < n" for i
  proof (cases "i div 32 < BITS_TO_LONGS n - 1")
    case True
    then show ?thesis by simp
  next
    case False
    then have "i div 32 = BITS_TO_LONGS n - 1" using word_index_less [OF that] by simp
    then have "n mod 32 = 0 \<or> i mod 32 < n mod 32"
      using valid_pos [of "i mod 32" "i div 32" n, unfolded mult_div_mod_eq] that by auto
    then show ?thesis
      using False by (cases "n mod 32 = 0") (auto simp: bit_last_word_mask, simp add: BITMAP_LAST_WORD_MASK_def)
  qed
  then show ?thesis unfolding w lessThan_def by blast
qed

subsection \<open>Shifts\<close>

text \<open>
  Masking a source word with the bits left over in the last word is a test for a valid
  position; both shifts are written with it.
\<close>

definition valid_word :: "nat \<Rightarrow> nat \<Rightarrow> ulong \<Rightarrow> ulong" where
  "valid_word n w v =
     (if n mod 32 \<noteq> 0 \<and> w = BITS_TO_LONGS n - 1 then v AND (push_bit (n mod 32) 1 - 1) else v)"

lemma bit_valid_word:
  assumes "q < 32" and "w < BITS_TO_LONGS n"
  shows "bit (valid_word n w v) q \<longleftrightarrow> bit v q \<and> 32 * w + q < n"
proof -
  have "n mod 32 < 32" by simp
  then have "bit (push_bit (n mod 32) (1::ulong) - 1) q \<longleftrightarrow> q < n mod 32"
    by (auto simp: push_bit_eq_mult bit_simps simp flip: mask_eq_exp_minus_1)
  then show ?thesis
    unfolding valid_word_def using valid_pos [OF assms(1), of w n] assms(2) by (simp only: bit_and_iff split: if_split) blast
qed

lemma shift_right_word_valid:
  "bitmap_shift_right_word src (BITS_TO_LONGS n) (n mod 32) off rem k
   = valid_word n k (push_bit (32 - rem)
        (if rem = 0 \<or> BITS_TO_LONGS n \<le> off + k + 1 then 0 else valid_word n (off + k + 1) (src ! (off + k + 1)))
      OR drop_bit rem (valid_word n (off + k) (src ! (off + k))))"
  unfolding bitmap_shift_right_word_def valid_word_def Let_def by (simp only: conj_commute split: if_split)

lemma shift_left_word_valid:
  "bitmap_shift_left_word src (BITS_TO_LONGS n) (n mod 32) off rem k
   = valid_word n (k + off) (drop_bit (32 - rem) (if rem \<noteq> 0 \<and> k > 0 then src ! (k - 1) else 0)
      OR push_bit rem (valid_word n k (src ! k)))"
  unfolding bitmap_shift_left_word_def valid_word_def Let_def ..

lemma div_mod_sum: "32 * (a div 32 + b div 32) + a mod 32 + b mod 32 = a + (b::nat)"
proof -
  have "32 * (a div 32 + b div 32) + a mod 32 + b mod 32
      = (32 * (a div 32) + a mod 32) + (32 * (b div 32) + b mod 32)"
    by (simp only: distrib_left ac_simps)
  then show ?thesis by (simp only: mult_div_mod_eq)
qed

lemma bit_shift_right_word:
  assumes q: "q < 32" and k: "off + k < BITS_TO_LONGS n" and rem: "rem < 32" and v: "32 * k + q < n"
  shows "bit (bitmap_shift_right_word src (BITS_TO_LONGS n) (n mod 32) off rem k) q
    \<longleftrightarrow> 32 * (off + k) + rem + q < n \<and> test_bit (32 * (off + k) + rem + q) src"
proof -
  define upper where "upper = (if rem = 0 \<or> BITS_TO_LONGS n \<le> off + k + 1 then 0
    else valid_word n (off + k + 1) (src ! (off + k + 1)))"
  define lower where "lower = valid_word n (off + k) (src ! (off + k))"
  have lower: "bit lower j \<longleftrightarrow> bit (src ! (off + k)) j \<and> 32 * (off + k) + j < n" if "j < 32" for j
    unfolding lower_def using that k by (rule bit_valid_word)
  have upper: "bit upper j \<longleftrightarrow> rem \<noteq> 0 \<and> bit (src ! (off + k + 1)) j \<and> 32 * (off + k + 1) + j < n" if "j < 32" for j
  proof (cases "off + k + 1 < BITS_TO_LONGS n")
    case True
    then show ?thesis unfolding upper_def using bit_valid_word [OF that True, of "src ! (off + k + 1)"] by simp
  next
    case False
    then have "\<not> 32 * (off + k + 1) + j < n" using valid_pos [OF that, of "off + k + 1" n] by simp
    then show ?thesis using False by (simp add: upper_def)
  qed
  have "bit (bitmap_shift_right_word src (BITS_TO_LONGS n) (n mod 32) off rem k) q
      \<longleftrightarrow> bit (push_bit (32 - rem) upper OR drop_bit rem lower) q"
    unfolding shift_right_word_valid upper_def [symmetric] lower_def [symmetric]
    using bit_valid_word [OF q, of k n] k v by simp
  also have "\<dots> \<longleftrightarrow> 32 * (off + k) + rem + q < n \<and> test_bit (32 * (off + k) + rem + q) src"
  proof (cases "q + rem < 32")
    case True
    then have "test_bit (32 * (off + k) + (rem + q)) src = bit (src ! (off + k)) (rem + q)"
      by (intro test_bit_word) simp
    then show ?thesis
      using True lower [of "rem + q"] bit_imp_le_length [of lower "rem + q"]
      by (auto simp: bit_simps add.assoc)
  next
    case False
    define j where "j = rem + q - 32"
    have j: "rem + q = 32 + j" "j < 32" "j = q - (32 - rem)" "32 - rem \<le> q" "rem \<noteq> 0"
      using False q rem by (auto simp: j_def)
    have "test_bit (32 * (off + k + 1) + j) src = bit (src ! (off + k + 1)) j"
      using j(2) by (rule test_bit_word)
    moreover have "\<not> bit lower (rem + q)" using j bit_imp_le_length [of lower "rem + q"] by auto
    moreover have "32 * (off + k) + rem + q = 32 * (off + k + 1) + j" using j(1) by simp
    moreover have "bit (push_bit (32 - rem) upper OR drop_bit rem lower) q \<longleftrightarrow> bit upper j \<or> bit lower (rem + q)"
      using j(3,4) q by (simp add: bit_or_iff bit_push_bit_iff bit_drop_bit_eq)
    ultimately show ?thesis
      using upper [OF j(2)] j(5) by (simp only:) blast
  qed
  finally show ?thesis .
qed

lemma bmset_shift_right:
  assumes room: "bm_room dst n" and off: "shift div 32 \<le> BITS_TO_LONGS n"
  shows "bmset (u_bitmap_shift_right dst src shift n) n = {i. i + shift \<in> bmset src n}"
proof -
  let ?lim = "BITS_TO_LONGS n" and ?off = "shift div 32" and ?rem = "shift mod 32"
  let ?f = "\<lambda>k. if k < ?lim - ?off then bitmap_shift_right_word src ?lim (n mod 32) ?off ?rem k else 0"
  have "u_bitmap_shift_right dst src shift n ! k = ?f k" if "k < ?lim" for k
    using that assms
    by (auto simp: u_bitmap_shift_right_def Let_def nth_mem_write nth_for_range_store bm_room_def)
  then have w: "bmset (u_bitmap_shift_right dst src shift n) n = {i. i < n \<and> bit (?f (i div 32)) (i mod 32)}"
    by (rule bmset_words)
  have "i < n \<and> bit (?f (i div 32)) (i mod 32) \<longleftrightarrow> i + shift < n \<and> test_bit (i + shift) src" for i
  proof -
    let ?k = "i div 32" and ?q = "i mod 32"
    have i: "32 * (?off + ?k) + ?rem + ?q = i + shift"
      using div_mod_sum [of shift i] by (simp only: add.commute)
    show ?thesis
    proof (cases "?k < ?lim - ?off")
      case True
      then show ?thesis
        using bit_shift_right_word [of ?q ?off ?k n ?rem src] i by (auto simp: less_diff_conv add.commute)
    next
      case False
      then have "n \<le> 32 * (?off + ?k)"
        using off valid_pos [of 0 "?off + ?k" n] by auto
      then have "\<not> i + shift < n" using i by linarith
      then show ?thesis using False by simp
    qed
  qed
  then show ?thesis unfolding w by (auto simp: bmset_def)
qed

lemma nth_for_down_store:
  "i < length d \<Longrightarrow> for_down m (\<lambda>k d. d[k + off := f k]) d ! i
     = (if off \<le> i \<and> i < off + m then f (i - off) else d ! i)"
proof (induction m arbitrary: d)
  case (Suc m)
  then show ?case by (cases "i = m + off") auto
qed auto

lemma length_for_down:
  "(\<And>k d. length (body k d) = length d) \<Longrightarrow> length (for_down m body d) = length d"
  by (induction m arbitrary: d) simp_all

lemma bit_shift_left_word:
  assumes q: "q < 32" and k: "k + off < BITS_TO_LONGS n" and rem: "rem < 32" and v: "32 * (k + off) + q < n"
  shows "bit (bitmap_shift_left_word src (BITS_TO_LONGS n) (n mod 32) off rem k) q
    \<longleftrightarrow> rem \<le> 32 * k + q \<and> test_bit (32 * k + q - rem) src"
proof -
  define lower where "lower = (if rem \<noteq> 0 \<and> k > 0 then src ! (k - 1) else 0)"
  define upper where "upper = valid_word n k (src ! k)"
  have upper: "bit upper j \<longleftrightarrow> bit (src ! k) j \<and> 32 * k + j < n" if "j < 32" for j
    unfolding upper_def using that k by (intro bit_valid_word) simp_all
  have "bit (bitmap_shift_left_word src (BITS_TO_LONGS n) (n mod 32) off rem k) q
      \<longleftrightarrow> bit (drop_bit (32 - rem) lower OR push_bit rem upper) q"
    unfolding shift_left_word_valid upper_def [symmetric] lower_def [symmetric]
    using bit_valid_word [OF q k] v by simp
  also have "\<dots> \<longleftrightarrow> rem \<le> 32 * k + q \<and> test_bit (32 * k + q - rem) src"
  proof (cases "rem \<le> q")
    case True
    have "test_bit (32 * k + (q - rem)) src = bit (src ! k) (q - rem)"
      using q by (intro test_bit_word) simp
    moreover have e: "32 * k + q - rem = 32 * k + (q - rem)" "rem \<le> 32 * k + q" using True by simp_all
    moreover have "32 * k + (q - rem) < n"
      using v le_less_trans [of "32 * k + (q - rem)" "32 * (k + off) + q" n] by simp
    moreover have "\<not> bit lower (32 - rem + q)" using True rem bit_imp_le_length [of lower "32 - rem + q"] by auto
    moreover have "bit (drop_bit (32 - rem) lower OR push_bit rem upper) q \<longleftrightarrow> bit lower (32 - rem + q) \<or> bit upper (q - rem)"
      using True q by (simp add: bit_or_iff bit_push_bit_iff bit_drop_bit_eq)
    moreover have "bit upper (q - rem) \<longleftrightarrow> bit (src ! k) (q - rem) \<and> 32 * k + (q - rem) < n"
      using q by (intro upper) simp
    ultimately show ?thesis by (simp only: simp_thms)
  next
    case False
    have up: "bit (drop_bit (32 - rem) lower OR push_bit rem upper) q \<longleftrightarrow> bit lower (32 - rem + q)"
      using False by (simp add: bit_or_iff bit_push_bit_iff bit_drop_bit_eq)
    show ?thesis
    proof (cases k)
      case (Suc m)
      have "test_bit (32 * m + (32 - rem + q)) src = bit (src ! m) (32 - rem + q)"
        using False rem by (intro test_bit_word) linarith
      moreover have "32 * k + q - rem = 32 * m + (32 - rem + q)" "rem \<le> 32 * k + q" "lower = src ! m"
        using Suc False rem by (auto simp: lower_def)
      ultimately show ?thesis using up by (simp only: simp_thms)
    next
      case 0
      then show ?thesis using False up by (simp add: lower_def)
    qed
  qed
  finally show ?thesis .
qed

lemma shift_left_words:
  assumes room: "bm_room dst n" and off: "shift div 32 \<le> BITS_TO_LONGS n" and k: "k < BITS_TO_LONGS n"
  shows "u_bitmap_shift_left dst src shift n ! k
    = (if shift div 32 \<le> k then bitmap_shift_left_word src (BITS_TO_LONGS n) (n mod 32) (shift div 32) (shift mod 32) (k - shift div 32)
       else 0)"
  using assms nth_for_down_store [of k dst "BITS_TO_LONGS n" 0 "bitmap_shift_left_word src (BITS_TO_LONGS n) (n mod 32) 0 shift"]
  by (auto simp: u_bitmap_shift_left_def Let_def nth_mem_write nth_for_down_store length_for_down bm_room_def)

lemma word_offset: "x + 32 * w = i \<Longrightarrow> s = 32 * w + r \<Longrightarrow> (r \<le> x \<longleftrightarrow> s \<le> i) \<and> x - r = i - s" for i :: nat
  by auto

lemma bmset_shift_left:
  assumes room: "bm_room dst n" and off: "shift div 32 \<le> BITS_TO_LONGS n"
  shows "bmset (u_bitmap_shift_left dst src shift n) n = {i + shift |i. i \<in> bmset src n \<and> i + shift < n}"
proof -
  let ?lim = "BITS_TO_LONGS n" and ?off = "shift div 32" and ?rem = "shift mod 32"
  let ?f = "\<lambda>k. if ?off \<le> k then bitmap_shift_left_word src ?lim (n mod 32) ?off ?rem (k - ?off) else 0"
  have w: "bmset (u_bitmap_shift_left dst src shift n) n = {i. i < n \<and> bit (?f (i div 32)) (i mod 32)}"
    by (rule bmset_words) (rule shift_left_words [OF assms])
  have "bit (?f (i div 32)) (i mod 32) \<longleftrightarrow> shift \<le> i \<and> test_bit (i - shift) src" if "i < n" for i
  proof -
    let ?k = "i div 32" and ?q = "i mod 32"
    have kl: "?k < ?lim" using word_index_less [OF that] .
    show ?thesis
    proof (cases "?off \<le> ?k")
      case True
      define x where "x = 32 * (?k - ?off) + ?q"
      have "32 * ?k = 32 * (?k - ?off) + 32 * ?off" using True by simp
      then have x: "x + 32 * ?off = i" using mult_div_mod_eq [of 32 i] by (simp add: x_def)
      have "(?rem \<le> x \<longleftrightarrow> shift \<le> i) \<and> x - ?rem = i - shift"
        by (rule word_offset [OF x]) simp
      then show ?thesis
        using bit_shift_left_word [of ?q "?k - ?off" ?off n ?rem src] True kl that by (simp add: x_def)
    next
      case False
      then have "\<not> shift \<le> i" using div_le_mono [of shift i 32] by blast
      then show ?thesis using False by simp
    qed
  qed
  then have "bmset (u_bitmap_shift_left dst src shift n) n = {i. i < n \<and> shift \<le> i \<and> test_bit (i - shift) src}"
    unfolding w by blast
  also have "\<dots> = {i + shift |i. i \<in> bmset src n \<and> i + shift < n}"
    by (auto simp: bmset_def) (metis le_add_diff_inverse2 less_imp_diff_less)
  finally show ?thesis .
qed

text \<open>In place: a step stores at or above the words that later steps read.\<close>

lemma for_down_inplace:
  assumes "\<And>d d' k. (\<And>j. j \<le> k \<Longrightarrow> d ! j = d' ! j) \<Longrightarrow> g d k = g d' k"
    and "\<And>j. j < m \<Longrightarrow> d ! j = src ! j"
  shows "for_down m (\<lambda>k d. d[k + off := g d k]) d = for_down m (\<lambda>k d. d[k + off := g src k]) d"
  using assms(2)
proof (induction m arbitrary: d)
  case (Suc m)
  have "g d m = g src m" using Suc.prems by (intro assms(1)) simp
  moreover have "(d[m + off := g src m]) ! j = src ! j" if "j < m" for j
    using that Suc.prems by simp
  ultimately show ?case using Suc.IH by simp
qed simp

lemma shift_left_inplace_eq:
  "u_bitmap_shift_left_inplace dst shift n = u_bitmap_shift_left dst dst shift n"
proof -
  have "for_down m (\<lambda>k d. d[k + off := bitmap_shift_left_word d lim left off rem k]) dst
      = for_down m (\<lambda>k d. d[k + off := bitmap_shift_left_word dst lim left off rem k]) dst" for m off lim left rem
    by (rule for_down_inplace) (simp_all add: bitmap_shift_left_word_def)
  then show ?thesis by (simp only: u_bitmap_shift_left_inplace_def u_bitmap_shift_left_def Let_def)
qed

end
