(* ===== verification/Bitmap_Regions.thy ===== *)
theory Bitmap_Regions
  imports Bitmap
begin

text \<open>
  The second half of \<open>lib/bitmap.c\<close>: the maps between bit positions and ordinals, the
  remapping operations built on them, and the allocation of aligned regions.
\<close>

section \<open>Positions and ordinals\<close>

text \<open>\<^verbatim>\<open>for (i = find_first_bit(b, n); i < n; i = find_next_bit(b, n, i + 1)) body\<close>\<close>

lemma find_next_bit_progress: "i < n \<Longrightarrow> i < find_next_bit b n (Suc i)"
  using next_index_lower [of "Suc i" n] by (simp add: find_next_bit_eq Suc_le_eq)

function for_each_bit :: "ulong list \<Rightarrow> nat \<Rightarrow> (nat \<Rightarrow> 's \<Rightarrow> 's) \<Rightarrow> nat \<Rightarrow> 's \<Rightarrow> 's" where
  "for_each_bit b n body i s =
     (if i < n then for_each_bit b n body (find_next_bit b n (i + 1)) (body i s) else s)"
  by auto
termination
  by (relation "measure (\<lambda>(b, n, body, i, s). n - i)") (auto intro: diff_less_mono2 find_next_bit_progress)

text \<open>The early return has checked that \<open>pos\<close> is below \<open>bits\<close> when the loop starts.\<close>

function pos_to_ord_loop :: "ulong list \<Rightarrow> nat \<Rightarrow> nat \<Rightarrow> nat \<Rightarrow> nat \<Rightarrow> nat \<times> nat" where
  "pos_to_ord_loop buf bits pos i ord =
     (if i < pos \<and> pos < bits
      then pos_to_ord_loop buf bits pos (find_next_bit buf bits (i + 1)) (ord + 1) else (i, ord))"
  by auto
termination
  by (relation "measure (\<lambda>(buf, bits, pos, i, ord). pos - i)")
     (fastforce intro!: diff_less_mono2 find_next_bit_progress)+

definition bitmap_pos_to_ord :: "ulong list \<Rightarrow> int \<Rightarrow> nat \<Rightarrow> int kres" where
  "bitmap_pos_to_ord buf pos bits =
     (if pos < 0 \<or> pos \<ge> int bits \<or> \<not> test_bit (nat pos) buf then Ok (- 1)
      else let (i, ord) = pos_to_ord_loop buf bits (nat pos) (find_first_bit buf bits) 0
           in if i \<noteq> nat pos then Bug else Ok (int ord))"

function ord_to_pos_loop :: "ulong list \<Rightarrow> nat \<Rightarrow> nat \<Rightarrow> nat \<Rightarrow> nat \<times> nat" where
  "ord_to_pos_loop buf bits i ord =
     (if i < bits \<and> ord > 0 then ord_to_pos_loop buf bits (find_next_bit buf bits (i + 1)) (ord - 1)
      else (i, ord))"
  by auto
termination
  by (relation "measure (\<lambda>(buf, bits, i, ord). ord)") auto

definition bitmap_ord_to_pos :: "ulong list \<Rightarrow> int \<Rightarrow> nat \<Rightarrow> nat" where
  "bitmap_ord_to_pos buf ord bits =
     (if ord \<ge> 0 \<and> ord < int bits
      then let (i, ord) = ord_to_pos_loop buf bits (find_first_bit buf bits) (nat ord)
           in if i < bits \<and> ord = 0 then i else 0
      else 0)"

text \<open>\<open>same\<close> stands for the test \<open>dst == src\<close> of the two pointers.\<close>

definition remap_bit :: "ulong list \<Rightarrow> ulong list \<Rightarrow> nat \<Rightarrow> nat \<Rightarrow> nat \<Rightarrow> ulong list kres \<Rightarrow> ulong list kres" where
  "remap_bit old new bits w oldbit dst =
     (case dst of Ok dst \<Rightarrow>
        (case bitmap_pos_to_ord old (int oldbit) bits of
           Ok n \<Rightarrow> Ok (if n < 0 \<or> w = 0 then u_set_bit oldbit dst
                       else u_set_bit (bitmap_ord_to_pos new (n mod int w) bits) dst)
         | Err e \<Rightarrow> Err e | Bug \<Rightarrow> Bug)
      | r \<Rightarrow> r)"

definition bitmap_remap ::
  "bool \<Rightarrow> ulong list \<Rightarrow> ulong list \<Rightarrow> ulong list \<Rightarrow> ulong list \<Rightarrow> nat \<Rightarrow> ulong list kres" where
  "bitmap_remap same dst src old new bits =
     (if same then Ok dst
      else let dst = bitmap_zero dst bits; w = u_bitmap_weight new bits
           in for_each_bit src bits (remap_bit old new bits w) (find_first_bit src bits) (Ok dst))"

definition bitmap_bitremap :: "int \<Rightarrow> ulong list \<Rightarrow> ulong list \<Rightarrow> nat \<Rightarrow> int kres" where
  "bitmap_bitremap oldbit old new bits =
     (let w = u_bitmap_weight new bits
      in case bitmap_pos_to_ord old oldbit bits of
           Ok n \<Rightarrow> if n < 0 \<or> w = 0 then Ok oldbit else Ok (int (bitmap_ord_to_pos new (n mod int w) bits))
         | r \<Rightarrow> r)"



section \<open>Regions\<close>

datatype reg_op = REG_OP_ISFREE | REG_OP_ALLOC | REG_OP_RELEASE

text \<open>The mask of a region inside each of the words it spans.\<close>

definition reg_op_mask :: "nat \<Rightarrow> nat \<Rightarrow> ulong" where
  "reg_op_mask pos order =
     (let nbits_reg = 2 ^ order;
          index = pos div BITS_PER_LONG;
          offset = pos - index * BITS_PER_LONG;
          nbitsinlong = min nbits_reg BITS_PER_LONG;
          m = push_bit (nbitsinlong - 1) 1;
          m = m + (m - 1)
      in push_bit offset m)"

definition u_reg_op :: "ulong list \<Rightarrow> nat \<Rightarrow> nat \<Rightarrow> reg_op \<Rightarrow> bool \<times> ulong list" where
  "u_reg_op bitmap pos order reg_op =
     (let index = pos div BITS_PER_LONG;
          nlongs_reg = BITS_TO_LONGS (2 ^ order);
          m = reg_op_mask pos order
      in case reg_op of
           REG_OP_ISFREE \<Rightarrow> (list_all (\<lambda>i. bitmap ! (index + i) AND m = 0) [0..<nlongs_reg], bitmap)
         | REG_OP_ALLOC \<Rightarrow>
             (False, for_range 0 nlongs_reg (\<lambda>i b. b[index + i := b ! (index + i) OR m]) bitmap)
         | REG_OP_RELEASE \<Rightarrow>
             (False, for_range 0 nlongs_reg (\<lambda>i b. b[index + i := b ! (index + i) AND NOT m]) bitmap))"

lemma region_step: "pos + 2 ^ order \<le> bits \<Longrightarrow> bits - (pos + 2 ^ order) < bits - pos" for pos :: nat
  using zero_less_power [of "2::nat" order] by linarith

function find_free_region_loop :: "ulong list \<Rightarrow> nat \<Rightarrow> nat \<Rightarrow> nat \<Rightarrow> nat kres \<times> ulong list" where
  "find_free_region_loop bitmap bits order pos =
     (if pos + 2 ^ order \<le> bits
      then if \<not> fst (u_reg_op bitmap pos order REG_OP_ISFREE)
           then find_free_region_loop bitmap bits order (pos + 2 ^ order)
           else (Ok pos, snd (u_reg_op bitmap pos order REG_OP_ALLOC))
      else (Err ENOMEM, bitmap))"
  by auto
termination
  by (relation "measure (\<lambda>(bitmap, bits, order, pos). bits - pos)")
     (auto simp: region_step)


definition bitmap_release_region :: "ulong list \<Rightarrow> nat \<Rightarrow> nat \<Rightarrow> ulong list" where
  "bitmap_release_region bitmap pos order = snd (u_reg_op bitmap pos order REG_OP_RELEASE)"

definition bitmap_allocate_region :: "ulong list \<Rightarrow> nat \<Rightarrow> nat \<Rightarrow> unit kres \<times> ulong list" where
  "bitmap_allocate_region bitmap pos order =
     (if \<not> fst (u_reg_op bitmap pos order REG_OP_ISFREE) then (Err EBUSY, bitmap)
      else (Ok (), snd (u_reg_op bitmap pos order REG_OP_ALLOC)))"

declare for_each_bit.simps [simp del] pos_to_ord_loop.simps [simp del] ord_to_pos_loop.simps [simp del]
  find_free_region_loop.simps [simp del]

section \<open>Set positions in order\<close>

text \<open>The set positions in increasing order, and the loops over them.\<close>

definition set_list :: "ulong list \<Rightarrow> nat \<Rightarrow> nat list" where
  "set_list b n = filter (\<lambda>i. test_bit i b) [0..<n]"

lemma set_set_list [simp]: "set (set_list b n) = bmset b n"
  by (auto simp: set_list_def bmset_def)

lemma length_set_list [simp]: "length (set_list b n) = card (bmset b n)"
  by (metis distinct_card distinct_filter distinct_upt set_list_def set_set_list)

lemma filter_next_index:
  assumes "j \<le> n"
  shows "filter P [j..<n] = (if next_index P n j < n then next_index P n j # filter P [Suc (next_index P n j)..<n] else [])"
proof -
  let ?i = "next_index P n j"
  have b: "j \<le> ?i" "?i \<le> n" using assms by (simp_all add: next_index_lower next_index_le)
  have "filter P [j..<?i] = []" using next_index_skip [of j _ P n] by (simp add: filter_empty_conv)
  moreover have "[j..<n] = [j..<?i] @ [?i..<n]" using b upt_add_eq_append [of j ?i "n - ?i"] by simp
  ultimately have "filter P [j..<n] = filter P [?i..<n]" by simp
  then show ?thesis using next_index_hit [of P n j] b by (auto simp: upt_conv_Cons)
qed

lemma for_each_bit_eq:
  "j \<le> n \<Longrightarrow> for_each_bit b n body (find_next_bit b n j) s = fold body (filter (\<lambda>i. test_bit i b) [j..<n]) s"
proof (induction "n - j" arbitrary: j s rule: less_induct)
  case less
  let ?i = "find_next_bit b n j"
  have i: "?i = next_index (\<lambda>i. test_bit i b) n j" by (simp add: find_next_bit_eq)
  show ?case
  proof (cases "?i < n")
    case True
    have "n - Suc ?i < n - j" using next_index_lower [OF less.prems] True i by (metis diff_less_mono2 le_imp_less_Suc less_trans Suc_lessI lessI less_Suc_eq_le order_le_less_trans)
    then have "for_each_bit b n body (find_next_bit b n (Suc ?i)) (body ?i s)
        = fold body (filter (\<lambda>i. test_bit i b) [Suc ?i..<n]) (body ?i s)"
      using True by (intro less.hyps) simp_all
    then show ?thesis
      using True filter_next_index [OF less.prems, of "\<lambda>i. test_bit i b"] i
      by (simp add: for_each_bit.simps [of b n body "next_index (\<lambda>i. test_bit i b) n j" s])
  next
    case False
    then show ?thesis
      using filter_next_index [OF less.prems, of "\<lambda>i. test_bit i b"] i
      by (simp add: for_each_bit.simps [of b n body "next_index (\<lambda>i. test_bit i b) n j" s])
  qed
qed

lemma find_first_next: "find_first_bit b n = find_next_bit b n 0"
  by (simp add: find_first_bit_eq find_next_bit_eq)

lemma for_each_set_bit: "for_each_bit b n body (find_first_bit b n) s = fold body (set_list b n) s"
  by (simp add: find_first_next for_each_bit_eq set_list_def)

lemma pos_to_ord_loop_eq:
  assumes "pos < n" and "test_bit pos b"
  shows "j \<le> pos \<Longrightarrow> pos_to_ord_loop b n pos (find_next_bit b n j) ord
    = (pos, ord + card {i. j \<le> i \<and> i < pos \<and> test_bit i b})"
proof (induction "pos - j" arbitrary: j ord rule: less_induct)
  case less
  let ?i = "find_next_bit b n j"
  have i: "?i = next_index (\<lambda>i. test_bit i b) n j" by (simp add: find_next_bit_eq)
  have lo: "j \<le> ?i" using i assms(1) less.prems by (simp add: next_index_lower)
  have le: "?i \<le> pos" using next_index_skip [of j pos "\<lambda>i. test_bit i b" n] less.prems assms(2) i by (metis not_le)
  have skip: "\<not> test_bit k b" if "j \<le> k" "k < ?i" for k
    using next_index_skip [of j k "\<lambda>i. test_bit i b" n] that i by simp
  show ?case
  proof (cases "?i < pos")
    case True
    then have hit: "test_bit ?i b" using next_index_hit [of "\<lambda>i. test_bit i b" n j] i assms(1) by simp
    have "{k. j \<le> k \<and> k < pos \<and> test_bit k b} = insert ?i {k. Suc ?i \<le> k \<and> k < pos \<and> test_bit k b}"
      using True hit lo skip by (auto simp: Suc_le_eq) (metis not_less_iff_gr_or_eq)
    then have c: "card {k. j \<le> k \<and> k < pos \<and> test_bit k b} = Suc (card {k. Suc ?i \<le> k \<and> k < pos \<and> test_bit k b})"
      by simp
    have "pos_to_ord_loop b n pos (find_next_bit b n (Suc ?i)) (ord + 1)
        = (pos, ord + 1 + card {k. Suc ?i \<le> k \<and> k < pos \<and> test_bit k b})"
      using True lo less.prems by (intro less.hyps) linarith+
    then show ?thesis using True assms(1) c by (simp add: pos_to_ord_loop.simps [of b n pos ?i])
  next
    case False
    then have "?i = pos" using le by simp
    moreover have "{k. j \<le> k \<and> k < pos \<and> test_bit k b} = {}" using skip \<open>?i = pos\<close> by auto
    ultimately show ?thesis by (simp add: pos_to_ord_loop.simps [of b n pos pos])
  qed
qed

lemma bitmap_pos_to_ord_eq:
  "bitmap_pos_to_ord b pos n
     = Ok (if 0 \<le> pos \<and> nat pos \<in> bmset b n then int (card (bmset b (nat pos))) else - 1)"
proof (cases "0 \<le> pos \<and> nat pos \<in> bmset b n")
  case True
  then have *: "nat pos < n" "test_bit (nat pos) b" by (auto simp: bmset_def)
  have "pos_to_ord_loop b n (nat pos) (find_first_bit b n) 0 = (nat pos, card (bmset b (nat pos)))"
    using pos_to_ord_loop_eq [OF *, of 0 0] by (simp add: find_first_next bmset_def)
  then show ?thesis using True * by (auto simp: bitmap_pos_to_ord_def)
next
  case False
  then show ?thesis by (auto simp: bitmap_pos_to_ord_def bmset_def)
qed

lemma ord_to_pos_loop_eq:
  "j \<le> n \<Longrightarrow> ord < length (filter (\<lambda>i. test_bit i b) [j..<n]) \<Longrightarrow>
   ord_to_pos_loop b n (find_next_bit b n j) ord = (filter (\<lambda>i. test_bit i b) [j..<n] ! ord, 0)"
proof (induction ord arbitrary: j)
  case 0
  then have "next_index (\<lambda>i. test_bit i b) n j < n"
    using filter_next_index [of j n "\<lambda>i. test_bit i b"] by (auto split: if_splits)
  then show ?case using filter_next_index [OF "0.prems"(1), of "\<lambda>i. test_bit i b"]
    by (simp add: ord_to_pos_loop.simps [of b n _ 0] find_next_bit_eq)
next
  case (Suc ord)
  let ?i = "find_next_bit b n j" and ?P = "\<lambda>i. test_bit i b"
  have i: "?i = next_index ?P n j" by (simp add: find_next_bit_eq)
  have lt: "?i < n" using filter_next_index [OF Suc.prems(1), of ?P] Suc.prems(2) i by (auto split: if_splits)
  then have f: "filter ?P [j..<n] = ?i # filter ?P [Suc ?i..<n]"
    using filter_next_index [OF Suc.prems(1), of ?P] i by simp
  have "ord_to_pos_loop b n (find_next_bit b n (Suc ?i)) ord = (filter ?P [Suc ?i..<n] ! ord, 0)"
    using lt Suc.prems(2) f by (intro Suc.IH) simp_all
  then show ?case using lt f by (simp add: ord_to_pos_loop.simps [of b n ?i "Suc ord"])
qed

lemma bitmap_ord_to_pos_eq:
  assumes "ord < card (bmset b n)"
  shows "bitmap_ord_to_pos b (int ord) n = set_list b n ! ord" and "set_list b n ! ord \<in> bmset b n"
proof -
  have "card (bmset b n) \<le> n" using card_mono [of "{..<n}" "bmset b n"] by (auto simp: bmset_def)
  have len: "ord < length (set_list b n)" using assms by simp
  then show mem: "set_list b n ! ord \<in> bmset b n" using nth_mem [of ord "set_list b n"] by simp
  have "ord_to_pos_loop b n (find_first_bit b n) ord = (set_list b n ! ord, 0)"
    using ord_to_pos_loop_eq [of 0 n ord b] len by (simp add: find_first_next set_list_def)
  then show "bitmap_ord_to_pos b (int ord) n = set_list b n ! ord"
    using mem assms \<open>card (bmset b n) \<le> n\<close> by (auto simp: bitmap_ord_to_pos_def bmset_def)
qed

section \<open>Remapping\<close>

text \<open>The position map that a pair of bitmaps defines, and loops that set one bit per position.\<close>

definition remap_pos :: "ulong list \<Rightarrow> ulong list \<Rightarrow> nat \<Rightarrow> nat \<Rightarrow> nat" where
  "remap_pos old new n i =
     (if i \<in> bmset old n \<and> bmset new n \<noteq> {}
      then set_list new n ! (card (bmset old i) mod card (bmset new n)) else i)"

lemma remap_pos_less: "i < n \<Longrightarrow> remap_pos old new n i < n"
proof (cases "i \<in> bmset old n \<and> bmset new n \<noteq> {}")
  case True
  then have "card (bmset old i) mod card (bmset new n) < card (bmset new n)" by (simp add: card_gt_0_iff)
  then show ?thesis using True bitmap_ord_to_pos_eq(2) [of _ new n] by (auto simp: remap_pos_def bmset_def)
qed (auto simp: remap_pos_def)

lemma bmset_set_bit: "bm_room d n \<Longrightarrow> i < n \<Longrightarrow> bmset (u_set_bit i d) n = insert i (bmset d n)"
  by (auto simp: bmset_def test_u_set_bit bm_room_bit)

lemma bmset_fold_set:
  assumes "\<forall>i \<in> set xs. f i < n" and "bm_room d n"
  shows "bmset (fold (\<lambda>i. u_set_bit (f i)) xs d) n = bmset d n \<union> f ` set xs"
  using assms
proof (induction xs arbitrary: d)
  case (Cons x xs)
  then have "bm_room (u_set_bit (f x) d) n" by (simp add: bm_room_def)
  then show ?case using Cons by (simp add: bmset_set_bit)
qed simp

lemma remap_bit_eq:
  assumes "i < n"
  shows "remap_bit old new n (u_bitmap_weight new n) i (Ok d) = Ok (u_set_bit (remap_pos old new n i) d)"
proof (cases "i \<in> bmset old n \<and> bmset new n \<noteq> {}")
  case True
  then have "0 < card (bmset new n)" by (simp add: card_gt_0_iff)
  then have "card (bmset old i) mod card (bmset new n) < card (bmset new n)" by simp
  then show ?thesis
    using True bitmap_ord_to_pos_eq(1) [of "card (bmset old i) mod card (bmset new n)" new n]
    by (simp add: remap_bit_def remap_pos_def bitmap_pos_to_ord_eq u_bitmap_weight_eq zmod_int)
next
  case False
  then show ?thesis
    by (auto simp: remap_bit_def remap_pos_def bitmap_pos_to_ord_eq u_bitmap_weight_eq)
qed

lemma fold_remap_bit:
  "\<forall>i \<in> set xs. i < n \<Longrightarrow> fold (remap_bit old new n (u_bitmap_weight new n)) xs (Ok d)
     = Ok (fold (\<lambda>i. u_set_bit (remap_pos old new n i)) xs d)"
  by (induction xs arbitrary: d) (simp_all add: remap_bit_eq)

lemma bitmap_remap_eq:
  assumes "bm_room dst n"
  shows "\<exists>d. bitmap_remap False dst src old new n = Ok d \<and> bmset d n = remap_pos old new n ` bmset src n"
proof -
  let ?d = "fold (\<lambda>i. u_set_bit (remap_pos old new n i)) (set_list src n) (bitmap_zero dst n)"
  have lt: "\<forall>i \<in> set (set_list src n). i < n" by (simp add: bmset_def)
  have "bitmap_remap False dst src old new n = Ok ?d"
    using fold_remap_bit [OF lt] by (simp add: bitmap_remap_def for_each_set_bit)
  moreover have "bmset ?d n = remap_pos old new n ` bmset src n"
    using bmset_fold_set [of "set_list src n" "remap_pos old new n" n "bitmap_zero dst n"] lt assms remap_pos_less
    by (simp add: bmset_zero bm_room_def)
  ultimately show ?thesis by blast
qed

lemma bitmap_bitremap_eq:
  "bitmap_bitremap oldbit old new n = Ok (if 0 \<le> oldbit then int (remap_pos old new n (nat oldbit)) else oldbit)"
proof (cases "0 \<le> oldbit \<and> nat oldbit \<in> bmset old n \<and> bmset new n \<noteq> {}")
  case True
  then have "0 < card (bmset new n)" by (simp add: card_gt_0_iff)
  then have "card (bmset old (nat oldbit)) mod card (bmset new n) < card (bmset new n)" by simp
  then show ?thesis
    using True bitmap_ord_to_pos_eq(1) [of "card (bmset old (nat oldbit)) mod card (bmset new n)" new n]
    by (simp add: bitmap_bitremap_def remap_pos_def bitmap_pos_to_ord_eq u_bitmap_weight_eq zmod_int)
next
  case False
  then show ?thesis
    by (auto simp: bitmap_bitremap_def remap_pos_def bitmap_pos_to_ord_eq u_bitmap_weight_eq)
qed




section \<open>Regions\<close>

lemma reg_mask_bit:
  assumes "0 < b" and "off + b \<le> 32"
  shows "bit (push_bit off (push_bit (b - 1) (1::ulong) + (push_bit (b - 1) 1 - 1))) i \<longleftrightarrow> off \<le> i \<and> i < off + b"
proof -
  have "push_bit (b - 1) (1::ulong) + (push_bit (b - 1) 1 - 1) = 2 * 2 ^ (b - 1) - 1"
    by (simp add: push_bit_eq_mult)
  also have "\<dots> = mask b" using assms(1) by (simp add: mask_eq_exp_minus_1 flip: power_Suc)
  finally show ?thesis using assms(2) by (auto simp: bit_simps)
qed

lemma word_region:
  fixes i j q r s :: nat
  assumes "r < 32" and "q + s \<le> 32"
  shows "32 * i + q \<le> 32 * j + r \<and> 32 * j + r < 32 * i + q + s \<longleftrightarrow> i \<le> j \<and> j < i + 1 \<and> q \<le> r \<and> r < q + s"
proof (cases i j rule: linorder_cases)
  case less
  then obtain d where "j = Suc (i + d)" by (auto dest: less_imp_Suc_add)
  then show ?thesis using assms by simp
next
  case greater
  then obtain d where "i = Suc (j + d)" by (auto dest: less_imp_Suc_add)
  then show ?thesis using assms by simp
qed simp

lemma words_region:
  fixes i j r v :: nat
  assumes "r < 32"
  shows "32 * i \<le> 32 * j + r \<and> 32 * j + r < 32 * (i + v) \<longleftrightarrow> i \<le> j \<and> j < i + v"
proof -
  have "32 * a \<le> 32 * j + r \<longleftrightarrow> a \<le> j" for a :: nat
  proof (cases "a \<le> j")
    case False
    then obtain d where "a = Suc (j + d)" by (auto simp: not_le dest: less_imp_Suc_add)
    then show ?thesis using assms by simp
  qed simp
  then show ?thesis using not_le by metis
qed

text \<open>The positions of a region: the words it spans, and the mask inside each.\<close>

lemma region_iff:
  assumes al: "2 ^ order dvd pos"
  shows "pos \<le> p \<and> p < pos + 2 ^ order \<longleftrightarrow>
    pos div 32 \<le> p div 32 \<and> p div 32 < pos div 32 + BITS_TO_LONGS (2 ^ order)
    \<and> pos mod 32 \<le> p mod 32 \<and> p mod 32 < pos mod 32 + min (2 ^ order) 32"
    and "pos mod 32 + min (2 ^ order) 32 \<le> (32::nat)"
proof -
  have "(pos \<le> p \<and> p < pos + 2 ^ order \<longleftrightarrow>
    pos div 32 \<le> p div 32 \<and> p div 32 < pos div 32 + BITS_TO_LONGS (2 ^ order)
    \<and> pos mod 32 \<le> p mod 32 \<and> p mod 32 < pos mod 32 + min (2 ^ order) 32)
    \<and> pos mod 32 + min (2 ^ order) 32 \<le> (32::nat)"
  proof (cases "order < 5")
    case True
    define s where "s = (2::nat) ^ order"
    have s: "0 < s" "s < 32"
      using True power_strict_increasing [of order 5 "2::nat"] by (simp_all add: s_def)
    have "s dvd 32" using True le_imp_power_dvd [of order 5 "2::nat"] by (simp add: s_def)
    then obtain u where u: "s * u = 32" by (metis dvdE)
    obtain t where t: "pos = s * t" using al unfolding s_def by (rule dvdE)
    have "0 < u" using u by (cases u) auto
    then have "t mod u + 1 \<le> u" by (simp add: Suc_leI)
    then have "s * (t mod u + 1) \<le> s * u" by (rule mult_le_mono2)
    moreover have "pos mod (s * u) = s * (t mod u)" unfolding t by (rule mult_mod_right [symmetric])
    ultimately have o: "pos mod 32 + s \<le> 32" unfolding u by (simp only: distrib_left mult_1_right)
    have one: "BITS_TO_LONGS s = 1" using s by (simp add: BITS_TO_LONGS_eq)
    define i q j r where "i = pos div 32" and "q = pos mod 32" and "j = p div 32" and "r = p mod 32"
    have eqs: "pos = 32 * i + q" "p = 32 * j + r" "q < 32" "r < 32" "q + s \<le> 32"
      using o by (simp_all add: i_def q_def j_def r_def)
    have "(32 * i + q \<le> 32 * j + r \<and> 32 * j + r < 32 * i + q + s) \<longleftrightarrow> i \<le> j \<and> j < i + 1 \<and> q \<le> r \<and> r < q + s"
      by (rule word_region) (rule eqs(4,5))+
    then have "pos \<le> p \<and> p < pos + s \<longleftrightarrow> i \<le> j \<and> j < i + 1 \<and> q \<le> r \<and> r < q + s"
      by (simp only: eqs(1,2) [symmetric])
    moreover have "min s 32 = s" using s by simp
    ultimately show ?thesis
      using eqs(5) one unfolding s_def [symmetric] i_def [symmetric] q_def [symmetric] j_def [symmetric] r_def [symmetric]
      by (simp only: simp_thms)
  next
    case False
    define v where "v = (2::nat) ^ (order - 5)"
    have "(2::nat) ^ order = 2 ^ 5 * 2 ^ (order - 5)" using False power_add [of "2::nat" 5 "order - 5"] by simp
    then have v: "(2::nat) ^ order = 32 * v" "0 < v" by (simp_all add: v_def)
    obtain t where t: "pos = 2 ^ order * t" using al by (rule dvdE)
    then have q: "pos mod 32 = 0" "pos = 32 * (pos div 32)" using v by simp_all
    define i j r where "i = pos div 32" and "j = p div 32" and "r = p mod 32"
    have eqs: "pos = 32 * i" "p = 32 * j + r" "r < 32" using q by (simp_all add: i_def j_def r_def)
    have "(32 * i \<le> 32 * j + r \<and> 32 * j + r < 32 * i + 32 * v) \<longleftrightarrow> i \<le> j \<and> j < i + v"
      using words_region [OF eqs(3), of i j v] by (simp only: distrib_left)
    moreover have "BITS_TO_LONGS (32 * v) = v" by (simp add: BITS_TO_LONGS_eq)
    moreover have "min (32 * v) 32 = 32" using v(2) by simp
    moreover have "(pos \<le> p \<and> p < pos + 32 * v) = (32 * i \<le> 32 * j + r \<and> 32 * j + r < 32 * i + 32 * v)"
      by (simp only: eqs(1,2) [symmetric])
    ultimately show ?thesis
      using q(1) eqs(3) unfolding v(1) i_def [symmetric] j_def [symmetric] r_def [symmetric]
      by (simp only: le0 simp_thms add_0)
  qed
  then show "pos \<le> p \<and> p < pos + 2 ^ order \<longleftrightarrow>
    pos div 32 \<le> p div 32 \<and> p div 32 < pos div 32 + BITS_TO_LONGS (2 ^ order)
    \<and> pos mod 32 \<le> p mod 32 \<and> p mod 32 < pos mod 32 + min (2 ^ order) 32"
    and "pos mod 32 + min (2 ^ order) 32 \<le> (32::nat)" by blast+
qed

definition region :: "nat \<Rightarrow> nat \<Rightarrow> nat set" where
  "region pos order = {pos..<pos + 2 ^ order}"

lemma region_mask:
  assumes "2 ^ order dvd pos"
  shows "p \<in> region pos order \<longleftrightarrow>
    pos div 32 \<le> p div 32 \<and> p div 32 < pos div 32 + BITS_TO_LONGS (2 ^ order) \<and> bit (reg_op_mask pos order) (p mod 32)"
proof -
  have "pos - pos div 32 * 32 = pos mod 32" by (simp add: minus_div_mult_eq_mod)
  then have "bit (reg_op_mask pos order) (p mod 32) \<longleftrightarrow> pos mod 32 \<le> p mod 32 \<and> p mod 32 < pos mod 32 + min (2 ^ order) 32"
    unfolding reg_op_mask_def Let_def using region_iff(2) [OF assms(1)] by (simp only:) (rule reg_mask_bit; simp)
  then show ?thesis using region_iff(1) [OF assms(1), of p] by (simp only: region_def atLeastLessThan_iff)
qed

lemma and_eq_0_bits: "w AND m = 0 \<longleftrightarrow> (\<forall>q < 32. \<not> (bit w q \<and> bit m q))" for w m :: ulong
  using word_neq_iff [of "w AND m" 0] by (auto simp: bit_and_iff)

lemma reg_op_isfree:
  assumes "2 ^ order dvd pos"
  shows "fst (u_reg_op b pos order REG_OP_ISFREE) \<longleftrightarrow> (\<forall>p \<in> region pos order. \<not> test_bit p b)"
proof -
  let ?i = "pos div 32" and ?n = "BITS_TO_LONGS (2 ^ order)" and ?m = "reg_op_mask pos order"
  note rm = region_mask [OF assms]
  have "fst (u_reg_op b pos order REG_OP_ISFREE) \<longleftrightarrow> (\<forall>k < ?n. b ! (?i + k) AND ?m = 0)"
    by (auto simp: u_reg_op_def Let_def list_all_iff)
  also have "\<dots> \<longleftrightarrow> (\<forall>p \<in> region pos order. \<not> test_bit p b)"
  proof (intro iffI ballI allI impI)
    fix p assume *: "\<forall>k < ?n. b ! (?i + k) AND ?m = 0" and "p \<in> region pos order"
    then have p: "?i \<le> p div 32" "p div 32 - ?i < ?n" "bit ?m (p mod 32)" using rm by auto
    then have "b ! (p div 32) AND ?m = 0" using *[rule_format, OF p(2)] by simp
    then show "\<not> test_bit p b" using p(3) and_eq_0_bits by (auto simp: test_bit_eq)
  next
    fix k assume *: "\<forall>p \<in> region pos order. \<not> test_bit p b" and k: "k < ?n"
    have "\<not> (bit (b ! (?i + k)) q \<and> bit ?m q)" if "q < 32" for q
    proof -
      have "(32 * x + q) div 32 = x" "(32 * x + q) mod 32 = q" for x :: nat using that by simp_all
      then have "(32 * (?i + k) + q) div 32 = ?i + k" "(32 * (?i + k) + q) mod 32 = q" by blast+
      then show ?thesis using *[rule_format, of "32 * (?i + k) + q"] rm [of "32 * (?i + k) + q"] k
        by (auto simp: test_bit_eq)
    qed
    then show "b ! (?i + k) AND ?m = 0" by (simp add: and_eq_0_bits)
  qed
  finally show ?thesis .
qed

lemma length_reg_op [simp]: "length (snd (u_reg_op b pos order r)) = length b"
  by (cases r) (simp_all add: u_reg_op_def Let_def length_for_range)

lemma reg_op_write:
  assumes al: "2 ^ order dvd pos" and p: "p < 32 * length b"
  shows "test_bit p (snd (u_reg_op b pos order REG_OP_ALLOC)) \<longleftrightarrow> p \<in> region pos order \<or> test_bit p b"
    and "test_bit p (snd (u_reg_op b pos order REG_OP_RELEASE)) \<longleftrightarrow> p \<notin> region pos order \<and> test_bit p b"
proof -
  let ?i = "pos div 32" and ?n = "BITS_TO_LONGS (2 ^ order)" and ?m = "reg_op_mask pos order"
  have "p div 32 < length b" using p by (simp add: div_less_iff_less_mult mult.commute)
  then have w: "test_bit p (for_range 0 ?n (\<lambda>k b. b[?i + k := f (b ! (?i + k))]) b)
      = bit (if ?i \<le> p div 32 \<and> p div 32 < ?i + ?n then f (b ! (p div 32)) else b ! (p div 32)) (p mod 32)" for f
    using nth_for_range_modify [of "p div 32" b ?n ?i f] by (simp add: test_bit_eq)
  show "test_bit p (snd (u_reg_op b pos order REG_OP_ALLOC)) \<longleftrightarrow> p \<in> region pos order \<or> test_bit p b"
    using w [of "\<lambda>w. w OR ?m"] region_mask [OF al, of p]
    by (auto simp: u_reg_op_def Let_def bit_or_iff test_bit_eq)
  show "test_bit p (snd (u_reg_op b pos order REG_OP_RELEASE)) \<longleftrightarrow> p \<notin> region pos order \<and> test_bit p b"
    using w [of "\<lambda>w. w AND NOT ?m"] region_mask [OF al, of p]
    by (auto simp: u_reg_op_def Let_def bit_and_iff bit_not_iff test_bit_eq)
qed

lemma bmset_reg_op:
  assumes "2 ^ order dvd pos" and "bm_room b n"
  shows "bmset (snd (u_reg_op b pos order REG_OP_ALLOC)) n = bmset b n \<union> {p \<in> region pos order. p < n}"
    and "bmset (snd (u_reg_op b pos order REG_OP_RELEASE)) n = bmset b n - region pos order"
  using reg_op_write [OF assms(1), of _ b] bm_room_bit [OF assms(2)] by (auto simp: bmset_def)

definition region_free :: "ulong list \<Rightarrow> nat \<Rightarrow> nat \<Rightarrow> nat \<Rightarrow> bool" where
  "region_free b n order pos \<longleftrightarrow>
     2 ^ order dvd pos \<and> pos + 2 ^ order \<le> n \<and> region pos order \<inter> bmset b n = {}"

lemma region_free_isfree:
  assumes "2 ^ order dvd pos" and "pos + 2 ^ order \<le> n"
  shows "fst (u_reg_op b pos order REG_OP_ISFREE) \<longleftrightarrow> region_free b n order pos"
  using assms by (auto simp: reg_op_isfree region_free_def region_def bmset_def)


section \<open>Properties\<close>

text \<open>
  C11: the word-wise bitmap operations are the set operations of their names on the valid
  positions, and the predicates decide them, whatever the unused bits of the last word are.
\<close>

theorem bitmap_sets:
  assumes "bm_room dst n"
  shows "bmset (u_bitmap_and dst a b n) n = bmset a n \<inter> bmset b n
    \<and> bmset (u_bitmap_or dst a b n) n = bmset a n \<union> bmset b n
    \<and> bmset (u_bitmap_xor dst a b n) n = (bmset a n - bmset b n) \<union> (bmset b n - bmset a n)
    \<and> bmset (u_bitmap_andnot dst a b n) n = bmset a n - bmset b n
    \<and> bmset (u_bitmap_complement dst a n) n = {..<n} - bmset a n
    \<and> u_bitmap_empty a n = (bmset a n = {}) \<and> u_bitmap_full a n = (bmset a n = {..<n})
    \<and> u_bitmap_equal a b n = (bmset a n = bmset b n)
    \<and> u_bitmap_subset a b n = (bmset a n \<subseteq> bmset b n)
    \<and> u_bitmap_intersects a b n = (bmset a n \<inter> bmset b n \<noteq> {})
    \<and> u_bitmap_weight a n = card (bmset a n)"
  using bmset_logic [OF assms] bmset_complement [OF assms]
  by (simp add: u_bitmap_empty_eq u_bitmap_full_eq u_bitmap_equal_eq u_bitmap_subset_eq
      u_bitmap_intersects_eq u_bitmap_weight_eq)

theorem bitmap_sets_witness:
  "bmset (u_bitmap_andnot [0, 0] [0xF0, 3] [0x30, 0xFFFFFFFE] 33) 33 = bmset [0xF0, 3] 33 - bmset [0x30, 0xFFFFFFFE] 33
   \<and> u_bitmap_weight [0xF0, 3] 33 = card (bmset [0xF0, 3] 33)"
proof -
  have "bm_room [0, 0] 33" by code_simp
  from bitmap_sets [OF this, of "[0xF0, 3]" "[0x30, 0xFFFFFFFE]"] show ?thesis by (elim conjE) (intro conjI)
qed

text \<open>
  C31: the shifts move every valid position by the distance and drop what leaves the valid
  range; the left shift gives the same result when it works in place.
\<close>

theorem bitmap_shifts:
  assumes "bm_room dst n" and "shift div 32 \<le> BITS_TO_LONGS n"
  shows "bmset (u_bitmap_shift_right dst src shift n) n = {i. i + shift \<in> bmset src n}
    \<and> bmset (u_bitmap_shift_left dst src shift n) n = {i + shift |i. i \<in> bmset src n \<and> i + shift < n}
    \<and> u_bitmap_shift_left_inplace dst shift n = u_bitmap_shift_left dst dst shift n"
  using bmset_shift_right [OF assms] bmset_shift_left [OF assms] shift_left_inplace_eq by blast

theorem bitmap_shifts_witness:
  "bmset (u_bitmap_shift_right [0, 0] [0, 0xFF] 33 40) 40 = {i. i + 33 \<in> bmset [0, 0xFF] 40}
   \<and> u_bitmap_shift_left_inplace [0, 0] 33 40 = u_bitmap_shift_left [0, 0] [0, 0] 33 40"
proof -
  have "bm_room [0, 0] 40" "33 div 32 \<le> BITS_TO_LONGS 40" by code_simp+
  from bitmap_shifts [OF this, of "[0, 0xFF]"] show ?thesis by (elim conjE) (intro conjI)
qed

text \<open>
  C25: \<open>bitmap_remap\<close> never hits the \<open>BUG_ON\<close> of \<open>bitmap_pos_to_ord\<close>, and its result is
  the image of the source under the position map that \<open>old\<close> and \<open>new\<close> define: the n-th set
  position of \<open>old\<close> goes to the set position of \<open>new\<close> with number n modulo the weight of
  \<open>new\<close>, every other position to itself. \<open>bitmap_bitremap\<close> is that map on one position.
\<close>

theorem bitmap_remap_image:
  assumes "bm_room dst n"
  shows "(\<exists>d. bitmap_remap False dst src old new n = Ok d \<and> bmset d n = remap_pos old new n ` bmset src n)
    \<and> bitmap_bitremap (int i) old new n = Ok (int (remap_pos old new n i))"
  using bitmap_remap_eq [OF assms] by (simp add: bitmap_bitremap_eq)

theorem bitmap_remap_image_witness:
  "(\<exists>d. bitmap_remap False [0] [0xA2] [0xF0] [0xF000] 20 = Ok d
      \<and> bmset d 20 = remap_pos [0xF0] [0xF000] 20 ` bmset [0xA2] 20)
   \<and> bitmap_bitremap (int 5) [0xF0] [0xF000] 20 = Ok (int (remap_pos [0xF0] [0xF000] 20 5))"
proof -
  have "bm_room [0] 20" by code_simp
  from bitmap_remap_image [OF this, of "[0xA2]" "[0xF0]" "[0xF000]" 5] show ?thesis .
qed





text \<open>
  C33: \<open>bitmap_allocate_region\<close> succeeds exactly on a free region and fails with \<open>-EBUSY\<close>
  and no change otherwise; releasing what it allocated restores the set of used positions.
\<close>

theorem bitmap_region_round_trip:
  assumes "bm_room b n" and "2 ^ order dvd pos" and "pos + 2 ^ order \<le> n"
  shows "if region_free b n order pos
    then \<exists>b'. bitmap_allocate_region b pos order = (Ok (), b') \<and> bmset b' n = bmset b n \<union> region pos order
      \<and> bmset (bitmap_release_region b' pos order) n = bmset b n
    else bitmap_allocate_region b pos order = (Err EBUSY, b)"
proof (cases "region_free b n order pos")
  case True
  let ?b = "snd (u_reg_op b pos order REG_OP_ALLOC)"
  have "bm_room ?b n" using assms(1) by (simp add: bm_room_def)
  moreover have "{p \<in> region pos order. p < n} = region pos order" using assms(3) by (auto simp: region_def)
  moreover have "bmset b n - region pos order = bmset b n" using True by (auto simp: region_free_def)
  ultimately show ?thesis
    using True region_free_isfree [OF assms(2,3), of b] bmset_reg_op(1) [OF assms(2,1)] bmset_reg_op(2) [OF assms(2), of ?b n]
    by (simp add: bitmap_allocate_region_def bitmap_release_region_def Un_Diff)
next
  case False
  then show ?thesis
    using region_free_isfree [OF assms(2,3), of b] by (simp add: bitmap_allocate_region_def)
qed

theorem bitmap_region_round_trip_witness:
  "if region_free [1, 0] 64 5 32
   then \<exists>b'. bitmap_allocate_region [1, 0] 32 5 = (Ok (), b') \<and> bmset b' 64 = bmset [1, 0] 64 \<union> region 32 5
     \<and> bmset (bitmap_release_region b' 32 5) 64 = bmset [1, 0] 64
   else bitmap_allocate_region [1, 0] 32 5 = (Err EBUSY, [1, 0])"
  by (rule bitmap_region_round_trip) code_simp+

end
