(* ===== verification/Kfifo.thy ===== *)
theory Kfifo
  imports Bitops
begin

text \<open>
  The kernel FIFO of \<open>kernel/kfifo.c\<close> and \<open>include/linux/kfifo.h\<close>: a ring of bytes whose
  two free-running 32-bit indices wrap. The theory gives the operations, the refinement to
  a byte queue, and the machine of one reader and one writer that run without a lock.
\<close>

section \<open>State and operations\<close>

text \<open>\<open>struct kfifo\<close>; the lock is not part of the model, its sections run atomically.\<close>

record kfifo =
  kf_buffer :: "u8 list"
  kf_size :: u32
  kf_in :: u32
  kf_out :: u32



text \<open>
  \<open>__kfifo_put\<close> in the order of its memory operations: the length that fits, the copy up
  to the end of the ring, the copy to its start, and the store of \<open>in\<close>.
\<close>

definition kfifo_put_len :: "kfifo \<Rightarrow> u32 \<Rightarrow> u32" where
  "kfifo_put_len f len = min len (kf_size f - kf_in f + kf_out f)"

definition kfifo_put_l :: "kfifo \<Rightarrow> u32 \<Rightarrow> u32" where
  "kfifo_put_l f len = min len (kf_size f - (kf_in f AND (kf_size f - 1)))"

definition kfifo_put_first :: "kfifo \<Rightarrow> u8 list \<Rightarrow> u32 \<Rightarrow> kfifo" where
  "kfifo_put_first f buffer len =
     f\<lparr>kf_buffer := mem_write (kf_buffer f) (unat (kf_in f AND (kf_size f - 1)))
         (mem_read buffer 0 (unat (kfifo_put_l f len)))\<rparr>"

definition kfifo_put_second :: "kfifo \<Rightarrow> u8 list \<Rightarrow> u32 \<Rightarrow> kfifo" where
  "kfifo_put_second f buffer len =
     f\<lparr>kf_buffer := mem_write (kf_buffer f) 0
         (mem_read buffer (unat (kfifo_put_l f len)) (unat (len - kfifo_put_l f len)))\<rparr>"

definition kfifo_put_publish :: "kfifo \<Rightarrow> u32 \<Rightarrow> kfifo" where
  "kfifo_put_publish f len = f\<lparr>kf_in := kf_in f + len\<rparr>"

definition u_kfifo_put :: "kfifo \<Rightarrow> u8 list \<Rightarrow> u32 \<Rightarrow> kfifo \<times> u32" where
  "u_kfifo_put f buffer len =
     (let len = kfifo_put_len f len;
          f = kfifo_put_first f buffer len;
          f = kfifo_put_second f buffer len
      in (kfifo_put_publish f len, len))"

text \<open>\<open>__kfifo_get\<close> in the same way; \<open>buffer\<close> is the caller's destination.\<close>

definition kfifo_get_len :: "kfifo \<Rightarrow> u32 \<Rightarrow> u32" where
  "kfifo_get_len f len = min len (kf_in f - kf_out f)"

definition kfifo_get_l :: "kfifo \<Rightarrow> u32 \<Rightarrow> u32" where
  "kfifo_get_l f len = min len (kf_size f - (kf_out f AND (kf_size f - 1)))"

definition kfifo_get_first :: "kfifo \<Rightarrow> u8 list \<Rightarrow> u32 \<Rightarrow> u8 list" where
  "kfifo_get_first f buffer len =
     mem_write buffer 0
       (mem_read (kf_buffer f) (unat (kf_out f AND (kf_size f - 1))) (unat (kfifo_get_l f len)))"

definition kfifo_get_second :: "kfifo \<Rightarrow> u8 list \<Rightarrow> u32 \<Rightarrow> u8 list" where
  "kfifo_get_second f buffer len =
     mem_write buffer (unat (kfifo_get_l f len))
       (mem_read (kf_buffer f) 0 (unat (len - kfifo_get_l f len)))"

definition kfifo_get_publish :: "kfifo \<Rightarrow> u32 \<Rightarrow> kfifo" where
  "kfifo_get_publish f len = f\<lparr>kf_out := kf_out f + len\<rparr>"

definition u_kfifo_get :: "kfifo \<Rightarrow> u8 list \<Rightarrow> u32 \<Rightarrow> kfifo \<times> u8 list \<times> u32" where
  "u_kfifo_get f buffer len =
     (let len = kfifo_get_len f len;
          buffer = kfifo_get_first f buffer len;
          buffer = kfifo_get_second f buffer len
      in (kfifo_get_publish f len, buffer, len))"

definition u_kfifo_reset :: "kfifo \<Rightarrow> kfifo" where
  "u_kfifo_reset f = f\<lparr>kf_in := 0, kf_out := 0\<rparr>"

definition u_kfifo_len :: "kfifo \<Rightarrow> u32" where
  "u_kfifo_len f = kf_in f - kf_out f"

text \<open>The locked versions.\<close>

definition kfifo_reset :: "kfifo \<Rightarrow> kfifo" where
  "kfifo_reset f = u_kfifo_reset f"

definition kfifo_put :: "kfifo \<Rightarrow> u8 list \<Rightarrow> u32 \<Rightarrow> kfifo \<times> u32" where
  "kfifo_put f buffer len = u_kfifo_put f buffer len"

definition kfifo_get :: "kfifo \<Rightarrow> u8 list \<Rightarrow> u32 \<Rightarrow> kfifo \<times> u8 list \<times> u32" where
  "kfifo_get f buffer len =
     (let (f, buffer, ret) = u_kfifo_get f buffer len
      in (if kf_in f = kf_out f then f\<lparr>kf_in := 0, kf_out := 0\<rparr> else f, buffer, ret))"

definition kfifo_len :: "kfifo \<Rightarrow> u32" where
  "kfifo_len f = u_kfifo_len f"

section \<open>Invariant and abstraction\<close>

definition kfifo_inv :: "kfifo \<Rightarrow> bool" where
  "kfifo_inv f \<longleftrightarrow> is_power_of_2 (kf_size f) \<and> length (kf_buffer f) = unat (kf_size f)
     \<and> kf_in f - kf_out f \<le> kf_size f"

definition kfifo_contents :: "kfifo \<Rightarrow> u8 list" where
  "kfifo_contents f = ring_read (kf_buffer f) (unat (kf_out f)) (unat (kf_in f - kf_out f))"

text \<open>The ring indices: a sum of 32-bit indices is a sum modulo the size.\<close>

lemma kfifo_size:
  assumes "kfifo_inv f"
  obtains k where "k < 32" "kf_size f = 2 ^ k" "length (kf_buffer f) = 2 ^ k"
  using assms by (auto simp: kfifo_inv_def is_power_of_2_iff)

lemma pow2_dvd_32: "k < 32 \<Longrightarrow> (2::nat) ^ k dvd 2 ^ 32"
  using le_imp_power_dvd [of k 32 "2::nat"] by simp

lemma unat_add_mod_pow2:
  fixes a b :: u32
  assumes "k < 32"
  shows "unat (a + b) mod 2 ^ k = (unat a + unat b) mod 2 ^ k"
  using pow2_dvd_32 [OF assms] by (simp add: unat_word_ariths mod_mod_cancel)

lemma kfifo_mask:
  assumes "kfifo_inv f"
  shows "unat (x AND (kf_size f - 1)) = unat x mod length (kf_buffer f)"
    and "unat (x AND (kf_size f - 1)) < length (kf_buffer f)"
proof -
  obtain k where k: "k < 32" "kf_size f = 2 ^ k" "length (kf_buffer f) = 2 ^ k"
    using kfifo_size [OF assms] .
  then show "unat (x AND (kf_size f - 1)) = unat x mod length (kf_buffer f)"
    using unat_and_pow2_minus1 [of "kf_size f" k x] by simp
  with k show "unat (x AND (kf_size f - 1)) < length (kf_buffer f)" by simp
qed

lemma kfifo_room:
  assumes "kfifo_inv f"
  shows "unat (kf_size f - kf_in f + kf_out f)
    = length (kf_buffer f) - length (kfifo_contents f)"
    and "length (kfifo_contents f) \<le> length (kf_buffer f)"
proof -
  have le: "kf_in f - kf_out f \<le> kf_size f" using assms by (simp add: kfifo_inv_def)
  have "kf_size f - kf_in f + kf_out f = kf_size f - (kf_in f - kf_out f)" by simp
  then have "unat (kf_size f - kf_in f + kf_out f) = unat (kf_size f) - unat (kf_in f - kf_out f)"
    using unat_sub [OF le] by (simp only:)
  then show "unat (kf_size f - kf_in f + kf_out f) = length (kf_buffer f) - length (kfifo_contents f)"
    using assms by (simp add: kfifo_inv_def kfifo_contents_def)
  show "length (kfifo_contents f) \<le> length (kf_buffer f)"
    using le assms by (simp add: kfifo_inv_def kfifo_contents_def word_le_nat_alt)
qed

lemma unat_min: "unat (min a b) = min (unat a) (unat b)" for a b :: "'a::len word"
  by (simp add: min_def word_le_nat_alt)

lemma kfifo_l:
  assumes "kfifo_inv f"
  shows "unat (kfifo_put_l f len) = min (unat len) (length (kf_buffer f) - unat (kf_in f) mod length (kf_buffer f))"
    and "unat (kfifo_get_l f len) = min (unat len) (length (kf_buffer f) - unat (kf_out f) mod length (kf_buffer f))"
proof -
  have "unat (kf_size f - (x AND (kf_size f - 1))) = length (kf_buffer f) - unat x mod length (kf_buffer f)" for x
    using kfifo_mask [OF assms, of x] assms
    by (subst unat_sub) (simp_all add: word_le_nat_alt kfifo_inv_def)
  then show "unat (kfifo_put_l f len) = min (unat len) (length (kf_buffer f) - unat (kf_in f) mod length (kf_buffer f))"
    and "unat (kfifo_get_l f len) = min (unat len) (length (kf_buffer f) - unat (kf_out f) mod length (kf_buffer f))"
    by (simp_all add: kfifo_put_l_def kfifo_get_l_def unat_min)
qed

lemma kfifo_l_cong [simp]:
  "kfifo_put_l (f\<lparr>kf_buffer := b\<rparr>) n = kfifo_put_l f n"
  "kfifo_put_l (f\<lparr>kf_out := x\<rparr>) n = kfifo_put_l f n"
  "kfifo_get_l (f\<lparr>kf_buffer := b\<rparr>) n = kfifo_get_l f n"
  "kfifo_get_l (f\<lparr>kf_in := x\<rparr>) n = kfifo_get_l f n"
  by (simp_all add: kfifo_put_l_def kfifo_get_l_def)

lemma kfifo_l_le: "kfifo_put_l f n \<le> n" "kfifo_get_l f n \<le> n"
  by (simp_all add: kfifo_put_l_def kfifo_get_l_def)

lemma unat_minus_l:
  "unat (n - kfifo_put_l f n) = unat n - unat (kfifo_put_l f n)"
  "unat (n - kfifo_get_l f n) = unat n - unat (kfifo_get_l f n)"
  by (rule unat_sub, rule kfifo_l_le)+

lemma kfifo_in_mod:
  assumes "kfifo_inv f"
  shows "(unat (kf_out f) + unat (kf_in f - kf_out f)) mod length (kf_buffer f)
    = unat (kf_in f) mod length (kf_buffer f)"
proof -
  obtain k where k: "k < 32" "length (kf_buffer f) = 2 ^ k" using kfifo_size [OF assms] by metis
  then show ?thesis
    using unat_add_mod_pow2 [OF k(1), of "kf_out f" "kf_in f - kf_out f"] by simp
qed

lemma ring_copy_in_short: "length bs \<le> length buf - off \<Longrightarrow> ring_copy_in buf off bs = mem_write buf off bs"
  by (simp add: ring_copy_in_def Let_def min.absorb1)

section \<open>Writing\<close>

text \<open>
  The bytes a writer has stored behind \<open>in\<close> and not yet published. A store next to them
  extends them and leaves the contents alone; publishing appends them to the contents.
\<close>

definition kfifo_written :: "kfifo \<Rightarrow> u8 list \<Rightarrow> bool" where
  "kfifo_written f xs \<longleftrightarrow> ring_read (kf_buffer f) (unat (kf_in f)) (length xs) = xs"

lemma kfifo_written_Nil [simp]: "kfifo_written f []"
  by (simp add: kfifo_written_def)

lemma kfifo_write_cells:
  assumes inv: "kfifo_inv f" and wr: "kfifo_written f xs"
    and room: "length (kfifo_contents f) + length xs + length ys \<le> length (kf_buffer f)"
    and off: "off = (unat (kf_in f) + length xs) mod length (kf_buffer f)"
    and f': "f' = f\<lparr>kf_buffer := ring_copy_in (kf_buffer f) off ys\<rparr>"
  shows "kfifo_written f' (xs @ ys)" "kfifo_contents f' = kfifo_contents f" "kfifo_inv f'"
proof -
  let ?L = "length (kf_buffer f)" and ?m = "length (kfifo_contents f)"
    and ?B = "ring_copy_in (kf_buffer f) off ys"
  have L: "0 < ?L" using kfifo_mask(2) [OF inv] by (metis gr_implies_not0 not_gr0)
  then have B: "length ?B = ?L" "off < ?L" using room off by simp_all
  have before: "ring_read ?B s n = ring_read (kf_buffer f) s n"
    if "n + length ys \<le> ?L" "(s + n) mod ?L = off" for s n
    using ring_read_copy_in_before [of off "kf_buffer f" "s mod ?L" n ys] that L B
      ring_read_mod [of ?B s n] by (simp add: mod_add_left_eq)
  have "ring_read ?B (unat (kf_in f) + length xs) (length ys) = ys"
    using ring_read_copy_in_same [of off "kf_buffer f" ys] room B off
      ring_read_mod [of ?B "unat (kf_in f) + length xs"] by simp
  moreover have "ring_read ?B (unat (kf_in f)) (length xs) = xs"
    using before [of "length xs" "unat (kf_in f)"] room off wr by (simp add: kfifo_written_def)
  ultimately show "kfifo_written f' (xs @ ys)"
    by (simp add: f' kfifo_written_def ring_read_add)
  have "(unat (kf_out f) + (?m + length xs)) mod ?L = off"
    using kfifo_in_mod [OF inv] off by (metis add.assoc kfifo_contents_def length_ring_read mod_add_left_eq)
  then have "ring_read ?B (unat (kf_out f)) (?m + length xs)
      = ring_read (kf_buffer f) (unat (kf_out f)) (?m + length xs)"
    using room by (intro before) simp_all
  then have "ring_read ?B (unat (kf_out f)) ?m = ring_read (kf_buffer f) (unat (kf_out f)) ?m"
    by (metis le_add1 take_ring_read)
  then show "kfifo_contents f' = kfifo_contents f"
    by (simp add: f' kfifo_contents_def)
  show "kfifo_inv f'" using inv B(1) by (simp add: f' kfifo_inv_def)
qed

lemma kfifo_put_publish_contents:
  assumes inv: "kfifo_inv f" and wr: "kfifo_written f xs" and n: "unat n = length xs"
    and room: "length (kfifo_contents f) + length xs \<le> length (kf_buffer f)"
  shows "kfifo_contents (kfifo_put_publish f n) = kfifo_contents f @ xs"
    and "kfifo_inv (kfifo_put_publish f n)"
proof -
  let ?m = "unat (kf_in f - kf_out f)" and ?L = "length (kf_buffer f)"
  obtain k where k: "k < 32" "kf_size f = 2 ^ k" "?L = 2 ^ k" using kfifo_size [OF inv] .
  then have L: "?L \<le> 2 ^ 31" by (simp add: power_increasing [of k 31 2, simplified])
  have m: "length (kfifo_contents f) = ?m" by (simp add: kfifo_contents_def)
  have "kf_in f + n - kf_out f = (kf_in f - kf_out f) + n" by simp
  then have sum: "unat (kf_in f + n - kf_out f) = ?m + length xs"
    using room n L m by (simp only: unat_plus_if') simp
  have "ring_read (kf_buffer f) (unat (kf_out f) + ?m) (length xs) = xs"
    using wr kfifo_in_mod [OF inv] ring_read_mod by (metis kfifo_written_def)
  then show "kfifo_contents (kfifo_put_publish f n) = kfifo_contents f @ xs"
    using sum by (simp add: kfifo_contents_def kfifo_put_publish_def ring_read_add)
  show "kfifo_inv (kfifo_put_publish f n)"
    using inv sum room m by (simp add: kfifo_inv_def kfifo_put_publish_def word_le_nat_alt)
qed

text \<open>The two copies of \<open>__kfifo_put\<close> are two such stores.\<close>

lemma kfifo_put_first_eq:
  assumes inv: "kfifo_inv f" and n: "unat n \<le> length bs"
    and room: "length (kfifo_contents f) + unat n \<le> length (kf_buffer f)"
  shows "kfifo_written (kfifo_put_first f bs n) (take (unat (kfifo_put_l f n)) bs)"
    and "kfifo_contents (kfifo_put_first f bs n) = kfifo_contents f"
    and "kfifo_inv (kfifo_put_first f bs n)"
proof -
  let ?L = "length (kf_buffer f)" and ?xs = "take (unat (kfifo_put_l f n)) bs"
  let ?off = "unat (kf_in f) mod ?L"
  have l: "unat (kfifo_put_l f n) = min (unat n) (?L - ?off)" by (rule kfifo_l [OF inv])
  have xs: "length ?xs \<le> unat n" "length ?xs \<le> length (kf_buffer f) - ?off"
    using l by simp_all
  have "ring_copy_in (kf_buffer f) ?off ?xs = mem_write (kf_buffer f) ?off ?xs"
    using xs(2) by (rule ring_copy_in_short)
  then have "kfifo_put_first f bs n = f\<lparr>kf_buffer := ring_copy_in (kf_buffer f) ?off ?xs\<rparr>"
    by (simp only: kfifo_put_first_def kfifo_mask [OF inv] mem_read_def drop_0)
  note w = kfifo_write_cells [OF inv kfifo_written_Nil _ _ this]
  from xs(1) room have "length (kfifo_contents f) + length [] + length ?xs \<le> length (kf_buffer f)"
    by (simp del: length_take)
  note w = w [OF this]
  from w show "kfifo_written (kfifo_put_first f bs n) ?xs"
    and "kfifo_contents (kfifo_put_first f bs n) = kfifo_contents f"
    and "kfifo_inv (kfifo_put_first f bs n)" by simp_all
qed

lemma kfifo_put_second_eq:
  assumes inv: "kfifo_inv f" and n: "unat n \<le> length bs"
    and room: "length (kfifo_contents f) + unat n \<le> length (kf_buffer f)"
    and wr: "kfifo_written f (take (unat (kfifo_put_l f n)) bs)"
  shows "kfifo_written (kfifo_put_second f bs n) (take (unat n) bs)"
    and "kfifo_contents (kfifo_put_second f bs n) = kfifo_contents f"
    and "kfifo_inv (kfifo_put_second f bs n)"
proof -
  let ?L = "length (kf_buffer f)" and ?l = "unat (kfifo_put_l f n)"
  let ?off = "unat (kf_in f) mod ?L" and ?ys = "take (unat n - ?l) (drop ?l bs)"
  let ?o = "(unat (kf_in f) + length (take ?l bs)) mod ?L"
  have l: "?l = min (unat n) (?L - ?off)" by (rule kfifo_l [OF inv])
  have off: "?off < ?L" using kfifo_mask [OF inv] by metis
  have nL: "unat n \<le> ?L" using room by simp
  have "ring_copy_in (kf_buffer f) ?o ?ys = mem_write (kf_buffer f) 0 ?ys"
  proof (cases "unat n \<le> ?L - ?off")
    case True
    then have "?ys = []" using l by simp
    then have "ring_copy_in (kf_buffer f) ?o ?ys = kf_buffer f" "mem_write (kf_buffer f) 0 ?ys = kf_buffer f"
      by (simp_all only: ring_copy_in_def Let_def list.size take_Nil drop_Nil mem_write_Nil)
    then show ?thesis by (simp only:)
  next
    case False
    then have "length (take ?l bs) = ?L - ?off" using l n by simp
    then have "?o = (?off + (?L - ?off)) mod ?L" by (simp add: mod_add_left_eq)
    then have "?o = 0" using off by simp
    moreover have "length ?ys \<le> ?L - 0" using nL by (simp del: length_drop)
    ultimately show ?thesis by (metis ring_copy_in_short)
  qed
  then have "kfifo_put_second f bs n = f\<lparr>kf_buffer := ring_copy_in (kf_buffer f) ?o ?ys\<rparr>"
    by (simp add: kfifo_put_second_def mem_read_def unat_minus_l)
  note w = kfifo_write_cells [OF inv wr, of ?ys, OF _ _ this]
  have "take ?l bs @ ?ys = take (unat n) bs" using l by (simp flip: take_add)
  with w room n l show "kfifo_written (kfifo_put_second f bs n) (take (unat n) bs)"
    and "kfifo_contents (kfifo_put_second f bs n) = kfifo_contents f"
    and "kfifo_inv (kfifo_put_second f bs n)" by simp_all
qed

section \<open>Reading\<close>

lemma kfifo_get_first_eq:
  assumes inv: "kfifo_inv f" and n: "unat n \<le> length (kfifo_contents f)" and dst: "unat n \<le> length dst"
  shows "kfifo_get_first f dst n
    = take (unat (kfifo_get_l f n)) (kfifo_contents f) @ drop (unat (kfifo_get_l f n)) dst"
proof -
  let ?L = "length (kf_buffer f)" and ?l = "unat (kfifo_get_l f n)"
  let ?off = "unat (kf_out f) mod ?L"
  have l: "?l = min (unat n) (?L - ?off)" by (rule kfifo_l [OF inv])
  have off: "?off < ?L" using kfifo_mask [OF inv] by metis
  then have "mem_read (kf_buffer f) ?off ?l = take ?l (kfifo_contents f)"
    using l n mem_read_ring [of ?off ?l "kf_buffer f"]
    by (simp add: kfifo_contents_def take_ring_read)
  moreover have "length (mem_read (kf_buffer f) ?off ?l) = ?l" using l off by simp
  ultimately show ?thesis
    by (simp add: kfifo_get_first_def kfifo_mask [OF inv] mem_write_def)
qed

lemma kfifo_get_second_eq:
  assumes inv: "kfifo_inv f" and n: "unat n \<le> length (kfifo_contents f)" and dst: "unat n \<le> length dst"
    and first: "take (unat (kfifo_get_l f n)) dst = take (unat (kfifo_get_l f n)) (kfifo_contents f)"
  shows "kfifo_get_second f dst n = take (unat n) (kfifo_contents f) @ drop (unat n) dst"
proof -
  let ?L = "length (kf_buffer f)" and ?l = "unat (kfifo_get_l f n)"
  let ?off = "unat (kf_out f) mod ?L"
  have l: "?l = min (unat n) (?L - ?off)" by (rule kfifo_l [OF inv])
  have off: "?off < ?L" using kfifo_mask [OF inv] by metis
  have nL: "unat n \<le> ?L" using n kfifo_room(2) [OF inv] by simp
  have "mem_read (kf_buffer f) 0 (unat n - ?l) = take (unat n - ?l) (drop ?l (kfifo_contents f))"
  proof (cases "unat n \<le> ?L - ?off")
    case True
    then show ?thesis using l by simp
  next
    case False
    then have l': "?l = ?L - ?off" using l by simp
    then have "(unat (kf_out f) + ?l) mod ?L = (?off + (?L - ?off)) mod ?L" by (simp add: mod_add_left_eq)
    then have "(unat (kf_out f) + ?l) mod ?L = 0" using off by simp
    then have "ring_read (kf_buffer f) (unat (kf_out f) + ?l) m = ring_read (kf_buffer f) 0 m" for m
      by (metis ring_read_mod)
    then show ?thesis
      using l l' nL n mem_read_ring [of 0 "unat n - ?l" "kf_buffer f"]
      by (simp add: kfifo_contents_def drop_ring_read take_ring_read)
  qed
  moreover have "take ?l (kfifo_contents f) @ take (unat n - ?l) (drop ?l (kfifo_contents f)) = take (unat n) (kfifo_contents f)"
    using l by (simp flip: take_add)
  ultimately show ?thesis
    using first l n by (simp add: kfifo_get_second_def mem_write_def unat_minus_l flip: append_assoc)
qed

lemma kfifo_get_publish_contents:
  assumes inv: "kfifo_inv f" and n: "unat n \<le> length (kfifo_contents f)"
  shows "kfifo_contents (kfifo_get_publish f n) = drop (unat n) (kfifo_contents f)"
    and "kfifo_inv (kfifo_get_publish f n)"
proof -
  obtain k where k: "k < 32" "length (kf_buffer f) = 2 ^ k" using kfifo_size [OF inv] by metis
  have le: "unat n \<le> unat (kf_in f - kf_out f)" using n by (simp add: kfifo_contents_def)
  have "kf_in f - (kf_out f + n) = (kf_in f - kf_out f) - n" by simp
  moreover have "unat ((kf_in f - kf_out f) - n) = unat (kf_in f - kf_out f) - unat n"
    using le by (simp add: unat_sub word_le_nat_alt)
  ultimately have d: "unat (kf_in f - (kf_out f + n)) = unat (kf_in f - kf_out f) - unat n" by (simp only:)
  have "ring_read (kf_buffer f) (unat (kf_out f + n)) m = ring_read (kf_buffer f) (unat (kf_out f) + unat n) m" for m
    using unat_add_mod_pow2 [OF k(1)] k(2) ring_read_mod by metis
  then show "kfifo_contents (kfifo_get_publish f n) = drop (unat n) (kfifo_contents f)"
    using d le by (simp add: kfifo_contents_def kfifo_get_publish_def drop_ring_read)
  show "kfifo_inv (kfifo_get_publish f n)"
    using inv d by (auto simp: kfifo_inv_def kfifo_get_publish_def word_le_nat_alt)
qed

section \<open>Refinement to a byte queue\<close>

text \<open>
  The abstract queue: \<open>byte_put\<close> appends the prefix that fits, \<open>byte_get\<close> takes a prefix
  and copies it over the start of the destination.
\<close>

definition byte_put :: "nat \<Rightarrow> u8 list \<Rightarrow> u8 list \<Rightarrow> nat \<Rightarrow> u8 list \<times> nat" where
  "byte_put cap q bs len = (let n = min len (cap - length q) in (q @ take n bs, n))"

definition byte_get :: "u8 list \<Rightarrow> u8 list \<Rightarrow> nat \<Rightarrow> u8 list \<times> u8 list \<times> nat" where
  "byte_get q dst len = (let n = min len (length q) in (drop n q, take n q @ drop n dst, n))"

text \<open>
  A client of a queue as a sequence of calls, with the bytes the queue accepted and the
  bytes it delivered.
\<close>

datatype fifo_op = FPut "u8 list" u32 | FGet "u8 list" u32

fun fifo_op_ok :: "fifo_op \<Rightarrow> bool" where
  "fifo_op_ok (FPut bs len) \<longleftrightarrow> unat len \<le> length bs"
| "fifo_op_ok (FGet dst len) \<longleftrightarrow> unat len \<le> length dst"

fun fifo_run :: "('q \<Rightarrow> u8 list \<Rightarrow> u32 \<Rightarrow> 'q \<times> u32) \<Rightarrow> ('q \<Rightarrow> u8 list \<Rightarrow> u32 \<Rightarrow> 'q \<times> u8 list \<times> u32)
    \<Rightarrow> fifo_op list \<Rightarrow> 'q \<Rightarrow> 'q \<times> u8 list \<times> u8 list" where
  "fifo_run put get [] q = (q, [], [])"
| "fifo_run put get (FPut bs len # ops) q =
     (let (q, n) = put q bs len; (q, acc, del) = fifo_run put get ops q
      in (q, take (unat n) bs @ acc, del))"
| "fifo_run put get (FGet dst len # ops) q =
     (let (q, dst, n) = get q dst len; (q, acc, del) = fifo_run put get ops q
      in (q, acc, take (unat n) dst @ del))"

locale byte_queue =
  fixes put :: "'q \<Rightarrow> u8 list \<Rightarrow> u32 \<Rightarrow> 'q \<times> u32"
    and get :: "'q \<Rightarrow> u8 list \<Rightarrow> u32 \<Rightarrow> 'q \<times> u8 list \<times> u32"
    and inv :: "'q \<Rightarrow> bool" and contents :: "'q \<Rightarrow> u8 list" and cap :: "'q \<Rightarrow> nat"
  assumes put_refines: "inv q \<Longrightarrow> unat len \<le> length bs \<Longrightarrow> put q bs len = (q', n) \<Longrightarrow>
      byte_put (cap q) (contents q) bs (unat len) = (contents q', unat n) \<and> inv q' \<and> cap q' = cap q"
    and get_refines: "inv q \<Longrightarrow> unat len \<le> length dst \<Longrightarrow> get q dst len = (q', dst', n) \<Longrightarrow>
      byte_get (contents q) dst (unat len) = (contents q', dst', unat n) \<and> inv q' \<and> cap q' = cap q"
    and contents_cap: "inv q \<Longrightarrow> length (contents q) \<le> cap q"
begin

lemma put_stream:
  assumes "inv q" "unat len \<le> length bs" "put q bs len = (q', n)"
  shows "contents q' = contents q @ take (unat n) bs" "inv q'" "cap q' = cap q"
  using put_refines [OF assms] by (auto simp: byte_put_def Let_def)

lemma get_stream:
  assumes "inv q" "unat len \<le> length dst" "get q dst len = (q', dst', n)"
  shows "contents q = take (unat n) dst' @ contents q'" "inv q'" "cap q' = cap q"
  using get_refines [OF assms]
  by (auto simp: byte_get_def Let_def) (metis append_take_drop_id)

lemma run_stream:
  "inv q \<Longrightarrow> list_all fifo_op_ok ops \<Longrightarrow> fifo_run put get ops q = (q', acc, del) \<Longrightarrow>
   contents q @ acc = del @ contents q' \<and> inv q' \<and> cap q' = cap q"
proof (induction ops arbitrary: q acc del)
  case Nil
  then show ?case by simp
next
  case (Cons op ops)
  show ?case
  proof (cases op)
    case (FPut bs len)
    then obtain q1 n acc' where p: "put q bs len = (q1, n)"
      and r: "fifo_run put get ops q1 = (q', acc', del)" and acc: "acc = take (unat n) bs @ acc'"
      using Cons.prems(3) by (auto split: prod.splits)
    have "unat len \<le> length bs" using Cons.prems(2) FPut by simp
    note s = put_stream [OF Cons.prems(1) this p]
    show ?thesis using Cons.IH [OF s(2) _ r] Cons.prems(2) s acc by simp
  next
    case (FGet dst len)
    then obtain q1 dst' n del' where p: "get q dst len = (q1, dst', n)"
      and r: "fifo_run put get ops q1 = (q', acc, del')" and del: "del = take (unat n) dst' @ del'"
      using Cons.prems(3) by (auto split: prod.splits)
    have "unat len \<le> length dst" using Cons.prems(2) FGet by simp
    note s = get_stream [OF Cons.prems(1) this p]
    show ?thesis using Cons.IH [OF s(2) _ r] Cons.prems(2) s del by simp
  qed
qed

lemma put_get_round_trip:
  assumes "inv q" "contents q = []" "unat len \<le> length bs" "unat len \<le> cap q" "length dst = unat len"
    and "put q bs len = (q1, n)" and "get q1 dst len = (q2, dst', n')"
  shows "dst' = take (unat len) bs \<and> n = len \<and> n' = len \<and> contents q2 = []"
proof -
  have p: "contents q1 = take (unat len) bs" "unat n = unat len" "inv q1"
    using put_refines [OF assms(1,3,6)] assms by (auto simp: byte_put_def Let_def)
  then show ?thesis
    using get_refines [OF p(3) _ assms(7)] assms(3,5)
    by (auto simp: byte_get_def Let_def word_unat_eq_iff)
qed

end

lemma u_kfifo_put_refines:
  assumes inv: "kfifo_inv f" and len: "unat len \<le> length bs" and put: "u_kfifo_put f bs len = (f', n)"
  shows "byte_put (length (kf_buffer f)) (kfifo_contents f) bs (unat len) = (kfifo_contents f', unat n)
    \<and> kfifo_inv f' \<and> length (kf_buffer f') = length (kf_buffer f)"
proof -
  let ?f1 = "kfifo_put_first f bs n" and ?L = "length (kf_buffer f)"
  have n: "n = kfifo_put_len f len" and f': "f' = kfifo_put_publish (kfifo_put_second ?f1 bs n) n"
    using put by (auto simp: u_kfifo_put_def Let_def)
  have un: "unat n = min (unat len) (?L - length (kfifo_contents f))"
    using kfifo_room(1) [OF inv] by (simp add: n kfifo_put_len_def unat_min)
  have fits: "unat n \<le> length bs" "length (kfifo_contents f) + unat n \<le> ?L"
    using un len kfifo_room(2) [OF inv] by simp_all
  note s1 = kfifo_put_first_eq [OF inv fits]
  have l1: "kfifo_put_l ?f1 n = kfifo_put_l f n" "kf_size ?f1 = kf_size f"
    by (simp_all add: kfifo_put_first_def)
  have L1: "length (kf_buffer ?f1) = ?L" using s1(3) inv l1 by (simp add: kfifo_inv_def)
  note s2 = kfifo_put_second_eq [OF s1(3) fits(1), unfolded s1(2) L1 l1, OF fits(2) s1(1)]
  have L2: "length (kf_buffer (kfifo_put_second ?f1 bs n)) = ?L"
    using s2(3) inv l1 by (simp add: kfifo_inv_def kfifo_put_second_def)
  have "kfifo_contents f' = kfifo_contents f @ take (unat n) bs" "kfifo_inv f'"
    using kfifo_put_publish_contents [OF s2(3,1), of n] fits s2(2) L2 by (simp_all add: f')
  then show ?thesis
    using un L2 by (simp add: byte_put_def Let_def f' kfifo_put_publish_def)
qed

lemma u_kfifo_get_refines:
  assumes inv: "kfifo_inv f" and len: "unat len \<le> length dst" and get: "u_kfifo_get f dst len = (f', dst', n)"
  shows "byte_get (kfifo_contents f) dst (unat len) = (kfifo_contents f', dst', unat n)
    \<and> kfifo_inv f' \<and> length (kf_buffer f') = length (kf_buffer f)"
proof -
  let ?d = "kfifo_get_first f dst n"
  have n: "n = kfifo_get_len f len" and f': "f' = kfifo_get_publish f n"
    and dst': "dst' = kfifo_get_second f ?d n"
    using get by (auto simp: u_kfifo_get_def Let_def)
  have un: "unat n = min (unat len) (length (kfifo_contents f))"
    by (simp add: n kfifo_get_len_def unat_min kfifo_contents_def)
  with len have le: "unat n \<le> length (kfifo_contents f)" "unat n \<le> length dst" by simp_all
  have ll: "unat (kfifo_get_l f n) \<le> unat n"
    using kfifo_l_le(2) word_le_nat_alt by blast
  note d = kfifo_get_first_eq [OF inv le]
  have "dst' = take (unat n) (kfifo_contents f) @ drop (unat n) dst"
    using kfifo_get_second_eq [OF inv le(1), of ?d] d ll le by (simp add: dst')
  then show ?thesis
    using un kfifo_get_publish_contents [OF inv le(1)]
    by (simp add: byte_get_def Let_def f' kfifo_get_publish_def)
qed

lemma kfifo_empty_reset:
  assumes "kfifo_inv f" "kf_in f = kf_out f"
  shows "kfifo_contents (f\<lparr>kf_in := 0, kf_out := 0\<rparr>) = kfifo_contents f"
    and "kfifo_inv (f\<lparr>kf_in := 0, kf_out := 0\<rparr>)"
  using assms by (simp_all add: kfifo_contents_def kfifo_inv_def)

lemma kfifo_get_refines:
  assumes "kfifo_inv f" and "unat len \<le> length dst" and get: "kfifo_get f dst len = (f', dst', n)"
  shows "byte_get (kfifo_contents f) dst (unat len) = (kfifo_contents f', dst', unat n)
    \<and> kfifo_inv f' \<and> length (kf_buffer f') = length (kf_buffer f)"
proof -
  obtain f1 where f1: "u_kfifo_get f dst len = (f1, dst', n)"
    and f': "f' = (if kf_in f1 = kf_out f1 then f1\<lparr>kf_in := 0, kf_out := 0\<rparr> else f1)"
    using get by (auto simp: kfifo_get_def Let_def split: prod.splits)
  show ?thesis
    using u_kfifo_get_refines [OF assms(1,2) f1] kfifo_empty_reset [of f1] by (auto simp: f')
qed

interpretation kf: byte_queue u_kfifo_put u_kfifo_get kfifo_inv kfifo_contents "\<lambda>f. length (kf_buffer f)"
  by (unfold_locales; erule u_kfifo_put_refines u_kfifo_get_refines kfifo_room(2); assumption)

interpretation kfl: byte_queue kfifo_put kfifo_get kfifo_inv kfifo_contents "\<lambda>f. length (kf_buffer f)"
  by (unfold_locales; erule u_kfifo_put_refines [folded kfifo_put_def] kfifo_get_refines kfifo_room(2);
      assumption)


section \<open>One reader and one writer without a lock\<close>

text \<open>
  \<open>__kfifo_put\<close> and \<open>__kfifo_get\<close> run concurrently: each performs its memory operations
  one by one, and the steps of the two interleave in any order. \<open>sp_sent\<close> and \<open>sp_recv\<close>
  record the bytes whose transfer has completed on each side.
\<close>

datatype spsc_pc = SpIdle | SpLen "u8 list" u32 | SpFirst "u8 list" u32 | SpSecond "u8 list" u32

record spsc =
  sp_fifo :: kfifo
  sp_prod :: spsc_pc
  sp_cons :: spsc_pc
  sp_sent :: "u8 list"
  sp_recv :: "u8 list"

inductive spsc_step :: "spsc \<Rightarrow> spsc \<Rightarrow> bool" where
  prod_len: "sp_prod s = SpIdle \<Longrightarrow> unat len \<le> length bs \<Longrightarrow>
    spsc_step s (s\<lparr>sp_prod := SpLen bs (kfifo_put_len (sp_fifo s) len)\<rparr>)"
| prod_first: "sp_prod s = SpLen bs n \<Longrightarrow>
    spsc_step s (s\<lparr>sp_fifo := kfifo_put_first (sp_fifo s) bs n, sp_prod := SpFirst bs n\<rparr>)"
| prod_second: "sp_prod s = SpFirst bs n \<Longrightarrow>
    spsc_step s (s\<lparr>sp_fifo := kfifo_put_second (sp_fifo s) bs n, sp_prod := SpSecond bs n\<rparr>)"
| prod_publish: "sp_prod s = SpSecond bs n \<Longrightarrow>
    spsc_step s (s\<lparr>sp_fifo := kfifo_put_publish (sp_fifo s) n, sp_prod := SpIdle,
      sp_sent := sp_sent s @ take (unat n) bs\<rparr>)"
| cons_len: "sp_cons s = SpIdle \<Longrightarrow> unat len \<le> length dst \<Longrightarrow>
    spsc_step s (s\<lparr>sp_cons := SpLen dst (kfifo_get_len (sp_fifo s) len)\<rparr>)"
| cons_first: "sp_cons s = SpLen dst n \<Longrightarrow>
    spsc_step s (s\<lparr>sp_cons := SpFirst (kfifo_get_first (sp_fifo s) dst n) n\<rparr>)"
| cons_second: "sp_cons s = SpFirst dst n \<Longrightarrow>
    spsc_step s (s\<lparr>sp_cons := SpSecond (kfifo_get_second (sp_fifo s) dst n) n\<rparr>)"
| cons_publish: "sp_cons s = SpSecond dst n \<Longrightarrow>
    spsc_step s (s\<lparr>sp_fifo := kfifo_get_publish (sp_fifo s) n, sp_cons := SpIdle,
      sp_recv := sp_recv s @ take (unat n) dst\<rparr>)"

definition spsc_init :: "spsc \<Rightarrow> bool" where
  "spsc_init s \<longleftrightarrow> kfifo_inv (sp_fifo s) \<and> kfifo_contents (sp_fifo s) = []
     \<and> sp_prod s = SpIdle \<and> sp_cons s = SpIdle \<and> sp_sent s = [] \<and> sp_recv s = []"

definition put_room :: "kfifo \<Rightarrow> u8 list \<Rightarrow> u32 \<Rightarrow> bool" where
  "put_room f bs n \<longleftrightarrow> unat n \<le> length bs
     \<and> length (kfifo_contents f) + unat n \<le> length (kf_buffer f)"

definition get_room :: "kfifo \<Rightarrow> u8 list \<Rightarrow> u32 \<Rightarrow> bool" where
  "get_room f dst n \<longleftrightarrow> unat n \<le> length dst \<and> unat n \<le> length (kfifo_contents f)"

fun spsc_prod_ok :: "kfifo \<Rightarrow> spsc_pc \<Rightarrow> bool" where
  "spsc_prod_ok f SpIdle \<longleftrightarrow> True"
| "spsc_prod_ok f (SpLen bs n) \<longleftrightarrow> put_room f bs n"
| "spsc_prod_ok f (SpFirst bs n) \<longleftrightarrow> put_room f bs n
     \<and> kfifo_written f (take (unat (kfifo_put_l f n)) bs)"
| "spsc_prod_ok f (SpSecond bs n) \<longleftrightarrow> put_room f bs n \<and> kfifo_written f (take (unat n) bs)"

fun spsc_cons_ok :: "kfifo \<Rightarrow> spsc_pc \<Rightarrow> bool" where
  "spsc_cons_ok f SpIdle \<longleftrightarrow> True"
| "spsc_cons_ok f (SpLen dst n) \<longleftrightarrow> get_room f dst n"
| "spsc_cons_ok f (SpFirst dst n) \<longleftrightarrow> get_room f dst n
     \<and> take (unat (kfifo_get_l f n)) dst = take (unat (kfifo_get_l f n)) (kfifo_contents f)"
| "spsc_cons_ok f (SpSecond dst n) \<longleftrightarrow> get_room f dst n
     \<and> take (unat n) dst = take (unat n) (kfifo_contents f)"

definition spsc_inv :: "spsc \<Rightarrow> bool" where
  "spsc_inv s \<longleftrightarrow> kfifo_inv (sp_fifo s)
     \<and> sp_sent s = sp_recv s @ kfifo_contents (sp_fifo s)
     \<and> spsc_prod_ok (sp_fifo s) (sp_prod s) \<and> spsc_cons_ok (sp_fifo s) (sp_cons s)"

text \<open>Each side's knowledge survives the other side's steps.\<close>

lemma kfifo_get_l_le: "unat (kfifo_get_l f n) \<le> unat n"
  using kfifo_l_le(2) word_le_nat_alt by blast

lemma spsc_cons_ok_grow:
  assumes "spsc_cons_ok f pc" and "kfifo_contents f' = kfifo_contents f @ xs"
    and "\<And>n. kfifo_get_l f' n = kfifo_get_l f n"
  shows "spsc_cons_ok f' pc"
  using assms kfifo_get_l_le
  by (cases pc) (auto simp: get_room_def min_def le_trans [OF kfifo_get_l_le])

lemma spsc_prod_ok_drain:
  assumes "spsc_prod_ok f pc" and "length (kfifo_contents f') \<le> length (kfifo_contents f)"
    and "kf_buffer f' = kf_buffer f" "kf_in f' = kf_in f" "kf_size f' = kf_size f"
  shows "spsc_prod_ok f' pc"
  using assms by (cases pc) (auto simp: put_room_def kfifo_written_def kfifo_put_l_def)

lemma kfifo_put_frame:
  "kfifo_get_l (kfifo_put_first f bs n) m = kfifo_get_l f m"
  "kfifo_get_l (kfifo_put_second f bs n) m = kfifo_get_l f m"
  "kfifo_get_l (kfifo_put_publish f n) m = kfifo_get_l f m"
  "kfifo_put_l (kfifo_put_first f bs n) m = kfifo_put_l f m"
  "kf_size (kfifo_put_first f bs n) = kf_size f" "kf_size (kfifo_put_second f bs n) = kf_size f"
  by (simp_all add: kfifo_put_first_def kfifo_put_second_def kfifo_put_publish_def)

lemma kfifo_inv_len: "kfifo_inv f \<Longrightarrow> length (kf_buffer f) = unat (kf_size f)"
  by (simp add: kfifo_inv_def)

lemma spsc_inv_step:
  assumes "spsc_inv s" and "spsc_step s t"
  shows "spsc_inv t"
  using assms(2,1)
proof (induction rule: spsc_step.induct)
  case (prod_len s len bs)
  then show ?case
    using kfifo_room [of "sp_fifo s"]
    by (auto simp: spsc_inv_def put_room_def kfifo_put_len_def unat_min)
next
  case (prod_first s bs n)
  let ?f = "sp_fifo s" and ?f' = "kfifo_put_first (sp_fifo s) bs n"
  have inv: "kfifo_inv ?f" and room: "put_room ?f bs n"
    and str: "sp_sent s = sp_recv s @ kfifo_contents ?f" and cons: "spsc_cons_ok ?f (sp_cons s)"
    using prod_first by (auto simp: spsc_inv_def)
  have *: "unat n \<le> length bs" "length (kfifo_contents ?f) + unat n \<le> length (kf_buffer ?f)"
    using room by (simp_all add: put_room_def)
  note w = kfifo_put_first_eq [OF inv *]
  have "length (kf_buffer ?f') = length (kf_buffer ?f)"
    using kfifo_inv_len [OF inv] kfifo_inv_len [OF w(3)] by (simp only: kfifo_put_frame)
  then have room': "put_room ?f' bs n" using * by (simp only: put_room_def w(2) simp_thms)
  have "spsc_cons_ok ?f' (sp_cons s)"
    by (rule spsc_cons_ok_grow [OF cons, of _ "[]"]) (simp_all add: kfifo_put_frame w(2))
  then show ?case
    using w str room' by (simp add: spsc_inv_def kfifo_put_frame)
next
  case (prod_second s bs n)
  let ?f = "sp_fifo s" and ?f' = "kfifo_put_second (sp_fifo s) bs n"
  have inv: "kfifo_inv ?f" and room: "put_room ?f bs n"
    and str: "sp_sent s = sp_recv s @ kfifo_contents ?f" and cons: "spsc_cons_ok ?f (sp_cons s)"
    and wr: "kfifo_written ?f (take (unat (kfifo_put_l ?f n)) bs)"
    using prod_second by (auto simp: spsc_inv_def)
  have *: "unat n \<le> length bs" "length (kfifo_contents ?f) + unat n \<le> length (kf_buffer ?f)"
    using room by (simp_all add: put_room_def)
  note w = kfifo_put_second_eq [OF inv * wr]
  have "length (kf_buffer ?f') = length (kf_buffer ?f)"
    using kfifo_inv_len [OF inv] kfifo_inv_len [OF w(3)] by (simp only: kfifo_put_frame)
  then have room': "put_room ?f' bs n" using * by (simp only: put_room_def w(2) simp_thms)
  have "spsc_cons_ok ?f' (sp_cons s)"
    by (rule spsc_cons_ok_grow [OF cons, of _ "[]"]) (simp_all add: kfifo_put_frame w(2))
  then show ?case
    using w str room' by (simp add: spsc_inv_def)
next
  case (prod_publish s bs n)
  let ?f = "sp_fifo s"
  have inv: "kfifo_inv ?f" and room: "put_room ?f bs n" and wr: "kfifo_written ?f (take (unat n) bs)"
    using prod_publish by (auto simp: spsc_inv_def)
  have len: "unat n = length (take (unat n) bs)" using room by (simp add: put_room_def)
  have w: "kfifo_contents (kfifo_put_publish ?f n) = kfifo_contents ?f @ take (unat n) bs"
    "kfifo_inv (kfifo_put_publish ?f n)"
    using kfifo_put_publish_contents [OF inv wr len] room by (simp_all add: put_room_def)
  moreover have "spsc_cons_ok (kfifo_put_publish ?f n) (sp_cons s)"
    using prod_publish by - (rule spsc_cons_ok_grow [OF _ w(1)], simp_all add: spsc_inv_def kfifo_put_frame)
  ultimately show ?case using prod_publish by (simp add: spsc_inv_def)
next
  case (cons_len s len dst)
  then show ?case
    by (auto simp: spsc_inv_def get_room_def kfifo_get_len_def unat_min kfifo_contents_def)
next
  case (cons_first s dst n)
  then have "kfifo_get_first (sp_fifo s) dst n = take (unat (kfifo_get_l (sp_fifo s) n)) (kfifo_contents (sp_fifo s))
      @ drop (unat (kfifo_get_l (sp_fifo s) n)) dst"
    by (intro kfifo_get_first_eq) (auto simp: spsc_inv_def get_room_def)
  then show ?case
    using cons_first kfifo_get_l_le [of "sp_fifo s" n] by (simp add: spsc_inv_def get_room_def)
next
  case (cons_second s dst n)
  then have "kfifo_get_second (sp_fifo s) dst n = take (unat n) (kfifo_contents (sp_fifo s)) @ drop (unat n) dst"
    by (intro kfifo_get_second_eq) (auto simp: spsc_inv_def get_room_def)
  then show ?case using cons_second by (simp add: spsc_inv_def get_room_def)
next
  case (cons_publish s dst n)
  let ?f = "sp_fifo s" and ?f' = "kfifo_get_publish (sp_fifo s) n"
  have inv: "kfifo_inv ?f" and n: "unat n \<le> length (kfifo_contents ?f)"
    and dst: "take (unat n) dst = take (unat n) (kfifo_contents ?f)"
    and str: "sp_sent s = sp_recv s @ kfifo_contents ?f" and prod: "spsc_prod_ok ?f (sp_prod s)"
    using cons_publish by (auto simp: spsc_inv_def get_room_def)
  note g = kfifo_get_publish_contents [OF inv n]
  have "length (kfifo_contents ?f') \<le> length (kfifo_contents ?f)" using g(1) by simp
  then have "spsc_prod_ok ?f' (sp_prod s)"
    by (rule spsc_prod_ok_drain [OF prod]) (simp_all add: kfifo_get_publish_def)
  then show ?case using g dst str by (simp add: spsc_inv_def)
qed

interpretation spsc: invariant_machine spsc_init spsc_step spsc_inv
  by unfold_locales (simp add: spsc_init_def spsc_inv_def, rule spsc_inv_step)

section \<open>Properties\<close>

text \<open>
  C2: whatever sequence of \<open>kfifo_put\<close> and \<open>kfifo_get\<close> calls a client makes on a FIFO
  (each with a buffer at least as long as its length), the bytes delivered followed by the
  bytes still queued are the bytes queued at the start followed by the bytes accepted: no
  byte is lost, duplicated or reordered, also when the 32-bit indices wrap.
\<close>

theorem kfifo_stream:
  assumes "kfifo_inv f" and "list_all fifo_op_ok ops"
    and "fifo_run kfifo_put kfifo_get ops f = (f', acc, del)"
  shows "kfifo_contents f @ acc = del @ kfifo_contents f' \<and> kfifo_inv f'"
  using kfl.run_stream [OF assms] by blast

theorem kfifo_stream_witness:
  "kfifo_contents \<lparr>kf_buffer = [1, 2, 3, 4], kf_size = 4, kf_in = 0xFFFFFFFF, kf_out = 0xFFFFFFFE\<rparr> @ [7, 8, 9]
     = [3, 7] @ kfifo_contents \<lparr>kf_buffer = [8, 9, 3, 7], kf_size = 4, kf_in = 2, kf_out = 0\<rparr>
   \<and> kfifo_inv \<lparr>kf_buffer = [8, 9, 3, 7], kf_size = 4, kf_in = 2, kf_out = 0\<rparr>"
  by (rule kfifo_stream [of _ "[FPut [7, 8, 9, 0] 4, FGet [0, 0] 2]"]; code_simp)

text \<open>
  C7: one reader and one writer that run \<open>__kfifo_get\<close> and \<open>__kfifo_put\<close> concurrently and
  without a lock, their memory operations interleaved in any order, transfer the stream
  intact: in every reachable state the bytes sent are the bytes received followed by the
  contents of the ring.
\<close>

theorem kfifo_spsc_safe:
  assumes "reach spsc_init spsc_step s"
  shows "sp_sent s = sp_recv s @ kfifo_contents (sp_fifo s) \<and> kfifo_inv (sp_fifo s)"
  using spsc.reach_inv [OF assms] by (simp add: spsc_inv_def)

definition spsc_start :: spsc where
  "spsc_start = \<lparr>sp_fifo = \<lparr>kf_buffer = [0, 0], kf_size = 2, kf_in = 0, kf_out = 0\<rparr>,
     sp_prod = SpIdle, sp_cons = SpIdle, sp_sent = [], sp_recv = []\<rparr>"

definition spsc_sent :: spsc where
  "spsc_sent = \<lparr>sp_fifo = \<lparr>kf_buffer = [5, 0], kf_size = 2, kf_in = 1, kf_out = 0\<rparr>,
     sp_prod = SpIdle, sp_cons = SpIdle, sp_sent = [5], sp_recv = []\<rparr>"

lemma reach_spsc_sent: "reach spsc_init spsc_step spsc_sent"
proof -
  let ?s0 = spsc_start
  let ?s1 = "?s0\<lparr>sp_prod := SpLen [5] 1\<rparr>"
  let ?s2 = "?s1\<lparr>sp_fifo := kfifo_put_first (sp_fifo ?s1) [5] 1, sp_prod := SpFirst [5] 1\<rparr>"
  let ?s3 = "?s2\<lparr>sp_fifo := kfifo_put_second (sp_fifo ?s2) [5] 1, sp_prod := SpSecond [5] 1\<rparr>"
  have "spsc_init ?s0" by code_simp
  then have "reach spsc_init spsc_step ?s0" by (rule reach_init)
  moreover have "kfifo_put_len (sp_fifo ?s0) 1 = 1" by code_simp
  then have "spsc_step ?s0 ?s1"
    using prod_len [of ?s0 1 "[5]"] by (simp add: spsc_start_def)
  ultimately have "reach spsc_init spsc_step ?s1" by (rule reach_step)
  moreover have "spsc_step ?s1 ?s2" by (rule prod_first) simp
  ultimately have "reach spsc_init spsc_step ?s2" by (rule reach_step)
  moreover have "spsc_step ?s2 ?s3" by (rule prod_second) simp
  ultimately have "reach spsc_init spsc_step ?s3" by (rule reach_step)
  moreover have "?s3\<lparr>sp_fifo := kfifo_put_publish (sp_fifo ?s3) 1, sp_prod := SpIdle,
      sp_sent := sp_sent ?s3 @ take (unat (1::u32)) [5]\<rparr> = spsc_sent"
    by (simp add: spsc_start_def spsc_sent_def kfifo_put_first_def kfifo_put_second_def
        kfifo_put_publish_def kfifo_put_l_def mem_write_def mem_read_def)
  moreover have "spsc_step ?s3 (?s3\<lparr>sp_fifo := kfifo_put_publish (sp_fifo ?s3) 1, sp_prod := SpIdle,
      sp_sent := sp_sent ?s3 @ take (unat (1::u32)) [5]\<rparr>)" by (rule prod_publish) simp
  ultimately show ?thesis by (simp only: reach_step)
qed

theorem kfifo_spsc_safe_witness:
  "sp_sent spsc_sent = sp_recv spsc_sent @ kfifo_contents (sp_fifo spsc_sent)
   \<and> kfifo_inv (sp_fifo spsc_sent) \<and> sp_sent spsc_sent = [5]"
  using kfifo_spsc_safe [OF reach_spsc_sent] by (simp add: spsc_sent_def)






end
