(* ===== verification/Addr_Alloc.thy ===== *)
theory Addr_Alloc
  imports KPrelude
begin

text \<open>
  The contract of an allocator of address ranges, and what a client may conclude from it: in
  every state that calls of the allocator can reach, the live allocations are disjoint and
  together are exactly the used addresses.
\<close>

section \<open>Clients of an allocator\<close>

text \<open>
  A run of a client: the allocator's state and the live allocations, each with the address
  it was given and the size it asked for. \<open>alloc\<close> and \<open>release\<close> are the allocator's calls;
  \<open>request\<close> says which sizes the client may ask for.
\<close>

inductive alloc_step ::
  "('p \<Rightarrow> 's \<Rightarrow> ('a \<times> 'p) option) \<Rightarrow> ('p \<Rightarrow> 'a \<Rightarrow> 's \<Rightarrow> 'p kres) \<Rightarrow> ('p \<Rightarrow> 's \<Rightarrow> bool)
   \<Rightarrow> 'p \<times> ('a \<times> 's) list \<Rightarrow> 'p \<times> ('a \<times> 's) list \<Rightarrow> bool"
  for alloc :: "'p \<Rightarrow> 's \<Rightarrow> ('a \<times> 'p) option" and release :: "'p \<Rightarrow> 'a \<Rightarrow> 's \<Rightarrow> 'p kres"
    and request :: "'p \<Rightarrow> 's \<Rightarrow> bool" where
  alloc_ok: "request p s \<Longrightarrow> alloc p s = Some (a, p') \<Longrightarrow>
    alloc_step alloc release request (p, live) (p', (a, s) # live)"
| free_ok: "(a, s) \<in> set live \<Longrightarrow> release p a s = Ok p' \<Longrightarrow>
    alloc_step alloc release request (p, live) (p', remove1 (a, s) live)"

inductive_cases alloc_stepE: "alloc_step alloc release request st st'"

definition alloc_init :: "('p \<Rightarrow> bool) \<Rightarrow> ('p \<Rightarrow> nat set) \<Rightarrow> 'p \<times> ('a \<times> 's) list \<Rightarrow> bool" where
  "alloc_init P used st \<longleftrightarrow> P (fst st) \<and> used (fst st) = {} \<and> snd st = []"

section \<open>The contract\<close>

text \<open>
  \<open>used\<close> are the addresses in use, \<open>rng p (a, s)\<close> those of an allocation, and \<open>valid\<close> says
  that an allocation may be released. Neither \<open>rng\<close> nor \<open>valid\<close> changes when the allocator
  is used.
\<close>

locale addr_alloc =
  fixes alloc :: "'p \<Rightarrow> 's \<Rightarrow> ('a \<times> 'p) option" and release :: "'p \<Rightarrow> 'a \<Rightarrow> 's \<Rightarrow> 'p kres"
    and request :: "'p \<Rightarrow> 's \<Rightarrow> bool" and inv :: "'p \<Rightarrow> bool" and used :: "'p \<Rightarrow> nat set"
    and rng :: "'p \<Rightarrow> 'a \<times> 's \<Rightarrow> nat set" and valid :: "'p \<Rightarrow> 'a \<times> 's \<Rightarrow> bool"
  assumes alloc_law: "inv p \<Longrightarrow> request p s \<Longrightarrow> alloc p s = Some (a, p') \<Longrightarrow>
      inv p' \<and> rng p' = rng p \<and> valid p' = valid p \<and> valid p (a, s)
      \<and> rng p (a, s) \<inter> used p = {} \<and> used p' = used p \<union> rng p (a, s)"
    and release_law: "inv p \<Longrightarrow> valid p (a, s) \<Longrightarrow>
      \<exists>p'. release p a s = Ok p' \<and> inv p' \<and> rng p' = rng p \<and> valid p' = valid p
        \<and> used p' = used p - rng p (a, s)"
begin

definition live_inv :: "'p \<times> ('a \<times> 's) list \<Rightarrow> bool" where
  "live_inv st \<longleftrightarrow> (case st of (p, live) \<Rightarrow>
     inv p \<and> (\<forall>x \<in> set live. valid p x)
     \<and> (\<forall>i j. i < j \<longrightarrow> j < length live \<longrightarrow> rng p (live ! i) \<inter> rng p (live ! j) = {})
     \<and> used p = (\<Union>x \<in> set live. rng p x))"

lemma pairwise_split:
  assumes "\<forall>i j. i < j \<longrightarrow> j < length (xs @ x # ys) \<longrightarrow> f ((xs @ x # ys) ! i) \<inter> f ((xs @ x # ys) ! j) = {}"
  shows "\<forall>i j. i < j \<longrightarrow> j < length (xs @ ys) \<longrightarrow> f ((xs @ ys) ! i) \<inter> f ((xs @ ys) ! j) = {}"
    and "\<forall>y \<in> set (xs @ ys). f y \<inter> f x = {}"
proof -
  let ?g = "\<lambda>i. if i < length xs then i else Suc i"
  have nth: "(xs @ ys) ! i = (xs @ x # ys) ! ?g i" if "i < length (xs @ ys)" for i
    using that by (auto simp: nth_append Suc_diff_le)
  show "\<forall>i j. i < j \<longrightarrow> j < length (xs @ ys) \<longrightarrow> f ((xs @ ys) ! i) \<inter> f ((xs @ ys) ! j) = {}"
  proof (intro allI impI)
    fix i j assume ij: "i < j" "j < length (xs @ ys)"
    then have "?g i < ?g j" "?g j < length (xs @ x # ys)" by auto
    then show "f ((xs @ ys) ! i) \<inter> f ((xs @ ys) ! j) = {}"
      using assms nth [of i] nth [of j] ij by (metis less_trans)
  qed
  show "\<forall>y \<in> set (xs @ ys). f y \<inter> f x = {}"
  proof
    fix y assume "y \<in> set (xs @ ys)"
    then consider i where "i < length xs" "y = xs ! i" | i where "i < length ys" "y = ys ! i"
      by (auto simp: in_set_conv_nth)
    then show "f y \<inter> f x = {}"
    proof cases
      case (1 i)
      then show ?thesis using assms [rule_format, of i "length xs"] by (simp add: nth_append)
    next
      case (2 i)
      then show ?thesis using assms [rule_format, of "length xs" "length xs + Suc i"]
        by (simp add: nth_append Int_commute)
    qed
  qed
qed

lemma live_inv_step: "live_inv st \<Longrightarrow> alloc_step alloc release request st st' \<Longrightarrow> live_inv st'"
proof (erule alloc_stepE)
  fix p s a p' live
  assume inv: "live_inv st" and st: "st = (p, live)" "st' = (p', (a, s) # live)"
    and req: "request p s" "alloc p s = Some (a, p')"
  from inv st have p: "inv p" "\<forall>x \<in> set live. valid p x" "used p = (\<Union>x \<in> set live. rng p x)"
    and dj: "\<forall>i j. i < j \<longrightarrow> j < length live \<longrightarrow> rng p (live ! i) \<inter> rng p (live ! j) = {}"
    by (auto simp: live_inv_def)
  note law = alloc_law [OF p(1) req]
  have "rng p (((a, s) # live) ! i) \<inter> rng p (((a, s) # live) ! j) = {}"
    if "i < j" "j < length ((a, s) # live)" for i j
  proof (cases i)
    case 0
    obtain k where "j = Suc k" using \<open>i < j\<close> by (cases j) auto
    moreover have "live ! k \<in> set live" using that \<open>j = Suc k\<close> by simp
    then have "rng p (a, s) \<inter> rng p (live ! k) = {}" using law p(3) by blast
    ultimately show ?thesis using 0 by simp
  next
    case (Suc m)
    then obtain k where "j = Suc k" using \<open>i < j\<close> by (cases j) auto
    then show ?thesis using dj Suc that by simp
  qed
  then show "live_inv st'" using law p st by (auto simp: live_inv_def)
next
  fix a s live p p'
  assume inv: "live_inv st" and st: "st = (p, live)" "st' = (p', remove1 (a, s) live)"
    and mem: "(a, s) \<in> set live" and rel: "release p a s = Ok p'"
  obtain xs ys where live: "live = xs @ (a, s) # ys" "remove1 (a, s) live = xs @ ys"
    using mem by (metis remove1_split)
  from inv st have p: "inv p" "\<forall>x \<in> set live. valid p x" "used p = (\<Union>x \<in> set live. rng p x)"
    and dj: "\<forall>i j. i < j \<longrightarrow> j < length live \<longrightarrow> rng p (live ! i) \<inter> rng p (live ! j) = {}"
    by (auto simp: live_inv_def)
  have law: "inv p'" "rng p' = rng p" "valid p' = valid p" "used p' = used p - rng p (a, s)"
    using release_law [OF p(1), of a s] p(2) mem rel by auto
  note sp = pairwise_split [of xs "(a, s)" ys "rng p", folded live(1), OF dj]
  have "used p' = (\<Union>x \<in> set (xs @ ys). rng p x)"
    using law(4) p(3) sp(2) live(1) by auto
  then show "live_inv st'" using law p sp(1) st live by (auto simp: live_inv_def)
qed

sublocale live: invariant_machine "alloc_init inv used" "alloc_step alloc release request" live_inv
proof unfold_locales
  show "live_inv s" if "alloc_init inv used s" for s
    using that by (cases s) (simp add: alloc_init_def live_inv_def)
qed (rule live_inv_step)

text \<open>The two facts a client needs: live ranges do not overlap, and a live allocation can be released.\<close>

lemma live_disjoint:
  assumes "reach (alloc_init inv used) (alloc_step alloc release request) (p, live)" "i < j" "j < length live"
  shows "rng p (live ! i) \<inter> rng p (live ! j) = {}"
  using live.reach_inv [OF assms(1)] assms(2,3) by (auto simp: live_inv_def)

lemma live_used:
  assumes "reach (alloc_init inv used) (alloc_step alloc release request) (p, live)"
  shows "used p = (\<Union>x \<in> set live. rng p x)"
  using live.reach_inv [OF assms] by (auto simp: live_inv_def)

lemma live_release:
  assumes "reach (alloc_init inv used) (alloc_step alloc release request) (p, live)" "(a, s) \<in> set live"
  shows "\<exists>p'. release p a s = Ok p'"
  using live.reach_inv [OF assms(1)] release_law [of p a s] assms(2) by (auto simp: live_inv_def)

end

end
