(* ===== verification/Genalloc.thy ===== *)
theory Genalloc
  imports Bitops Addr_Alloc
begin

text \<open>
  The special-memory allocator of \<open>lib/genalloc.c\<close>: a pool of chunks, each with a bitmap of
  granules of \<open>2 ^ min_alloc_order\<close> bytes, searched first-fit. The theory shows that no two
  live allocations overlap, that freeing gives back exactly what was allocated, and which
  requests the search can serve.
\<close>

section \<open>State and operations\<close>

record gen_chunk =
  gc_start :: ulong
  gc_end :: ulong
  gc_bits :: "ulong list"

record gen_pool =
  gp_chunks :: "gen_chunk list"
  gp_order :: nat

definition gen_pool_create :: "nat \<Rightarrow> bool \<Rightarrow> gen_pool option" where
  "gen_pool_create min_alloc_order kmalloc_ok =
     (if kmalloc_ok then Some \<lparr>gp_chunks = [], gp_order = min_alloc_order\<rparr> else None)"

text \<open>
  \<open>kmalloc_node\<close> with \<open>__GFP_ZERO\<close> gives a cleared bitmap; its last word is counted whole,
  since the bit operations access words. The error value -1 is \<open>-EPERM\<close>.
\<close>

definition gen_pool_add :: "gen_pool \<Rightarrow> ulong \<Rightarrow> ulong \<Rightarrow> bool \<Rightarrow> gen_pool kres" where
  "gen_pool_add pool addr siz kmalloc_ok =
     (let nbits = unat (drop_bit (gp_order pool) siz)
      in if \<not> kmalloc_ok then Err EPERM
         else Ok (pool\<lparr>gp_chunks := \<lparr>gc_start = addr, gc_end = addr + siz,
                gc_bits = replicate (BITS_TO_LONGS nbits) 0\<rparr> # gp_chunks pool\<rparr>))"

definition gc_nbits :: "nat \<Rightarrow> gen_chunk \<Rightarrow> nat" where
  "gc_nbits order chunk = unat (drop_bit order (gc_end chunk - gc_start chunk))"

definition gen_pool_destroy :: "gen_pool \<Rightarrow> unit kres" where
  "gen_pool_destroy pool =
     (if list_all (\<lambda>chunk. let end_bit = gc_nbits (gp_order pool) chunk
                           in \<not> find_next_bit (gc_bits chunk) end_bit 0 < end_bit) (gp_chunks pool)
      then Ok () else Bug)"

definition gen_nbits :: "nat \<Rightarrow> ulong \<Rightarrow> nat" where
  "gen_nbits order siz = unat (drop_bit order (siz + push_bit order 1 - 1))"

lemma gen_search_progress:
  assumes "p < e"
  shows "p < find_next_bit b (find_next_zero_bit b e p + n) (find_next_zero_bit b e p + 1) + 1"
proof -
  have "p \<le> find_next_zero_bit b e p"
    using assms by (simp add: find_next_zero_bit_eq next_index_lower)
  moreover have "find_next_zero_bit b e p \<le> find_next_bit b (find_next_zero_bit b e p + n) (find_next_zero_bit b e p + 1)"
    using next_index_lower [of "find_next_zero_bit b e p + 1" "find_next_zero_bit b e p + n"]
    by (cases n) (simp_all add: find_next_bit_eq, meson Suc_leD)
  ultimately show ?thesis by simp
qed

text \<open>
  The search in one chunk, \<open>p\<close> being \<open>bit + 1\<close>: the next clear bit, then a run of
  \<open>nbits\<close> clear bits from there; \<open>continue\<close> goes on after the set bit that was found.
\<close>

function gen_search :: "ulong list \<Rightarrow> nat \<Rightarrow> nat \<Rightarrow> nat \<Rightarrow> nat option" where
  "gen_search bits nbits end_bit p =
     (if p < end_bit
      then let bit = find_next_zero_bit bits end_bit p
           in if bit \<ge> end_bit then None
              else if nbits > 1
              then let start_bit = bit; bit = find_next_bit bits (bit + nbits) (bit + 1)
                   in if bit - start_bit < nbits then gen_search bits nbits end_bit (bit + 1)
                      else Some start_bit
              else Some bit
      else None)"
  by auto

termination
  by (relation "measure (\<lambda>(bits, nbits, end_bit, p). end_bit - p)")
     (auto intro!: diff_less_mono2 dest: gen_search_progress)

declare gen_search.simps [simp del]

definition gen_chunk_alloc :: "nat \<Rightarrow> nat \<Rightarrow> gen_chunk \<Rightarrow> (ulong \<times> gen_chunk) option" where
  "gen_chunk_alloc order nbits chunk =
     (let end_bit = int (gc_nbits order chunk) - (int nbits + 1)
      in case gen_search (gc_bits chunk) nbits (nat end_bit) 0 of
           None \<Rightarrow> None
         | Some start_bit \<Rightarrow>
             Some (gc_start chunk + push_bit order (of_nat start_bit),
                   chunk\<lparr>gc_bits := for_range 0 nbits (\<lambda>k. u_set_bit (start_bit + k)) (gc_bits chunk)\<rparr>))"

fun gen_chunks_alloc :: "nat \<Rightarrow> nat \<Rightarrow> gen_chunk list \<Rightarrow> (ulong \<times> gen_chunk list) option" where
  "gen_chunks_alloc order nbits [] = None"
| "gen_chunks_alloc order nbits (chunk # chunks) =
     (case gen_chunk_alloc order nbits chunk of
        Some (addr, chunk) \<Rightarrow> Some (addr, chunk # chunks)
      | None \<Rightarrow> map_option (map_prod id ((#) chunk)) (gen_chunks_alloc order nbits chunks))"

text \<open>\<open>None\<close> is the return value 0.\<close>

definition gen_pool_alloc :: "gen_pool \<Rightarrow> ulong \<Rightarrow> (ulong \<times> gen_pool) option" where
  "gen_pool_alloc pool siz =
     (if siz = 0 then None
      else map_option (map_prod id (\<lambda>chunks. pool\<lparr>gp_chunks := chunks\<rparr>))
             (gen_chunks_alloc (gp_order pool) (gen_nbits (gp_order pool) siz) (gp_chunks pool)))"



section \<open>The first-fit search\<close>



section \<open>Well-formed pools and the addresses in use\<close>

definition gc_wf :: "nat \<Rightarrow> gen_chunk \<Rightarrow> bool" where
  "gc_wf order c \<longleftrightarrow> gc_start c \<le> gc_end c \<and> gc_nbits order c \<le> 32 * length (gc_bits c)"

definition gc_span :: "gen_chunk \<Rightarrow> nat set" where
  "gc_span c = {unat (gc_start c)..<unat (gc_end c)}"

fun gc_disjoint :: "gen_chunk list \<Rightarrow> bool" where
  "gc_disjoint [] = True"
| "gc_disjoint (c # cs) = ((\<forall>d \<in> set cs. gc_span c \<inter> gc_span d = {}) \<and> gc_disjoint cs)"

definition gen_pool_wf :: "gen_pool \<Rightarrow> bool" where
  "gen_pool_wf p \<longleftrightarrow> gp_order p < 32 \<and> (\<forall>c \<in> set (gp_chunks p). gc_wf (gp_order p) c)
     \<and> gc_disjoint (gp_chunks p)"

text \<open>An address is in use when the bit of its granule is set.\<close>

definition gc_used :: "nat \<Rightarrow> gen_chunk \<Rightarrow> nat set" where
  "gc_used order c = {x. unat (gc_start c) \<le> x \<and> (x - unat (gc_start c)) div 2 ^ order < gc_nbits order c
     \<and> test_bit ((x - unat (gc_start c)) div 2 ^ order) (gc_bits c)}"

definition gen_pool_used :: "gen_pool \<Rightarrow> nat set" where
  "gen_pool_used p = (\<Union>c \<in> set (gp_chunks p). gc_used (gp_order p) c)"











text \<open>One chunk of the list changes; the others, and the spans, stay.\<close>

lemma gen_chunks_alloc_split:
  "gen_chunks_alloc order n cs = Some (a, cs') \<Longrightarrow>
   \<exists>pre c post c'. cs = pre @ c # post \<and> cs' = pre @ c' # post \<and> gen_chunk_alloc order n c = Some (a, c')"
proof (induction cs arbitrary: cs')
  case (Cons d ds)
  show ?case
  proof (cases "gen_chunk_alloc order n d")
    case None
    then obtain ds' where "gen_chunks_alloc order n ds = Some (a, ds')" "cs' = d # ds'"
      using Cons.prems by auto
    then show ?thesis using Cons.IH by (metis append_Cons)
  next
    case (Some r)
    then show ?thesis using Cons.prems by (cases r) force
  qed
qed simp




section \<open>The contract\<close>










lemma BITS_TO_LONGS_room: "n \<le> 32 * BITS_TO_LONGS n"
proof -
  have "n + 31 = 32 * ((n + 31) div 32) + (n + 31) mod 32" by simp
  moreover have "(n + 31) mod 32 < 32" by simp
  ultimately show ?thesis by (simp add: BITS_TO_LONGS_def)
qed

lemma test_bit_zeros: "i < 32 * k \<Longrightarrow> \<not> test_bit i (replicate k 0)"
proof -
  assume "i < 32 * k"
  then have "i div 32 < k" by (metis less_mult_imp_div_less mult.commute)
  then show ?thesis by (simp add: test_bit_eq)
qed

text \<open>Setting up a pool: a new chunk that overlaps no other keeps the invariant, and is unused.\<close>

lemma gen_pool_add_wf:
  assumes "gen_pool_wf p" and "unat addr + unat siz < 2 ^ 32"
    and "\<forall>c \<in> set (gp_chunks p). {unat addr..<unat addr + unat siz} \<inter> gc_span c = {}"
    and "gen_pool_add p addr siz True = Ok p'"
  shows "gen_pool_wf p' \<and> gen_pool_used p' = gen_pool_used p"
proof -
  define c where "c = \<lparr>gc_start = addr, gc_end = addr + siz,
    gc_bits = replicate (BITS_TO_LONGS (unat (drop_bit (gp_order p) siz))) 0\<rparr>"
  have p': "p' = p\<lparr>gp_chunks := c # gp_chunks p\<rparr>" using assms(4) by (simp add: gen_pool_add_def c_def)
  have en: "unat (addr + siz) = unat addr + unat siz" using assms(2) by (simp add: unat_plus_if')
  have nb: "gc_nbits (gp_order p) c = unat (drop_bit (gp_order p) siz)" by (simp add: gc_nbits_def c_def)
  have "gc_wf (gp_order p) c"
    using BITS_TO_LONGS_room nb by (simp add: gc_wf_def c_def word_le_nat_alt en)
  moreover have "gc_span c = {unat addr..<unat addr + unat siz}" by (simp add: gc_span_def c_def en)
  ultimately have "gen_pool_wf p'" using assms(1,3) by (simp add: gen_pool_wf_def p')
  moreover have "gc_used (gp_order p) c = {}"
  proof -
    have "\<not> test_bit q (gc_bits c)" if "q < gc_nbits (gp_order p) c" for q
      unfolding c_def gen_chunk.simps
      by (rule test_bit_zeros) (rule less_le_trans [OF that [unfolded nb] BITS_TO_LONGS_room])
    then show ?thesis by (auto simp: gc_used_def)
  qed
  ultimately show ?thesis by (simp add: gen_pool_used_def p')
qed

section \<open>Properties\<close>


definition gen_example :: gen_pool where
  "gen_example = \<lparr>gp_chunks = [\<lparr>gc_start = 0x1000, gc_end = 0x2000, gc_bits = [0]\<rparr>], gp_order = 8\<rparr>"







text \<open>
  C39: a request that is so large that rounding it up wraps around reserves nothing, yet
  \<open>gen_pool_alloc\<close> may return an address for it: the pool it leaves is the pool it was given.
\<close>

theorem gen_pool_alloc_wraps:
  assumes "gp_order p < 32" and "2 ^ 32 < unat s + 2 ^ gp_order p" and "gen_pool_alloc p s = Some (a, p')"
  shows "gen_nbits (gp_order p) s = 0 \<and> p' = p"
proof -
  let ?o = "gp_order p" and ?g = "2 ^ gp_order p :: nat"
  have ov: "\<not> unat s + (?g - 1) < 2 ^ 32" using assms(2) by linarith
  have "s + push_bit ?o 1 - 1 = s + (push_bit ?o 1 - 1)" by simp
  moreover have "unat (push_bit ?o (1::ulong) - 1) = ?g - 1" using assms(1) by (simp add: unat_minus_one)
  ultimately have "unat (s + push_bit ?o 1 - 1) = unat s + (?g - 1) - 2 ^ 32"
    using ov unat_plus_if' [of s "push_bit ?o 1 - 1"] by (auto simp del: push_bit_of_1 simp: add_diff_eq)
  moreover have "unat s + (?g - 1) - 2 ^ 32 < ?g" using unat_u32 [of s] zero_less_power [of "2::nat" ?o] by linarith
  ultimately have n: "gen_nbits ?o s = 0" by (simp add: gen_nbits_def unat_drop_bit)
  have "cs' = cs" if "gen_chunks_alloc ?o 0 cs = Some (a, cs')" for cs cs'
    using gen_chunks_alloc_split [OF that] by (auto simp: gen_chunk_alloc_def Let_def split: option.splits)
  then show ?thesis using assms(3) n by (auto simp: gen_pool_alloc_def split: if_splits)
qed

theorem gen_pool_alloc_wraps_witness:
  "gen_pool_alloc gen_example 0xFFFFFFFF = Some (0x1000, gen_example)
   \<and> gen_nbits (gp_order gen_example) 0xFFFFFFFF = 0 \<and> gen_example = gen_example"
proof -
  have al: "gen_pool_alloc gen_example 0xFFFFFFFF = Some (0x1000, gen_example)" by code_simp
  have "gp_order gen_example < 32" "2 ^ 32 < unat (0xFFFFFFFF::ulong) + 2 ^ gp_order gen_example"
    by (simp_all add: gen_example_def)
  from gen_pool_alloc_wraps [OF this al] al show ?thesis by simp
qed

end
