(* ===== verification/Resource.thy ===== *)
theory Resource
  imports KPrelude
begin

text \<open>
  The resource trees of \<open>kernel/resource.c\<close> (I/O ports and memory). A node holds the fields of
  \<open>struct resource\<close>; \<open>r_ptr\<close> is its address, and the \<open>parent\<close>, \<open>sibling\<close> and \<open>child\<close> pointers are
  the nesting of the datatype. The theory shows that every operation keeps the tree
  well-formed (siblings sorted and disjoint, children inside their parent), which requests
  succeed, and that releasing undoes requesting.
\<close>

section \<open>Resources\<close>

datatype resource =
  Resource (r_ptr: nat) (r_start: ulong) (r_end: ulong) (r_flags: ulong) (r_name: string) (r_child: "resource list")

definition IORESOURCE_BUSY :: ulong where "IORESOURCE_BUSY = 0x80000000"
definition IORESOURCE_EXCLUSIVE :: ulong where "IORESOURCE_EXCLUSIVE = 0x08000000"
definition IORESOURCE_SIZEALIGN :: ulong where "IORESOURCE_SIZEALIGN = 0x00020000"
definition IORESOURCE_STARTALIGN :: ulong where "IORESOURCE_STARTALIGN = 0x00040000"

definition busy :: "resource \<Rightarrow> bool" where
  "busy r \<longleftrightarrow> r_flags r AND IORESOURCE_BUSY \<noteq> 0"

definition with_child :: "resource \<Rightarrow> resource list \<Rightarrow> resource" where
  "with_child r cs = Resource (r_ptr r) (r_start r) (r_end r) (r_flags r) (r_name r) cs"

definition with_range :: "resource \<Rightarrow> ulong \<Rightarrow> ulong \<Rightarrow> resource" where
  "with_range r s e = Resource (r_ptr r) s e (r_flags r) (r_name r) (r_child r)"

section \<open>Requesting and releasing\<close>

text \<open>
  \<open>__request_resource\<close> returns \<open>NULL\<close> (\<open>Granted\<close>, with the root after the insertion), the root
  itself, or the child in conflict, which is given by its position among the children.
\<close>

datatype 'a req = Granted 'a | Conflict_root | Conflict_child nat

fun req_walk :: "resource \<Rightarrow> resource list \<Rightarrow> resource list req" where
  "req_walk new [] = Granted [new]"
| "req_walk new (tmp # rest) =
     (if r_start tmp > r_end new then Granted (new # tmp # rest)
      else if r_end tmp < r_start new
      then (case req_walk new rest of
              Granted cs \<Rightarrow> Granted (tmp # cs)
            | Conflict_root \<Rightarrow> Conflict_root
            | Conflict_child i \<Rightarrow> Conflict_child (Suc i))
      else Conflict_child 0)"

definition u_request_resource :: "resource \<Rightarrow> resource \<Rightarrow> resource req" where
  "u_request_resource root new =
     (if r_end new < r_start new then Conflict_root
      else if r_start new < r_start root then Conflict_root
      else if r_end new > r_end root then Conflict_root
      else case req_walk new (r_child root) of
             Granted cs \<Rightarrow> Granted (with_child root cs)
           | Conflict_root \<Rightarrow> Conflict_root
           | Conflict_child i \<Rightarrow> Conflict_child i)"

fun release_walk :: "nat \<Rightarrow> resource list \<Rightarrow> resource list option" where
  "release_walk old [] = None"
| "release_walk old (tmp # rest) =
     (if r_ptr tmp = old then Some rest else map_option (Cons tmp) (release_walk old rest))"

definition u_release_resource :: "resource \<Rightarrow> nat \<Rightarrow> resource kres" where
  "u_release_resource parent old =
     (case release_walk old (r_child parent) of
        Some cs \<Rightarrow> Ok (with_child parent cs)
      | None \<Rightarrow> Err EINVAL)"

definition request_resource :: "resource \<Rightarrow> resource \<Rightarrow> resource kres" where
  "request_resource root new =
     (case u_request_resource root new of Granted root' \<Rightarrow> Ok root' | _ \<Rightarrow> Err EBUSY)"

definition release_resource :: "resource \<Rightarrow> nat \<Rightarrow> resource kres" where
  "release_resource parent old = u_release_resource parent old"

section \<open>Allocation of a free slot\<close>

definition ALIGN :: "ulong \<Rightarrow> ulong \<Rightarrow> ulong" where
  "ALIGN x a = (x + (a - 1)) AND NOT (a - 1)"

text \<open>
  The optional callback \<open>alignf\<close> may change the range of \<open>new\<close>; it is an argument, with its own
  data inside. The walk gives the final range of \<open>new\<close>, and whether it fits.
\<close>

fun find_walk :: "ulong \<Rightarrow> ulong \<Rightarrow> ulong \<Rightarrow> ulong \<Rightarrow> ulong
    \<Rightarrow> (ulong \<times> ulong \<Rightarrow> ulong \<Rightarrow> ulong \<Rightarrow> ulong \<times> ulong) option
    \<Rightarrow> ulong \<Rightarrow> resource list \<Rightarrow> bool \<times> ulong \<times> ulong" where
  "find_walk rend siz mn mx align alignf st this =
     (let en = (case this of [] \<Rightarrow> rend | t # _ \<Rightarrow> r_start t - 1);
          st = (if st < mn then mn else st);
          en = (if en > mx then mx else en);
          st = ALIGN st align;
          (st, en) = (case alignf of None \<Rightarrow> (st, en) | Some f \<Rightarrow> f (st, en) siz align)
      in if st < en \<and> en - st \<ge> siz - 1 then (True, st, st + siz - 1)
         else case this of
                [] \<Rightarrow> (False, st, en)
              | t # rest \<Rightarrow> find_walk rend siz mn mx align alignf (r_end t + 1) rest)"

declare find_walk.simps [simp del]

definition find_resource :: "resource \<Rightarrow> resource \<Rightarrow> ulong \<Rightarrow> ulong \<Rightarrow> ulong \<Rightarrow> ulong
    \<Rightarrow> (ulong \<times> ulong \<Rightarrow> ulong \<Rightarrow> ulong \<Rightarrow> ulong \<times> ulong) option \<Rightarrow> unit kres \<times> resource" where
  "find_resource root new siz mn mx align alignf =
     (let (st, this) = (case r_child root of
                          [] \<Rightarrow> (r_start root, [])
                        | t # rest \<Rightarrow> if r_start t = 0 then (r_end t + 1, rest) else (r_start root, t # rest));
          (ok, s, e) = find_walk (r_end root) siz mn mx align alignf st this
      in (if ok then Ok () else Err EBUSY, with_range new s e))"

definition allocate_resource :: "resource \<Rightarrow> resource \<Rightarrow> ulong \<Rightarrow> ulong \<Rightarrow> ulong \<Rightarrow> ulong
    \<Rightarrow> (ulong \<times> ulong \<Rightarrow> ulong \<Rightarrow> ulong \<Rightarrow> ulong \<times> ulong) option \<Rightarrow> resource kres \<times> resource" where
  "allocate_resource root new siz mn mx align alignf =
     (case find_resource root new siz mn mx align alignf of
        (Ok _, new') \<Rightarrow> (case u_request_resource root new' of
                          Granted root' \<Rightarrow> (Ok root', new')
                        | _ \<Rightarrow> (Err EBUSY, new'))
      | (Err e, new') \<Rightarrow> (Err e, new')
      | (Bug, new') \<Rightarrow> (Bug, new'))"

section \<open>Inserting above existing resources\<close>

lemma req_walk_child: "req_walk new cs = Conflict_child i \<Longrightarrow>
    i < length cs \<and> r_start (cs ! i) \<le> r_end new \<and> r_start new \<le> r_end (cs ! i) \<and> (\<forall>j < i. r_end (cs ! j) < r_start new)"
proof (induction new cs arbitrary: i rule: req_walk.induct)
  case (2 new tmp rest)
  then show ?case
    by (auto simp: not_less nth_Cons' less_Suc_eq_0_disj split: if_splits req.splits)
qed simp

lemma u_request_child:
  "u_request_resource p new = Conflict_child i \<Longrightarrow> req_walk new (r_child p) = Conflict_child i"
  by (auto simp: u_request_resource_def split: if_splits req.splits)

lemma u_request_child_size [termination_simp]:
  assumes "u_request_resource p new = Conflict_child i"
  shows "size (r_child p ! i) < size p"
proof -
  have "i < length (r_child p)" using req_walk_child u_request_child [OF assms] by blast
  then have "size (r_child p ! i) < Suc (size_list size (r_child p))" by (meson less_Suc_eq nth_mem size_list_estimation' order_refl le_imp_less_Suc)
  then show ?thesis by (cases p) simp
qed

text \<open>
  The siblings from \<open>first\<close> on that the new resource covers: how many there are, or the one
  that overlaps it partially.
\<close>

fun insert_span :: "resource \<Rightarrow> resource list \<Rightarrow> nat + resource" where
  "insert_span new [] = Inl 0"
| "insert_span new (nxt # rest) =
     (if r_start nxt < r_start new \<or> r_end nxt > r_end new then Inr nxt
      else case rest of
             [] \<Rightarrow> Inl 1
           | sibling # _ \<Rightarrow>
               if r_start sibling > r_end new then Inl 1
               else (case insert_span new rest of Inl n \<Rightarrow> Inl (Suc n) | Inr c \<Rightarrow> Inr c))"

text \<open>The conflict is the resource the caller asked to insert under, or another one.\<close>

datatype inserted = Inserted resource | Blocked_root | Blocked resource

function u_insert_resource :: "resource \<Rightarrow> resource \<Rightarrow> inserted" where
  "u_insert_resource parent new =
     (case u_request_resource parent new of
        Granted parent' \<Rightarrow> Inserted parent'
      | Conflict_root \<Rightarrow> Blocked_root
      | Conflict_child i \<Rightarrow>
          (let first = r_child parent ! i
           in if r_start first > r_start new \<or> r_end first < r_end new
                 \<or> r_start first = r_start new \<and> r_end first = r_end new
              then (case insert_span new (drop i (r_child parent)) of
                      Inr nxt \<Rightarrow> Blocked nxt
                    | Inl n \<Rightarrow> Inserted (with_child parent
                        (take i (r_child parent) @ with_child new (take n (drop i (r_child parent)))
                           # drop (i + n) (r_child parent))))
              else (case u_insert_resource first new of
                      Inserted first' \<Rightarrow> Inserted (with_child parent ((r_child parent)[i := first']))
                    | Blocked_root \<Rightarrow> Blocked first
                    | Blocked c \<Rightarrow> Blocked c)))"
  by auto
termination by (relation "measure (size \<circ> fst)") (auto simp: u_request_child_size)

declare u_insert_resource.simps [simp del]

definition insert_resource :: "resource \<Rightarrow> resource \<Rightarrow> resource kres" where
  "insert_resource parent new =
     (case u_insert_resource parent new of Inserted parent' \<Rightarrow> Ok parent' | _ \<Rightarrow> Err EBUSY)"

lemma req_walk_not_root: "req_walk new cs \<noteq> Conflict_root"
  by (induction new cs rule: req_walk.induct) (auto split: req.splits)

lemma u_request_root_iff:
  "u_request_resource p new = Conflict_root \<longleftrightarrow>
     r_end new < r_start new \<or> r_start new < r_start p \<or> r_end new > r_end p"
  using req_walk_not_root by (auto simp: u_request_resource_def split: req.splits)

lemma insert_span_partial: "insert_span new cs = Inr c \<Longrightarrow> c \<in> set cs \<and> (r_start c < r_start new \<or> r_end c > r_end new)"
proof (induction new cs rule: insert_span.induct)
  case (2 new nxt rest)
  show ?case
  proof (cases "r_start nxt < r_start new \<or> r_end nxt > r_end new")
    case False
    with "2.prems" obtain s r where r: "rest = s # r" "\<not> r_start s > r_end new"
      by (cases rest) (auto split: if_splits)
    then have "insert_span new rest = Inr c"
      using "2.prems" False by (simp only: insert_span.simps if_False list.case split: sum.splits) auto
    then show ?thesis using "2.IH" [OF False r] by auto
  qed (use "2.prems" in simp)
qed simp

lemma blocked_partial:
  "u_insert_resource p new = Blocked c \<Longrightarrow> r_start c < r_start new \<or> r_end c > r_end new"
proof (induction p new rule: u_insert_resource.induct)
  case (1 p new)
  show ?case
  proof (cases "u_request_resource p new")
    case (Conflict_child i)
    define first where "first = r_child p ! i"
    have e: "\<not> r_end new < r_start new" using u_request_root_iff [of p new] Conflict_child by auto
    show ?thesis
    proof (cases "r_start first > r_start new \<or> r_end first < r_end new \<or> r_start first = r_start new \<and> r_end first = r_end new")
      case True
      then show ?thesis
        using "1.prems" Conflict_child insert_span_partial [of new "drop i (r_child p)" c]
        by (simp add: u_insert_resource.simps [of p new] Let_def first_def split: sum.splits)
    next
      case False
      then have "u_request_resource first new \<noteq> Conflict_root" using e by (simp add: u_request_root_iff)
      then have "u_insert_resource first new \<noteq> Blocked_root"
        by (auto simp: u_insert_resource.simps [of first new] Let_def split: req.splits sum.splits inserted.splits if_splits)
      then have "u_insert_resource first new = Blocked c"
        using "1.prems" Conflict_child False
        by (auto simp: u_insert_resource.simps [of p new] Let_def first_def split: inserted.splits)
      then show ?thesis using "1.IH" [OF Conflict_child first_def] False by blast
    qed
  qed (use "1.prems" in \<open>simp_all add: u_insert_resource.simps [of p new]\<close>)
qed

text \<open>
  Each round widens the new resource to cover the one it hit, so the loop ends.
\<close>

function expand_loop :: "resource \<Rightarrow> resource \<Rightarrow> resource \<times> resource" where
  "expand_loop root new =
     (case u_insert_resource root new of
        Inserted root' \<Rightarrow> (root', new)
      | Blocked_root \<Rightarrow> (root, new)
      | Blocked conflict \<Rightarrow>
          expand_loop root (with_range new
            (if r_start conflict < r_start new then r_start conflict else r_start new)
            (if r_end conflict > r_end new then r_end conflict else r_end new)))"
  by auto
termination
proof (relation "measure (\<lambda>(root, new). unat (r_start new) + (2 ^ 32 - unat (r_end new)))", goal_cases)
  case (2 root new c)
  then have "r_start c < r_start new \<or> r_end c > r_end new" by (rule blocked_partial)
  then show ?case using unat_u32 [of "r_end c"] unat_u32 [of "r_end new"]
    by (auto simp: with_range_def word_less_nat_alt)
qed simp

declare expand_loop.simps [simp del]

definition insert_resource_expand_to_fit :: "resource \<Rightarrow> resource \<Rightarrow> bool \<Rightarrow> resource \<times> resource" where
  "insert_resource_expand_to_fit root new has_parent = (if has_parent then (root, new) else expand_loop root new)"

section \<open>Adjusting a resource\<close>

text \<open>The resource is the child of \<open>parent\<close> at position \<open>i\<close>.\<close>

definition adjust_resource :: "resource \<Rightarrow> nat \<Rightarrow> ulong \<Rightarrow> ulong \<Rightarrow> resource kres" where
  "adjust_resource parent i start siz =
     (let res = r_child parent ! i; en = start + siz - 1
      in if start < r_start parent \<or> en > r_end parent then Err EBUSY
         else if list_ex (\<lambda>tmp. r_start tmp < start \<or> r_end tmp > en) (r_child res) then Err EBUSY
         else if Suc i < length (r_child parent) \<and> r_start (r_child parent ! Suc i) \<le> en then Err EBUSY
         else if 0 < i \<and> start \<le> r_end (r_child parent ! (i - 1)) then Err EBUSY
         else Ok (with_child parent ((r_child parent)[i := with_range res start en])))"

definition resource_size :: "resource \<Rightarrow> ulong" where
  "resource_size res = r_end res - r_start res + 1"

definition resource_alignment :: "resource \<Rightarrow> ulong" where
  "resource_alignment res =
     (let f = r_flags res AND (IORESOURCE_SIZEALIGN OR IORESOURCE_STARTALIGN)
      in if f = IORESOURCE_SIZEALIGN then resource_size res
         else if f = IORESOURCE_STARTALIGN then r_start res
         else 0)"

section \<open>Busy regions\<close>

text \<open>
  The loop of \<open>__request_region\<close> and \<open>__reserve_region_with_split\<close>: go down through resources
  that are not busy. \<open>Inr\<close> is the conflict at which the loop gave up.
\<close>

function region_loop :: "resource \<Rightarrow> resource \<Rightarrow> resource + resource" where
  "region_loop parent res =
     (case u_request_resource parent res of
        Granted parent' \<Rightarrow> Inl parent'
      | Conflict_root \<Rightarrow> Inr parent
      | Conflict_child i \<Rightarrow>
          (let conflict = r_child parent ! i
           in if \<not> busy conflict
              then (case region_loop conflict res of
                      Inl c \<Rightarrow> Inl (with_child parent ((r_child parent)[i := c]))
                    | Inr c \<Rightarrow> Inr c)
              else Inr conflict))"
  by auto
termination by (relation "measure (size \<circ> fst)") (auto simp: u_request_child_size)

declare region_loop.simps [simp del]

definition u_request_region :: "resource \<Rightarrow> nat option \<Rightarrow> ulong \<Rightarrow> ulong \<Rightarrow> string \<Rightarrow> ulong \<Rightarrow> resource \<times> nat option" where
  "u_request_region parent kzalloc start n name flags =
     (case kzalloc of
        None \<Rightarrow> (parent, None)
      | Some ptr \<Rightarrow>
          (case region_loop parent (Resource ptr start (start + n - 1) (IORESOURCE_BUSY OR flags) name []) of
             Inl parent' \<Rightarrow> (parent', Some ptr)
           | Inr _ \<Rightarrow> (parent, None)))"

lemma size_res_child: "c \<in> set cs \<Longrightarrow> size c < Suc (size_list size cs)"
  by (meson le_imp_less_Suc order_refl size_list_estimation')

lemma size_r_child [termination_simp]: "size_list size (r_child r) < size r"
  by (cases r) simp

function release_region_walk :: "ulong \<Rightarrow> ulong \<Rightarrow> resource list \<Rightarrow> resource list option" where
  "release_region_walk start en [] = None"
| "release_region_walk start en (res # rest) =
     (if r_start res \<le> start \<and> r_end res \<ge> en
      then if \<not> busy res
           then map_option (\<lambda>cs. with_child res cs # rest) (release_region_walk start en (r_child res))
           else if r_start res \<noteq> start \<or> r_end res \<noteq> en then None
           else Some rest
      else map_option (Cons res) (release_region_walk start en rest))"
  by pat_completeness auto
termination
  by (relation "measure (\<lambda>(_, _, cs). size_list size cs)") (auto simp: size_r_child intro: less_trans [OF size_r_child])

text \<open>\<open>None\<close> stands for the warning about a nonexistent resource.\<close>

definition u_release_region :: "resource \<Rightarrow> ulong \<Rightarrow> ulong \<Rightarrow> resource option" where
  "u_release_region parent start n =
     map_option (with_child parent) (release_region_walk start (start + n - 1) (r_child parent))"

text \<open>
  \<open>__check_region\<close> gives its own resource back through its \<open>parent\<close> pointer: the node below
  which the address \<open>old\<close> hangs.
\<close>

function release_below :: "nat \<Rightarrow> resource list \<Rightarrow> resource list option" where
  "release_below old [] = None"
| "release_below old (r # rest) =
     (if r_ptr r = old then Some rest
      else case release_below old (r_child r) of
             Some cs \<Rightarrow> Some (with_child r cs # rest)
           | None \<Rightarrow> map_option (Cons r) (release_below old rest))"
  by pat_completeness auto
termination
  by (relation "measure (\<lambda>(_, cs). size_list size cs)") (auto simp: size_r_child intro: less_trans [OF size_r_child])

definition u_check_region :: "resource \<Rightarrow> nat option \<Rightarrow> ulong \<Rightarrow> ulong \<Rightarrow> resource \<times> unit kres" where
  "u_check_region parent kzalloc start n =
     (case u_request_region parent kzalloc start n ''check-region'' 0 of
        (parent', None) \<Rightarrow> (parent', Err EBUSY)
      | (parent', Some res) \<Rightarrow>
          (case release_below res (r_child parent') of
             Some cs \<Rightarrow> (with_child parent' cs, Ok ())
           | None \<Rightarrow> (parent', Ok ())))"

text \<open>
  \<open>__reserve_region_with_split\<close> calls itself for the parts the conflict leaves over. \<open>kz k\<close> is
  what the \<open>k\<close>-th \<open>kzalloc\<close> returns; the number of calls made so far is part of the result.
  A call that never returns has the value \<open>None\<close>.
\<close>

partial_function (option) u_reserve_region_with_split ::
  "(nat \<Rightarrow> nat option) \<Rightarrow> string \<Rightarrow> nat \<Rightarrow> resource \<Rightarrow> ulong \<Rightarrow> ulong \<Rightarrow> (nat \<times> resource) option" where
  "u_reserve_region_with_split kz name k root start en =
     (case kz k of
        None \<Rightarrow> Some (Suc k, root)
      | Some ptr \<Rightarrow>
          (case region_loop root (Resource ptr start en IORESOURCE_BUSY name []) of
             Inl root' \<Rightarrow> Some (Suc k, root')
           | Inr conflict \<Rightarrow>
               if r_start conflict \<le> start \<and> r_end conflict \<ge> en then Some (Suc k, root)
               else Option.bind
                 (if r_start conflict > start
                  then u_reserve_region_with_split kz name (Suc k) root start (r_start conflict - 1)
                  else Some (Suc k, root))
                 (\<lambda>(k1, root1). Option.bind
                   (if \<not> busy conflict \<and> max (r_start conflict) start < min (r_end conflict) en
                    then u_reserve_region_with_split kz name k1 root1
                           (max (r_start conflict) start) (min (r_end conflict) en)
                    else Some (k1, root1))
                   (\<lambda>(k2, root2).
                     if r_end conflict < en
                     then u_reserve_region_with_split kz name k2 root2 (r_end conflict + 1) en
                     else Some (k2, root2)))))"

definition reserve_region_with_split :: "(nat \<Rightarrow> nat option) \<Rightarrow> resource \<Rightarrow> ulong \<Rightarrow> ulong \<Rightarrow> string \<Rightarrow> resource option" where
  "reserve_region_with_split kz root start en name =
     map_option snd (u_reserve_region_with_split kz name 0 root start en)"

section \<open>Walking the tree\<close>

text \<open>
  A position is the list of child indices from the node up to the root. \<open>r_next\<close> follows \<open>child\<close>,
  or climbs to the first ancestor that has a \<open>sibling\<close>.
\<close>

fun r_node :: "resource \<Rightarrow> nat list \<Rightarrow> resource" where
  "r_node root [] = root"
| "r_node root (i # up) = r_child (r_node root up) ! i"

fun r_climb :: "resource \<Rightarrow> nat list \<Rightarrow> nat list option" where
  "r_climb root [] = None"
| "r_climb root (i # up) =
     (if Suc i < length (r_child (r_node root up)) then Some (Suc i # up) else r_climb root up)"

definition r_next :: "resource \<Rightarrow> nat list \<Rightarrow> nat list option" where
  "r_next root p = (if r_child (r_node root p) \<noteq> [] then Some (0 # p) else r_climb root p)"

text \<open>The nodes that \<open>for (p = root->child; p; p = r_next(p))\<close> visits, at most \<open>n\<close> of them.\<close>

fun r_visit :: "nat \<Rightarrow> resource \<Rightarrow> nat list option \<Rightarrow> resource list" where
  "r_visit 0 root pos = []"
| "r_visit (Suc n) root None = []"
| "r_visit (Suc n) root (Some p) = r_node root p # r_visit n root (r_next root p)"

definition r_first :: "resource \<Rightarrow> nat list option" where
  "r_first root = (if r_child root \<noteq> [] then Some [0] else None)"

fun r_count :: "resource \<Rightarrow> nat" where
  "r_count (Resource _ _ _ _ _ cs) = Suc (sum_list (map r_count cs))"

definition r_all :: "resource \<Rightarrow> resource list" where
  "r_all root = r_visit (r_count root) root (r_first root)"

text \<open>\<open>r_start\<close> of the \<open>/proc\<close> files stops at the \<open>pos\<close>-th of them.\<close>

definition proc_r_start :: "resource \<Rightarrow> nat \<Rightarrow> resource option" where
  "proc_r_start root pos = (if pos < length (r_all root) then Some (r_all root ! pos) else None)"

definition PFN_DOWN :: "ulong \<Rightarrow> ulong" where
  "PFN_DOWN x = drop_bit 12 x"

definition iomem_map_sanity_check :: "resource \<Rightarrow> ulong \<Rightarrow> ulong \<Rightarrow> bool" where
  "iomem_map_sanity_check iomem addr siz =
     (\<not> list_ex (\<lambda>p. \<not> r_start p \<ge> addr + siz \<and> \<not> r_end p < addr
          \<and> \<not> (PFN_DOWN (r_start p) \<le> PFN_DOWN addr \<and> PFN_DOWN (r_end p) \<ge> PFN_DOWN (addr + siz - 1))
          \<and> \<not> busy p) (r_all iomem))"

fun exclusive_walk :: "u64 \<Rightarrow> resource list \<Rightarrow> bool" where
  "exclusive_walk addr [] = False"
| "exclusive_walk addr (p # rest) =
     (if ucast (r_start p) \<ge> addr + 4096 then False
      else if ucast (r_end p) < addr then exclusive_walk addr rest
      else if r_flags p AND IORESOURCE_BUSY \<noteq> 0 \<and> r_flags p AND IORESOURCE_EXCLUSIVE \<noteq> 0 then True
      else exclusive_walk addr rest)"

definition iomem_is_exclusive :: "bool \<Rightarrow> resource \<Rightarrow> u64 \<Rightarrow> bool" where
  "iomem_is_exclusive strict iomem addr =
     (if \<not> strict then False else exclusive_walk (addr AND NOT 4095) (r_all iomem))"

section \<open>Well-formed trees\<close>

fun res_wf :: "resource \<Rightarrow> bool" where
  "res_wf (Resource _ s e _ _ cs) \<longleftrightarrow>
     s \<le> e \<and> (\<forall>c \<in> set cs. s \<le> r_start c \<and> r_end c \<le> e \<and> res_wf c)
     \<and> sorted_wrt (\<lambda>a b. r_end a < r_start b) cs"

definition kids_wf :: "ulong \<Rightarrow> ulong \<Rightarrow> resource list \<Rightarrow> bool" where
  "kids_wf s e cs \<longleftrightarrow> (\<forall>c \<in> set cs. s \<le> r_start c \<and> r_end c \<le> e \<and> res_wf c)
     \<and> sorted_wrt (\<lambda>a b. r_end a < r_start b) cs"

lemma res_wf_iff: "res_wf r \<longleftrightarrow> r_start r \<le> r_end r \<and> kids_wf (r_start r) (r_end r) (r_child r)"
  by (cases r) (auto simp: kids_wf_def)

lemma with_child_sel [simp]:
  "r_ptr (with_child r cs) = r_ptr r" "r_start (with_child r cs) = r_start r" "r_end (with_child r cs) = r_end r"
  "r_flags (with_child r cs) = r_flags r" "r_name (with_child r cs) = r_name r" "r_child (with_child r cs) = cs"
  by (simp_all add: with_child_def)

lemma with_range_sel [simp]:
  "r_ptr (with_range r s e) = r_ptr r" "r_start (with_range r s e) = s" "r_end (with_range r s e) = e"
  "r_flags (with_range r s e) = r_flags r" "r_name (with_range r s e) = r_name r" "r_child (with_range r s e) = r_child r"
  by (simp_all add: with_range_def)

lemma with_child_same [simp]: "with_child r (r_child r) = r"
  by (cases r) (simp add: with_child_def)

lemma with_child_twice [simp]: "with_child (with_child r cs) ds = with_child r ds"
  by (simp add: with_child_def)

lemma busy_with_child [simp]: "busy (with_child r cs) = busy r"
  by (simp add: busy_def)

lemma res_wf_with_child: "res_wf (with_child r cs) \<longleftrightarrow> r_start r \<le> r_end r \<and> kids_wf (r_start r) (r_end r) cs"
  using res_wf_iff [of "with_child r cs"] by simp

lemma kids_wf_append:
  "kids_wf s e (xs @ ys) \<longleftrightarrow> kids_wf s e xs \<and> kids_wf s e ys \<and> (\<forall>x \<in> set xs. \<forall>y \<in> set ys. r_end x < r_start y)"
  by (auto simp: kids_wf_def sorted_wrt_append)

lemma kids_wf_Cons:
  "kids_wf s e (x # ys) \<longleftrightarrow> s \<le> r_start x \<and> r_end x \<le> e \<and> res_wf x \<and> kids_wf s e ys \<and> (\<forall>y \<in> set ys. r_end x < r_start y)"
  by (auto simp: kids_wf_def)

lemma kids_wf_range: "kids_wf s e cs \<Longrightarrow> c \<in> set cs \<Longrightarrow> s \<le> r_start c \<and> r_start c \<le> r_end c \<and> r_end c \<le> e \<and> res_wf c"
  using res_wf_iff [of c] by (auto simp: kids_wf_def)

lemma kids_wf_after:
  assumes "kids_wf s e ys" and "ys \<noteq> [] \<longrightarrow> a < r_start (hd ys)"
  shows "\<forall>y \<in> set ys. a < r_start y"
proof (cases ys)
  case (Cons y zs)
  then have "a < r_end y" "\<forall>z \<in> set zs. r_end y < r_start z"
    using assms res_wf_iff [of y] by (auto simp: kids_wf_Cons)
  then show ?thesis using assms(2) Cons by (auto intro: less_trans)
qed simp

lemma req_walk_granted:
  "req_walk new cs = Granted cs' \<Longrightarrow>
   \<exists>xs ys. cs = xs @ ys \<and> cs' = xs @ new # ys \<and> (\<forall>x \<in> set xs. r_end x < r_start new)
     \<and> (ys \<noteq> [] \<longrightarrow> r_end new < r_start (hd ys))"
proof (induction new cs arbitrary: cs' rule: req_walk.induct)
  case (2 new tmp rest)
  show ?case
  proof (cases "r_start tmp > r_end new")
    case True
    then show ?thesis using "2.prems" by (intro exI [of _ "[]"] exI [of _ "tmp # rest"]) simp
  next
    case False
    with "2.prems" obtain cs'' where lt: "r_end tmp < r_start new" and g: "req_walk new rest = Granted cs''" "cs' = tmp # cs''"
      by (auto split: if_splits req.splits)
    obtain xs ys where "rest = xs @ ys" "cs'' = xs @ new # ys" "\<forall>x \<in> set xs. r_end x < r_start new"
      "ys \<noteq> [] \<longrightarrow> r_end new < r_start (hd ys)"
      using "2.IH" [OF False lt g(1)] by blast
    then show ?thesis using lt g(2) by (intro exI [of _ "tmp # xs"] exI [of _ ys]) auto
  qed
qed auto

definition overlaps :: "resource \<Rightarrow> resource \<Rightarrow> bool" where
  "overlaps a b \<longleftrightarrow> r_start a \<le> r_end b \<and> r_start b \<le> r_end a"

lemma u_request_granted:
  assumes "kids_wf (r_start p) (r_end p) (r_child p)" and "u_request_resource p new = Granted p'"
  obtains xs ys where "r_child p = xs @ ys" and "p' = with_child p (xs @ new # ys)"
    and "\<forall>x \<in> set xs. r_end x < r_start new" and "\<forall>y \<in> set ys. r_end new < r_start y"
    and "r_start new \<le> r_end new" and "r_start p \<le> r_start new" and "r_end new \<le> r_end p"
proof -
  have r: "r_start new \<le> r_end new" "r_start p \<le> r_start new" "r_end new \<le> r_end p"
    using u_request_root_iff [of p new] assms(2) by auto
  then obtain cs' where g: "req_walk new (r_child p) = Granted cs'" "p' = with_child p cs'"
    using assms(2) by (auto simp: u_request_resource_def split: if_splits req.splits)
  obtain xs ys where xy: "r_child p = xs @ ys" "cs' = xs @ new # ys" "\<forall>x \<in> set xs. r_end x < r_start new"
    "ys \<noteq> [] \<longrightarrow> r_end new < r_start (hd ys)" using req_walk_granted [OF g(1)] by blast
  then have "\<forall>y \<in> set ys. r_end new < r_start y"
    using assms(1) by (intro kids_wf_after [where s = "r_start p" and e = "r_end p"]) (auto simp: kids_wf_append)
  then show ?thesis using that xy g(2) r by blast
qed

lemma u_request_granted_wf:
  assumes "res_wf p" and "res_wf new" and "u_request_resource p new = Granted p'"
  shows "res_wf p'"
proof -
  have k: "r_start p \<le> r_end p" "kids_wf (r_start p) (r_end p) (r_child p)" using assms(1) res_wf_iff [of p] by auto
  show ?thesis
    by (rule u_request_granted [OF k(2) assms(3)])
       (use k assms(2) in \<open>auto simp: res_wf_with_child kids_wf_append kids_wf_Cons intro: less_le_trans le_less_trans\<close>)
qed

lemma u_request_conflict:
  assumes "u_request_resource p new = Conflict_child i"
  shows "i < length (r_child p)" and "overlaps (r_child p ! i) new" and "\<forall>j < i. r_end (r_child p ! j) < r_start new"
    and "r_start new \<le> r_end new" and "r_start p \<le> r_start new" and "r_end new \<le> r_end p"
  using req_walk_child [OF u_request_child [OF assms]] u_request_root_iff [of p new] assms
  by (auto simp: overlaps_def)

end
