(* ===== verification/Resource_Tree.thy ===== *)
theory Resource_Tree
  imports Resource
begin

text \<open>
  The laws of the resource tree operations of \<open>Resource\<close>: what each operation does to the set of
  resources of a tree and to its well-formedness.
\<close>

section \<open>The resources of a tree\<close>

type_synonym res_item = "nat \<times> ulong \<times> ulong \<times> ulong \<times> string"

definition item :: "resource \<Rightarrow> res_item" where
  "item r = (r_ptr r, r_start r, r_end r, r_flags r, r_name r)"

fun res_pre :: "resource \<Rightarrow> resource list" where
  "res_pre (Resource p s e f n cs) = Resource p s e f n cs # concat (map res_pre cs)"

definition res_below :: "resource list \<Rightarrow> resource list" where
  "res_below cs = concat (map res_pre cs)"

definition res_items :: "resource \<Rightarrow> res_item multiset" where
  "res_items r = image_mset item (mset (res_pre r))"

definition kids_items :: "resource list \<Rightarrow> res_item multiset" where
  "kids_items cs = image_mset item (mset (res_below cs))"

lemma res_pre_eq: "res_pre r = r # res_below (r_child r)"
  by (cases r) (simp add: res_below_def)

lemma item_with_child [simp]: "item (with_child r cs) = item r"
  by (simp add: item_def)

lemma res_items_eq: "res_items r = add_mset (item r) (kids_items (r_child r))"
  by (simp add: res_items_def kids_items_def res_pre_eq)

lemma res_items_with_child [simp]: "res_items (with_child r cs) = add_mset (item r) (kids_items cs)"
  using res_items_eq [of "with_child r cs"] by simp

lemma kids_items_simps [simp]:
  "kids_items [] = {#}" "kids_items (c # cs) = res_items c + kids_items cs"
  "kids_items (xs @ ys) = kids_items xs + kids_items ys"
  by (simp_all add: kids_items_def res_items_def res_below_def)

lemma res_below_simps [simp]:
  "res_below [] = []" "res_below (c # cs) = res_pre c @ res_below cs" "res_below (xs @ ys) = res_below xs @ res_below ys"
  by (simp_all add: res_below_def)

lemma set_res_below: "set (res_below cs) = (\<Union>c \<in> set cs. set (res_pre c))"
  by (simp add: res_below_def)

lemma list_update_split: "i < length cs \<Longrightarrow> cs[i := c] = take i cs @ c # drop (Suc i) cs"
  by (simp add: upd_conv_take_nth_drop)

lemma nth_split: "i < length cs \<Longrightarrow> cs = take i cs @ cs ! i # drop (Suc i) cs"
  by (simp add: id_take_nth_drop)

lemma kids_items_update:
  assumes "i < length cs"
  shows "kids_items (cs[i := c]) + res_items (cs ! i) = kids_items cs + res_items c"
proof -
  have "kids_items cs = kids_items (take i cs) + (res_items (cs ! i) + kids_items (drop (Suc i) cs))"
    by (subst nth_split [OF assms]) (simp only: kids_items_simps)
  then show ?thesis by (simp add: list_update_split [OF assms])
qed

lemma kids_wf_update:
  assumes "kids_wf s e cs" and "i < length cs" and "res_wf c" and "r_start c = r_start (cs ! i)" and "r_end c = r_end (cs ! i)"
  shows "kids_wf s e (cs[i := c])"
proof -
  have "kids_wf s e (take i cs @ cs ! i # drop (Suc i) cs)" using assms(1) nth_split [OF assms(2)] by simp
  then show ?thesis using assms by (simp add: list_update_split kids_wf_append kids_wf_Cons)
qed

text \<open>Two resources of a well-formed tree are nested or disjoint.\<close>

definition partial_overlap :: "resource \<Rightarrow> resource \<Rightarrow> bool" where
  "partial_overlap a b \<longleftrightarrow> overlaps a b \<and> \<not> (r_start a \<le> r_start b \<and> r_end b \<le> r_end a)
     \<and> \<not> (r_start b \<le> r_start a \<and> r_end a \<le> r_end b)"

lemma res_pre_range: "res_wf r \<Longrightarrow> x \<in> set (res_pre r) \<Longrightarrow> r_start r \<le> r_start x \<and> r_start x \<le> r_end x \<and> r_end x \<le> r_end r"
proof (induction r)
  case (Resource p s e f n cs)
  show ?case
  proof (cases "x = Resource p s e f n cs")
    case False
    then obtain c where c: "c \<in> set cs" "x \<in> set (res_pre c)" using Resource.prems(2) by auto
    then have "s \<le> r_start c" "r_end c \<le> e" "res_wf c" using Resource.prems(1) by auto
    moreover from this have "r_start c \<le> r_start x \<and> r_start x \<le> r_end x \<and> r_end x \<le> r_end c"
      using Resource.IH c by blast
    ultimately show ?thesis by (auto intro: order.trans)
  qed (use Resource.prems(1) in simp)
qed

lemma res_laminar:
  "res_wf r \<Longrightarrow> x \<in> set (res_pre r) \<Longrightarrow> y \<in> set (res_pre r) \<Longrightarrow> \<not> partial_overlap x y"
proof (induction r)
  case (Resource p s e f n cs)
  let ?r = "Resource p s e f n cs"
  have k: "kids_wf s e cs" using Resource.prems(1) res_wf_iff [of ?r] by simp
  consider "x = ?r \<or> y = ?r" | c d where "c \<in> set cs" "d \<in> set cs" "x \<in> set (res_pre c)" "y \<in> set (res_pre d)"
    using Resource.prems(2,3) by (auto simp: res_below_def)
  then show ?case
  proof cases
    case 1
    have "s \<le> r_start x \<and> r_end x \<le> e" "s \<le> r_start y \<and> r_end y \<le> e"
      using res_pre_range [OF Resource.prems(1,2)] res_pre_range [OF Resource.prems(1,3)] by simp_all
    then show ?thesis using 1 by (elim disjE) (simp_all add: partial_overlap_def)
  next
    case (2 c d)
    show ?thesis
    proof (cases "c = d")
      case True
      then show ?thesis using Resource.IH [OF 2(1)] 2 kids_wf_range [OF k] by blast
    next
      case False
      then have "r_end c < r_start d \<or> r_end d < r_start c"
        using 2(1,2) k by (auto simp: kids_wf_def sorted_wrt_iff_nth_less in_set_conv_nth) (metis linorder_neqE_nat)
      moreover have "r_start c \<le> r_start x" "r_end x \<le> r_end c" "r_start d \<le> r_start y" "r_end y \<le> r_end d"
        using 2 res_pre_range kids_wf_range [OF k] by blast+
      ultimately have "r_end x < r_start y \<or> r_end y < r_start x"
        by (meson le_less_trans less_le_trans)
      then show ?thesis by (auto simp: partial_overlap_def overlaps_def not_le)
    qed
  qed
qed

section \<open>Insertion\<close>

lemma insert_span_ok:
  assumes "kids_wf s e cs" and "cs \<noteq> []" and "overlaps (hd cs) new"
  shows "(\<forall>n. insert_span new cs = Inl n \<longrightarrow> 0 < n \<and> n \<le> length cs
      \<and> (\<forall>c \<in> set (take n cs). r_start new \<le> r_start c \<and> r_end c \<le> r_end new)
      \<and> (\<forall>c \<in> set (drop n cs). r_end new < r_start c))
    \<and> (\<forall>c. insert_span new cs = Inr c \<longrightarrow> c \<in> set cs \<and> overlaps c new
      \<and> \<not> (r_start new \<le> r_start c \<and> r_end c \<le> r_end new) \<and> (c = hd cs \<or> r_start new < r_start c))"
  using assms
proof (induction new cs rule: insert_span.induct)
  case (2 new nxt rest)
  note k = "2.prems"(1) [unfolded kids_wf_Cons]
  show ?case
  proof (cases "r_start nxt < r_start new \<or> r_end nxt > r_end new")
    case True
    then show ?thesis using "2.prems"(3) by (auto simp: not_le)
  next
    case False
    show ?thesis
    proof (cases rest)
      case Nil
      then show ?thesis using False by (auto simp: not_less)
    next
      case (Cons sb r)
      have lt: "r_end nxt < r_start sb" using k Cons by auto
      show ?thesis
      proof (cases "r_start sb > r_end new")
        case True
        have "\<forall>c \<in> set rest. r_end new < r_start c"
          using k True Cons by (intro kids_wf_after [where s = s and e = e]) auto
        then show ?thesis using False True Cons by (auto simp: not_less)
      next
        case sb: False
        have nx: "r_start new \<le> r_end nxt" using "2.prems"(3) by (simp add: overlaps_def)
        have new: "r_start new < r_start sb" using nx lt by (rule le_less_trans)
        have "overlaps sb new" using sb new k Cons kids_wf_range [of s e rest sb]
          by (auto simp: overlaps_def not_less)
        then have IH: "(\<forall>n. insert_span new rest = Inl n \<longrightarrow> 0 < n \<and> n \<le> length rest
              \<and> (\<forall>c \<in> set (take n rest). r_start new \<le> r_start c \<and> r_end c \<le> r_end new)
              \<and> (\<forall>c \<in> set (drop n rest). r_end new < r_start c))
            \<and> (\<forall>c. insert_span new rest = Inr c \<longrightarrow> c \<in> set rest \<and> overlaps c new
              \<and> \<not> (r_start new \<le> r_start c \<and> r_end c \<le> r_end new) \<and> (c = hd rest \<or> r_start new < r_start c))"
          using "2.IH" [OF False Cons sb] k Cons by auto
        have eq: "insert_span new (nxt # rest) = (case insert_span new rest of Inl n \<Rightarrow> Inl (Suc n) | Inr c \<Rightarrow> Inr c)"
          using False Cons sb by simp
        show ?thesis
        proof (cases "insert_span new rest")
          case (Inl n)
          then show ?thesis using IH False eq by (simp del: insert_span.simps add: not_less)
        next
          case (Inr c)
          then show ?thesis using IH Cons new eq by (auto simp del: insert_span.simps)
        qed
      qed
    qed
  qed
qed simp

lemma u_insert_spec:
  assumes "res_wf p" and "r_start new \<le> r_end new" and "r_child new = []"
  shows "case u_insert_resource p new of
      Inserted p' \<Rightarrow> res_wf p' \<and> item p' = item p \<and> res_items p' = add_mset (item new) (res_items p)
    | Blocked_root \<Rightarrow> r_start new < r_start p \<or> r_end p < r_end new
    | Blocked c \<Rightarrow> c \<in> set (res_below (r_child p)) \<and> partial_overlap c new"
  using assms
proof (induction p new rule: u_insert_resource.induct)
  case (1 p new)
  let ?cs = "r_child p"
  have p: "r_start p \<le> r_end p" "kids_wf (r_start p) (r_end p) ?cs" using "1.prems"(1) res_wf_iff [of p] by auto
  have new: "res_wf new" using "1.prems"(2,3) res_wf_iff [of new] by (simp add: kids_wf_def)
  show ?case
  proof (cases "u_request_resource p new")
    case (Granted p')
    have "item p' = item p \<and> res_items p' = add_mset (item new) (res_items p)"
      by (rule u_request_granted [OF p(2) Granted])
         (use "1.prems"(3) in \<open>simp add: res_items_eq [of p] res_items_eq [of new]\<close>)
    then show ?thesis
      using u_request_granted_wf [OF "1.prems"(1) new Granted] Granted by (simp add: u_insert_resource.simps [of p new])
  next
    case Conflict_root
    then show ?thesis using u_request_root_iff [of p new] "1.prems"(2) by (auto simp: u_insert_resource.simps [of p new])
  next
    case (Conflict_child i)
    note c = u_request_conflict [OF Conflict_child]
    define first where "first = ?cs ! i"
    have fs: "first \<in> set ?cs" using c(1) by (simp add: first_def)
    have fw: "res_wf first" using kids_wf_range [OF p(2) fs] by blast
    show ?thesis
    proof (cases "r_start first > r_start new \<or> r_end first < r_end new \<or> r_start first = r_start new \<and> r_end first = r_end new")
      case True
      have dr: "drop i ?cs = first # drop (Suc i) ?cs" using c(1) by (simp add: first_def Cons_nth_drop_Suc)
      have "kids_wf (r_start p) (r_end p) (take i ?cs @ drop i ?cs)" using p(2) by simp
      then have kd: "kids_wf (r_start p) (r_end p) (take i ?cs)" "kids_wf (r_start p) (r_end p) (drop i ?cs)"
        by (simp_all only: kids_wf_append)
      note sp = insert_span_ok [OF kd(2), of new]
      have hd: "drop i ?cs \<noteq> []" "overlaps (hd (drop i ?cs)) new" using dr c(2) by (simp_all add: first_def)
      show ?thesis
      proof (cases "insert_span new (drop i ?cs)")
        case (Inl n)
        let ?k = "take n (drop i ?cs)"
        let ?new = "with_child new ?k"
        have n: "0 < n" "\<forall>c \<in> set ?k. r_start new \<le> r_start c \<and> r_end c \<le> r_end new"
          "\<forall>c \<in> set (drop (i + n) ?cs). r_end new < r_start c" using sp hd Inl by (auto simp: add.commute)
        have "kids_wf (r_start p) (r_end p) (take i ?cs @ ?k @ drop (i + n) ?cs)"
          using p(2) by (metis append_take_drop_id drop_drop add.commute)
        then have k: "kids_wf (r_start p) (r_end p) (take i ?cs)" "kids_wf (r_start p) (r_end p) ?k"
          "kids_wf (r_start p) (r_end p) (drop (i + n) ?cs)"
          "\<forall>x \<in> set (take i ?cs). \<forall>y \<in> set (drop (i + n) ?cs). r_end x < r_start y"
          by (auto simp only: kids_wf_append set_append)
        have bf: "\<forall>x \<in> set (take i ?cs). r_end x < r_start new"
          using c(3) by (auto simp: in_set_conv_nth)
        have "res_wf ?new" using "1.prems"(2) k(2) n(2) by (auto simp: res_wf_with_child kids_wf_def)
        then have "kids_wf (r_start p) (r_end p) (take i ?cs @ ?new # drop (i + n) ?cs)"
          using k n(3) bf c(5,6) by (simp add: kids_wf_append kids_wf_Cons)
        moreover have "kids_items ?cs = kids_items (take i ?cs) + (kids_items ?k + kids_items (drop (i + n) ?cs))"
          by (metis kids_items_simps(3) append_take_drop_id drop_drop add.commute)
        ultimately show ?thesis using Conflict_child True Inl p(1)
          by (simp add: u_insert_resource.simps [of p new] Let_def first_def res_wf_with_child res_items_eq [of p])
      next
        case (Inr nxt)
        then have nxt: "nxt \<in> set (drop i ?cs)" "overlaps nxt new"
          "\<not> (r_start new \<le> r_start nxt \<and> r_end nxt \<le> r_end new)" "nxt = first \<or> r_start new < r_start nxt"
          using sp hd dr by auto
        then have "partial_overlap nxt new" using True by (auto simp: partial_overlap_def)
        moreover have "nxt \<in> set (res_below ?cs)" using nxt(1) res_pre_eq [of nxt]
          by (auto simp: set_res_below dest!: in_set_dropD intro!: bexI [of _ nxt])
        ultimately show ?thesis using Conflict_child True Inr
          by (simp add: u_insert_resource.simps [of p new] Let_def first_def)
      qed
    next
      case False
      have IH: "case u_insert_resource first new of
          Inserted p' \<Rightarrow> res_wf p' \<and> item p' = item first \<and> res_items p' = add_mset (item new) (res_items first)
        | Blocked_root \<Rightarrow> r_start new < r_start first \<or> r_end first < r_end new
        | Blocked c \<Rightarrow> c \<in> set (res_below (r_child first)) \<and> partial_overlap c new"
        using "1.IH" [OF Conflict_child first_def] False fw "1.prems"(2,3) by blast
      have eq: "u_insert_resource p new = (case u_insert_resource first new of
          Inserted first' \<Rightarrow> Inserted (with_child p (?cs[i := first']))
        | Blocked_root \<Rightarrow> Blocked first | Blocked c \<Rightarrow> Blocked c)"
        unfolding u_insert_resource.simps [of p new] by (simp only: Conflict_child req.case Let_def first_def [symmetric] False if_False)
      show ?thesis
      proof (cases "u_insert_resource first new")
        case (Inserted f)
        then have f: "res_wf f" "r_start f = r_start first" "r_end f = r_end first"
          "res_items f = add_mset (item new) (res_items first)" using IH by (auto simp: item_def)
        have "kids_items (?cs[i := f]) + res_items first = kids_items ?cs + add_mset (item new) (res_items first)"
          using kids_items_update [OF c(1), of f] f(4) by (simp add: first_def)
        then have "kids_items (?cs[i := f]) = add_mset (item new) (kids_items ?cs)" by simp
        then show ?thesis using Inserted eq p kids_wf_update [OF p(2) c(1) f(1)] f(2,3)
          by (simp add: res_wf_with_child res_items_eq [of p] first_def)
      next
        case Blocked_root
        then show ?thesis using IH False by auto
      next
        case (Blocked x)
        then have "x \<in> set (res_pre first)" using IH res_pre_eq [of first] by simp
        then show ?thesis using Blocked eq IH fs by (auto simp: set_res_below)
      qed
    qed
  qed
qed

lemma item_in_res_pre: "x \<in># res_items r \<Longrightarrow> \<exists>y \<in> set (res_pre r). item y = x"
  by (auto simp: res_items_def)

lemma u_insert_iff:
  assumes "res_wf p" and "r_start new \<le> r_end new" and "r_child new = []"
  shows "(\<exists>p'. u_insert_resource p new = Inserted p') \<longleftrightarrow>
    r_start p \<le> r_start new \<and> r_end new \<le> r_end p \<and> (\<forall>c \<in> set (res_pre p). \<not> partial_overlap c new)"
proof (cases "u_insert_resource p new")
  case (Inserted p')
  then have p': "res_wf p'" "item p' = item p" "res_items p' = add_mset (item new) (res_items p)"
    using u_insert_spec [OF assms] by simp_all
  have tr: "\<exists>y \<in> set (res_pre p'). r_start y = r_start x \<and> r_end y = r_end x" if "x = new \<or> x \<in> set (res_pre p)" for x
  proof -
    have "item x \<in># res_items p'" using that p'(3) by (auto simp: res_items_def)
    then show ?thesis using item_in_res_pre [of "item x" p'] by (auto simp: item_def)
  qed
  obtain n where n: "n \<in> set (res_pre p')" "r_start n = r_start new" "r_end n = r_end new" using tr [of new] by auto
  have "\<not> partial_overlap c new" if c: "c \<in> set (res_pre p)" for c
  proof -
    obtain c' where c': "c' \<in> set (res_pre p')" "r_start c' = r_start c" "r_end c' = r_end c" using tr [of c] c by auto
    show ?thesis using res_laminar [OF p'(1) c'(1) n(1)] c'(2,3) n(2,3) by (simp add: partial_overlap_def overlaps_def)
  qed
  moreover have "r_start p \<le> r_start new" "r_end new \<le> r_end p"
    using res_pre_range [OF p'(1) n(1)] n(2,3) p'(2) by (auto simp: item_def)
  ultimately show ?thesis using Inserted by simp
next
  case Blocked_root
  then show ?thesis using u_insert_spec [OF assms] by auto
next
  case (Blocked c)
  then have "c \<in> set (res_pre p)" "partial_overlap c new" using u_insert_spec [OF assms] res_pre_eq [of p] by auto
  then show ?thesis using Blocked by auto
qed

lemma expand_spec:
  assumes "res_wf p" and "r_start new \<le> r_end new" and "r_child new = []"
    and "r_start p \<le> r_start new" and "r_end new \<le> r_end p"
  shows "case expand_loop p new of (p', new') \<Rightarrow> res_wf p' \<and> item p' = item p
    \<and> res_items p' = add_mset (item new') (res_items p)
    \<and> r_start new' \<le> r_start new \<and> r_end new \<le> r_end new' \<and> r_ptr new' = r_ptr new"
  using assms
proof (induction p new rule: expand_loop.induct)
  case (1 p new)
  note sp = u_insert_spec [OF "1.prems"(1-3)]
  show ?case
  proof (cases "u_insert_resource p new")
    case (Inserted p')
    then show ?thesis using sp by (simp add: expand_loop.simps [of p new])
  next
    case Blocked_root
    then show ?thesis using sp "1.prems"(4,5) by auto
  next
    case (Blocked c)
    define new' where "new' = with_range new (if r_start c < r_start new then r_start c else r_start new)
      (if r_end c > r_end new then r_end c else r_end new)"
    have "c \<in> set (res_pre p)" using sp Blocked res_pre_eq [of p] by simp
    then have "r_start p \<le> r_start c" "r_end c \<le> r_end p" using res_pre_range [OF "1.prems"(1)] by auto
    then have n: "r_start new' \<le> r_end new'" "r_child new' = []" "r_start p \<le> r_start new'" "r_end new' \<le> r_end p"
      "r_start new' \<le> r_start new" "r_end new \<le> r_end new'" "r_ptr new' = r_ptr new"
      using "1.prems" by (auto simp: new'_def)
    have "expand_loop p new = expand_loop p new'" using Blocked by (simp add: expand_loop.simps [of p new] new'_def)
    then show ?thesis using "1.IH" [OF Blocked, folded new'_def, OF "1.prems"(1) n(1-4)] n(5-7)
      by (auto intro: order.trans split: prod.splits)
  qed
qed

section \<open>Busy regions\<close>

lemma region_loop_inside:
  "region_loop p new = Inl p' \<Longrightarrow> r_start p \<le> r_start new \<and> r_end new \<le> r_end p \<and> r_start new \<le> r_end new"
  using u_request_root_iff [of p new] by (auto simp: region_loop.simps [of p new] not_less)

lemma release_region_skip:
  "\<forall>x \<in> set xs. \<not> (r_start x \<le> s \<and> r_end x \<ge> e) \<Longrightarrow>
   release_region_walk s e (xs @ ys) = map_option (append xs) (release_region_walk s e ys)"
  by (induction xs; cases "release_region_walk s e ys") auto

lemma release_below_skip:
  "r \<notin> r_ptr ` set (res_below xs) \<Longrightarrow>
   release_below r (xs @ ys) = map_option (append xs) (release_below r ys)"
proof (induction xs)
  case (Cons x xs)
  have "release_below r cs = None" if "r \<notin> r_ptr ` set (res_below cs)" for cs
    using that by (induction r cs rule: release_below.induct) (auto simp: res_pre_eq split: option.splits)
  then have "release_below r (r_child x) = None" using Cons.prems res_pre_eq [of x] by auto
  then show ?case using Cons res_pre_eq [of x] by (cases "release_below r ys") auto
qed (cases "release_below r ys", simp_all)

lemma region_loop_spec:
  assumes "res_wf p" and "r_child new = []" and "region_loop p new = Inl p'"
  shows "res_wf p' \<and> item p' = item p \<and> res_items p' = add_mset (item new) (res_items p)
    \<and> (busy new \<longrightarrow> release_region_walk (r_start new) (r_end new) (r_child p') = Some (r_child p))
    \<and> (r_ptr new \<notin> r_ptr ` set (res_below (r_child p)) \<longrightarrow> release_below (r_ptr new) (r_child p') = Some (r_child p))"
  using assms
proof (induction p new arbitrary: p' rule: region_loop.induct)
  case (1 p new)
  let ?cs = "r_child p"
  have p: "r_start p \<le> r_end p" "kids_wf (r_start p) (r_end p) ?cs" using "1.prems"(1) res_wf_iff [of p] by auto
  have ne: "r_start new \<le> r_end new" using region_loop_inside [OF "1.prems"(3)] by simp
  have new: "res_wf new" using "1.prems"(2) ne res_wf_iff [of new] by (simp add: kids_wf_def)
  show ?case
  proof (cases "u_request_resource p new")
    case (Granted q)
    then have q: "q = p'" using "1.prems"(3) by (simp add: region_loop.simps [of p new])
    obtain xs ys where xy: "?cs = xs @ ys" "q = with_child p (xs @ new # ys)" "\<forall>x \<in> set xs. r_end x < r_start new"
      by (rule u_request_granted [OF p(2) Granted])
    have "\<forall>x \<in> set xs. \<not> (r_start x \<le> r_start new \<and> r_end x \<ge> r_end new)"
      using xy(3) ne by (auto dest: less_le_trans)
    then show ?thesis
      using u_request_granted_wf [OF "1.prems"(1) new Granted] xy(1,2) q "1.prems"(2)
        release_region_skip [of xs "r_start new" "r_end new" "new # ys"] release_below_skip [of "r_ptr new" xs "new # ys"]
      by (auto simp: res_items_eq [of p] res_items_eq [of new])
  next
    case Conflict_root
    then show ?thesis using "1.prems"(3) by (simp add: region_loop.simps [of p new])
  next
    case (Conflict_child i)
    note c = u_request_conflict [OF Conflict_child]
    define f where "f = ?cs ! i"
    have cs: "?cs = take i ?cs @ f # drop (Suc i) ?cs" using nth_split [OF c(1)] by (simp add: f_def)
    from "1.prems"(3) Conflict_child obtain f' where nb: "\<not> busy f" and f': "region_loop f new = Inl f'"
      "p' = with_child p (?cs[i := f'])"
      by (auto simp: region_loop.simps [of p new] Let_def f_def split: if_splits sum.splits)
    have "res_wf f" using kids_wf_range [OF p(2), of f] c(1) by (simp add: f_def)
    from "1.IH" [OF Conflict_child f_def nb this "1.prems"(2) f'(1)]
    have IH: "res_wf f'" "item f' = item f" "res_items f' = add_mset (item new) (res_items f)"
      "busy new \<longrightarrow> release_region_walk (r_start new) (r_end new) (r_child f') = Some (r_child f)"
      "r_ptr new \<notin> r_ptr ` set (res_below (r_child f)) \<longrightarrow> release_below (r_ptr new) (r_child f') = Some (r_child f)"
      by blast+
    have it: "r_start f' = r_start f" "r_end f' = r_end f" "r_ptr f' = r_ptr f" "\<not> busy f'" "with_child f' = with_child f"
      using IH(2) nb by (auto simp: item_def busy_def with_child_def)
    have ins: "r_start f \<le> r_start new" "r_end new \<le> r_end f" using region_loop_inside [OF f'(1)] by auto
    have upd: "?cs[i := f'] = take i ?cs @ f' # drop (Suc i) ?cs" using list_update_split [OF c(1)] .
    have "\<forall>x \<in> set (take i ?cs). \<not> (r_start x \<le> r_start new \<and> r_end x \<ge> r_end new)"
      using c(3) ne by (auto simp: in_set_conv_nth not_le) (meson less_le_trans)
    then have rel: "busy new \<longrightarrow> release_region_walk (r_start new) (r_end new) (?cs[i := f']) = Some ?cs"
      using release_region_skip [of "take i ?cs" "r_start new" "r_end new" "f' # drop (Suc i) ?cs"] IH(4) it ins cs
      by (simp add: upd)
    have relb: "release_below (r_ptr new) (?cs[i := f']) = Some ?cs" if "r_ptr new \<notin> r_ptr ` set (res_below ?cs)"
    proof -
      have "res_below ?cs = res_below (take i ?cs) @ res_pre f @ res_below (drop (Suc i) ?cs)"
        using arg_cong [OF cs, of res_below] by simp
      then have nn: "r_ptr new \<notin> r_ptr ` set (res_below (take i ?cs))" "r_ptr new \<notin> r_ptr ` set (res_below (r_child f))" "r_ptr new \<noteq> r_ptr f"
        using that res_pre_eq [of f] by auto
      then show ?thesis
        using release_below_skip [OF nn(1), of "f' # drop (Suc i) ?cs"] IH(5) it cs by (simp add: upd)
    qed
    have "kids_items (?cs[i := f']) + res_items f = kids_items ?cs + add_mset (item new) (res_items f)"
      using kids_items_update [OF c(1), of f'] IH(3) by (simp add: f_def)
    then have "kids_items (?cs[i := f']) = add_mset (item new) (kids_items ?cs)" by simp
    then show ?thesis
      using f'(2) kids_wf_update [OF p(2) c(1) IH(1)] it(1,2) p(1) rel relb
      by (simp add: res_wf_with_child res_items_eq [of p] f_def)
  qed
qed

section \<open>Reserving with splits\<close>

lemma region_loop_conflict:
  assumes "res_wf p" and "r_start new \<le> r_end new" and "region_loop p new = Inr c"
  shows "c = p \<and> u_request_resource p new = Conflict_root
    \<or> c \<in> set (res_below (r_child p)) \<and> overlaps c new"
  using assms
proof (induction p new rule: region_loop.induct)
  case (1 p new)
  have k: "kids_wf (r_start p) (r_end p) (r_child p)" using "1.prems"(1) res_wf_iff [of p] by auto
  show ?case
  proof (cases "u_request_resource p new")
    case (Conflict_child i)
    note cc = u_request_conflict [OF Conflict_child]
    define f where "f = r_child p ! i"
    have f: "f \<in> set (r_child p)" "overlaps f new" using cc by (simp_all add: f_def)
    have pre: "set (res_pre f) \<subseteq> set (res_below (r_child p))" using f(1) by (auto simp: set_res_below)
    show ?thesis
    proof (cases "busy f")
      case True
      then show ?thesis using "1.prems"(3) Conflict_child f pre res_pre_eq [of f]
        by (auto simp: region_loop.simps [of p new] Let_def f_def)
    next
      case False
      then have "region_loop f new = Inr c" using "1.prems"(3) Conflict_child
        by (auto simp: region_loop.simps [of p new] Let_def f_def split: sum.splits)
      moreover have "res_wf f" using kids_wf_range [OF k f(1)] by blast
      ultimately show ?thesis using "1.IH" [OF Conflict_child f_def False] "1.prems"(2) f pre res_pre_eq [of f] by auto
    qed
  qed (use "1.prems"(3) in \<open>simp_all add: region_loop.simps [of p new]\<close>)
qed

lemma reserve_terminates:
  assumes "res_wf root" and "s \<le> e" and "r_start root \<le> s" and "e \<le> r_end root"
  shows "\<exists>k' root'. u_reserve_region_with_split kz name k root s e = Some (k', root') \<and> res_wf root' \<and> item root' = item root"
  using assms
proof (induction "unat e - unat s" arbitrary: k root s e rule: less_induct)
  case less
  let ?rec = "u_reserve_region_with_split kz name"
  have IH: "\<exists>k' root'. ?rec k1 root1 s1 e1 = Some (k', root') \<and> res_wf root' \<and> item root' = item root"
    if "res_wf root1" "item root1 = item root" "s \<le> s1" "s1 \<le> e1" "e1 \<le> e" "s < s1 \<or> e1 < e" for k1 root1 s1 e1
  proof -
    have "unat e1 - unat s1 < unat e - unat s" using that by (auto simp: word_le_nat_alt word_less_nat_alt)
    moreover have "r_start root1 \<le> s1" "e1 \<le> r_end root1" using that less.prems(3,4) by (auto simp: item_def)
    ultimately show ?thesis using less.hyps [of e1 s1 root1 k1] that by simp
  qed
  show ?case
  proof (cases "kz k")
    case None
    then show ?thesis using less.prems(1) by (simp add: u_reserve_region_with_split.simps [of kz name k root s e])
  next
    case (Some ptr)
    define new where "new = Resource ptr s e IORESOURCE_BUSY name []"
    have new: "r_start new = s" "r_end new = e" "r_child new = []" by (simp_all add: new_def)
    show ?thesis
    proof (cases "region_loop root new")
      case (Inl root')
      then show ?thesis using Some region_loop_spec [OF less.prems(1) new(3) Inl]
        by (simp add: u_reserve_region_with_split.simps [of kz name k root s e] new_def)
    next
      case (Inr c)
      have "u_request_resource root new \<noteq> Conflict_root" using less.prems(2-4) new by (auto simp: u_request_root_iff)
      then have "overlaps c new" using region_loop_conflict [OF less.prems(1) _ Inr] less.prems(2) new by auto
      then have ov: "r_start c \<le> e" "s \<le> r_end c" using new by (auto simp: overlaps_def)
      show ?thesis
      proof (cases "r_start c \<le> s \<and> r_end c \<ge> e")
        case True
        then show ?thesis using Some Inr less.prems(1)
          by (simp add: u_reserve_region_with_split.simps [of kz name k root s e] new_def)
      next
        case False
        let ?a = "if r_start c > s then ?rec (Suc k) root s (r_start c - 1) else Some (Suc k, root)"
        have "\<exists>k' root'. ?a = Some (k', root') \<and> res_wf root' \<and> item root' = item root"
        proof (cases "s < r_start c")
          case True
          then have "s \<le> r_start c - 1" "r_start c - 1 < r_start c" using word_pred_less by blast+
          then show ?thesis using True IH [of root s "r_start c - 1" "Suc k"] less.prems(1) ov by (auto intro: less_le_trans less_imp_le)
        qed (use less.prems(1) in simp)
        then obtain k1 root1 where a: "?a = Some (k1, root1)" "res_wf root1" "item root1 = item root" by blast
        let ?b = "if \<not> busy c \<and> max (r_start c) s < min (r_end c) e
          then ?rec k1 root1 (max (r_start c) s) (min (r_end c) e) else Some (k1, root1)"
        have "\<exists>k' root'. ?b = Some (k', root') \<and> res_wf root' \<and> item root' = item root"
        proof (cases "\<not> busy c \<and> max (r_start c) s < min (r_end c) e")
          case True
          have "s < max (r_start c) s \<or> min (r_end c) e < e" using False by (auto simp: max_def min_def)
          then show ?thesis using IH [OF a(2,3), of "max (r_start c) s" "min (r_end c) e" k1] True by (simp add: less_imp_le)
        next
          case False
          then show ?thesis using a(2,3) by (simp only: if_False) simp
        qed
        then obtain k2 root2 where b: "?b = Some (k2, root2)" "res_wf root2" "item root2 = item root" by blast
        let ?c = "if r_end c < e then ?rec k2 root2 (r_end c + 1) e else Some (k2, root2)"
        have "\<exists>k' root'. ?c = Some (k', root') \<and> res_wf root' \<and> item root' = item root"
        proof (cases "r_end c < e")
          case True
          then have "r_end c < r_end c + 1" "r_end c + 1 \<le> e" using word_succ_le by blast+
          then show ?thesis using True IH [of root2 "r_end c + 1" e k2] b(2,3) ov by (auto intro: le_less_trans less_imp_le)
        qed (use b in simp)
        moreover have "?rec k root s e = Option.bind ?a (\<lambda>(k1, root1). Option.bind
            (if \<not> busy c \<and> max (r_start c) s < min (r_end c) e
             then ?rec k1 root1 (max (r_start c) s) (min (r_end c) e) else Some (k1, root1))
            (\<lambda>(k2, root2). if r_end c < e then ?rec k2 root2 (r_end c + 1) e else Some (k2, root2)))"
          unfolding u_reserve_region_with_split.simps [of kz name k root s e]
          by (simp only: Some option.case Inr [unfolded new_def] sum.case False if_False)
        ultimately show ?thesis using a(1) b(1) by simp
      qed
    qed
  qed
qed

lemma reserve_diverges:
  "u_reserve_region_with_split kz name k root s e = Some y \<Longrightarrow> (\<forall>k. kz k \<noteq> None) \<longrightarrow> \<not> s < r_start root"
proof (erule u_reserve_region_with_split.raw_induct [rotated], intro impI notI)
  fix f :: "(nat \<Rightarrow> nat option) \<Rightarrow> string \<Rightarrow> nat \<Rightarrow> resource \<Rightarrow> ulong \<Rightarrow> ulong \<Rightarrow> (nat \<times> resource) option"
  fix kz :: "nat \<Rightarrow> nat option" and name k root s e y
  assume IH: "\<And>kz name k root s e y. f kz name k root s e = Some y \<Longrightarrow> (\<forall>k. kz k \<noteq> None) \<longrightarrow> \<not> s < r_start root"
    and eq: "(case kz k of
        None \<Rightarrow> Some (Suc k, root)
      | Some ptr \<Rightarrow>
          (case region_loop root (Resource ptr s e IORESOURCE_BUSY name []) of
             Inl root' \<Rightarrow> Some (Suc k, root')
           | Inr conflict \<Rightarrow>
               if r_start conflict \<le> s \<and> r_end conflict \<ge> e then Some (Suc k, root)
               else Option.bind
                 (if r_start conflict > s then f kz name (Suc k) root s (r_start conflict - 1) else Some (Suc k, root))
                 (\<lambda>(k1, root1). Option.bind
                   (if \<not> busy conflict \<and> max (r_start conflict) s < min (r_end conflict) e
                    then f kz name k1 root1 (max (r_start conflict) s) (min (r_end conflict) e) else Some (k1, root1))
                   (\<lambda>(k2, root2).
                     if r_end conflict < e then f kz name k2 root2 (r_end conflict + 1) e else Some (k2, root2))))) = Some y"
    and kz: "\<forall>k. kz k \<noteq> None" and lt: "s < r_start root"
  obtain ptr where ptr: "kz k = Some ptr" using kz by blast
  have "u_request_resource root (Resource ptr s e IORESOURCE_BUSY name []) = Conflict_root"
    using lt by (simp add: u_request_root_iff)
  then have loop: "region_loop root (Resource ptr s e IORESOURCE_BUSY name []) = Inr root"
    by (simp add: region_loop.simps [of root])
  have "f kz name (Suc k) root s (r_start root - 1) \<noteq> None"
    using eq lt not_le [THEN iffD2, OF lt] unfolding ptr loop option.case sum.case
    by (cases "f kz name (Suc k) root s (r_start root - 1)") simp_all
  then obtain z where "f kz name (Suc k) root s (r_start root - 1) = Some z" by auto
  from IH [OF this] kz lt show False by blast
qed

end
