(* ===== verification/Resource_Props.thy ===== *)
theory Resource_Props
  imports Resource_Tree
begin

text \<open>
  Allocation of free slots, adjustment and the walk over the resource tree, and the properties of
  the component.
\<close>

section \<open>Allocation\<close>

lemma ALIGN_aligned: "ALIGN x a AND (a - 1) = 0"
  by (simp add: ALIGN_def and.assoc)

text \<open>Rounding up to a power of two: either no wrap-around, or the result is 0.\<close>

lemma ALIGN_ge:
  assumes "a = 2 ^ k" and "k < 32"
  shows "x \<le> ALIGN x a \<or> ALIGN x a = 0"
proof -
  have a1: "unat (a - 1) = 2 ^ k - 1" using assms by (simp add: unat_minus_one)
  show ?thesis
  proof (cases "unat x + (2 ^ k - 1) < 2 ^ 32")
    case True
    then have "unat (x + (a - 1)) = unat x + (2 ^ k - 1)" using a1 by (simp add: unat_word_ariths)
    then have "unat (ALIGN x a) = (unat x + (2 ^ k - 1)) div 2 ^ k * 2 ^ k"
      using unat_and_not_mask [OF assms(1)] assms(2) by (simp add: ALIGN_def)
    moreover have "unat x < ((unat x + (2 ^ k - 1)) div 2 ^ k + 1) * 2 ^ k - (2 ^ k - 1)"
      using dividend_less_div_times [of "2 ^ k" "unat x + (2 ^ k - 1)"] by (simp add: algebra_simps)
    ultimately show ?thesis by (simp add: word_le_nat_alt algebra_simps)
  next
    case False
    then have "unat (x + (a - 1)) = unat x + (2 ^ k - 1) - 2 ^ 32" using a1 unat_plus_if' [of x "a - 1"] by simp
    also have "\<dots> < 2 ^ k" using unat_u32 [of x] zero_less_power [of "2::nat" k] by linarith
    finally have "unat (ALIGN x a) = 0" using unat_and_not_mask [OF assms(1), of "x + (a - 1)"] assms(2) by (simp add: ALIGN_def)
    then show ?thesis by (simp add: unat_eq_0)
  qed
qed

lemma slot_end:
  fixes st en siz :: ulong
  assumes "st < en" and "siz - 1 \<le> en - st"
  shows "st \<le> st + siz - 1" and "st + siz - 1 \<le> en"
proof -
  have d: "unat (en - st) = unat en - unat st" using assms(1) by (simp add: unat_sub less_imp_le)
  then have "unat st + unat (siz - 1) \<le> unat en" using assms by (simp add: word_le_nat_alt word_less_nat_alt)
  moreover from this have "unat (st + (siz - 1)) = unat st + unat (siz - 1)"
    using unat_u32 [of en] unat_plus_if' [of st "siz - 1"] by simp
  ultimately show "st \<le> st + siz - 1" "st + siz - 1 \<le> en"
    by (simp_all add: word_le_nat_alt add_diff_eq)
qed

lemma find_walk_found:
  assumes "find_walk rend siz mn mx align None st this = (True, s, e)" and "align = 2 ^ k" and "k < 32"
  shows "e = s + siz - 1 \<and> s \<le> e \<and> e \<le> mx \<and> s AND (align - 1) = 0 \<and> (mn \<le> s \<or> s = 0)"
  using assms(1)
proof (induction this arbitrary: st)
  case Nil
  let ?s = "if st < mn then mn else st"
  have "mn \<le> ALIGN ?s align \<or> ALIGN ?s align = 0" using ALIGN_ge [OF assms(2,3), of ?s] by (auto intro: order.trans split: if_splits)
  then show ?case using Nil ALIGN_aligned [of ?s align]
      slot_end [of "ALIGN ?s align" "if rend > mx then mx else rend" siz]
    by (simp add: find_walk.simps [where this = "[]"] Let_def split: if_splits)
next
  case (Cons t rest)
  let ?s = "if st < mn then mn else st"
  have "mn \<le> ALIGN ?s align \<or> ALIGN ?s align = 0" using ALIGN_ge [OF assms(2,3), of ?s] by (auto intro: order.trans split: if_splits)
  then show ?case using Cons.prems ALIGN_aligned [of ?s align] Cons.IH [of "r_end t + 1"]
      slot_end [of "ALIGN ?s align" "if r_start t - 1 > mx then mx else r_start t - 1" siz]
    by (simp add: find_walk.simps [where this = "t # rest"] Let_def split: if_splits)
qed

section \<open>The walk is the preorder\<close>

fun r_valid :: "resource \<Rightarrow> nat list \<Rightarrow> bool" where
  "r_valid root [] = True"
| "r_valid root (i # up) \<longleftrightarrow> r_valid root up \<and> i < length (r_child (r_node root up))"

lemma length_res_pre: "length (res_pre r) = r_count r"
proof (induction r)
  case (Resource p s e f n cs)
  then have "map (length \<circ> res_pre) cs = map r_count cs" by simp
  then show ?case by (simp only: res_pre.simps r_count.simps length_Cons length_concat map_map)
qed

text \<open>From a node the walk visits its subtree, then goes on where climbing from the node leads.\<close>

lemma r_visit_subtree:
  assumes "length (res_pre r) \<le> m" and "r = r_node root p"
  shows "r_visit m root (Some p) = res_pre r @ r_visit (m - length (res_pre r)) root (r_climb root p)"
  using assms
proof (induction r arbitrary: p m)
  case (Resource q s e f n cs)
  let ?r = "Resource q s e f n cs"
  have ch: "r_child (r_node root p) = cs" using Resource.prems(2) [symmetric] by simp
  obtain k where k: "m = Suc k" using Resource.prems(1) by (cases m) auto
  have kids: "r_visit k root (Some (i # p)) = res_below (drop i cs) @ r_visit (k - length (res_below (drop i cs))) root (r_climb root p)"
    if "i < length cs" "length (res_below (drop i cs)) \<le> k" for i k
    using that
  proof (induction "length cs - i" arbitrary: i k)
    case (Suc d)
    have dr: "res_below (drop i cs) = res_pre (cs ! i) @ res_below (drop (Suc i) cs)"
      using Suc.prems(1) by (simp add: Cons_nth_drop_Suc [symmetric])
    have v: "r_visit k root (Some (i # p)) = res_pre (cs ! i) @ r_visit (k - length (res_pre (cs ! i))) root (r_climb root (i # p))"
    proof (rule Resource.IH)
      show "cs ! i \<in> set cs" using Suc.prems(1) by simp
      show "length (res_pre (cs ! i)) \<le> k" using Suc.prems(2) unfolding dr by simp
      show "cs ! i = r_node root (i # p)" by (simp add: ch)
    qed
    show ?case
    proof (cases "Suc i < length cs")
      case True
      then show ?thesis using v dr ch Suc.hyps(1) [of "Suc i" "k - length (res_pre (cs ! i))"] Suc.hyps(2) Suc.prems by simp
    next
      case False
      then show ?thesis using v dr ch by simp
    qed
  qed simp
  have pre: "res_pre ?r = ?r # res_below cs" by (simp add: res_below_def)
  show ?case
  proof (cases "cs = []")
    case True
    then show ?thesis using k ch Resource.prems(2) pre by (simp add: r_next_def)
  next
    case False
    then show ?thesis using k ch Resource.prems kids [of 0 k] pre by (simp add: r_next_def)
  qed
qed

lemma r_all_eq: "r_all root = res_below (r_child root)"
proof (cases "r_child root = []")
  case True
  then show ?thesis by (cases "r_count root") (simp_all add: r_all_def r_first_def)
next
  case False
  have "r_visit (Suc (r_count root)) root (Some []) = res_pre root @ r_visit 1 root None"
    using r_visit_subtree [of root "Suc (r_count root)" root "[]"] length_res_pre [of root] by simp
  then have "root # r_all root = res_pre root" using False by (simp add: r_all_def r_first_def r_next_def)
  then show ?thesis using res_pre_eq [of root] by simp
qed

lemma res_pre_sorted: "res_wf r \<Longrightarrow> sorted_wrt (\<lambda>a b. r_start a \<le> r_start b) (res_pre r)"
proof (induction r)
  case (Resource p s e f n cs)
  have "sorted_wrt (\<lambda>a b. r_start a \<le> r_start b) (res_below ds)"
    if "kids_wf s e ds" "\<And>c. c \<in> set ds \<Longrightarrow> sorted_wrt (\<lambda>a b. r_start a \<le> r_start b) (res_pre c)" for ds
    using that
  proof (induction ds)
    case (Cons d ds)
    have "r_start x \<le> r_start y" if x: "x \<in> set (res_pre d)" and y: "y \<in> set (res_below ds)" for x y
    proof -
      obtain c where c: "c \<in> set ds" "y \<in> set (res_pre c)" using y by (auto simp: set_res_below)
      have w: "res_wf d" "res_wf c" "r_end d < r_start c"
        using Cons.prems(1) c(1) kids_wf_range [of s e ds c] by (auto simp: kids_wf_Cons)
      have "r_start x \<le> r_end d" using res_pre_range [OF w(1) x] by auto
      moreover have "r_start c \<le> r_start y" using res_pre_range [OF w(2) c(2)] by auto
      ultimately show ?thesis using w(3) by auto
    qed
    moreover have "sorted_wrt (\<lambda>a b. r_start a \<le> r_start b) (res_below ds)" using Cons by (simp add: kids_wf_Cons)
    ultimately show ?case using Cons.prems(2) by (simp add: sorted_wrt_append)
  qed simp
  moreover have k: "kids_wf s e cs" using Resource.prems res_wf_iff [of "Resource p s e f n cs"] by simp
  moreover have "\<forall>x \<in> set (res_below cs). s \<le> r_start x"
    using res_pre_range [OF Resource.prems] by (auto simp: res_below_def)
  ultimately show ?case using Resource.IH kids_wf_range [OF k] by (simp add: res_below_def)
qed

lemma unat_ucast_u64: "unat (ucast w :: u64) = unat w" for w :: u32
  using unat_u32 [of w] by (simp add: unsigned_ucast_eq take_bit_nat_eq_self)

lemma exclusive_walk_eq:
  assumes "sorted_wrt (\<lambda>a b. r_start a \<le> r_start b) rs"
  shows "exclusive_walk addr rs \<longleftrightarrow>
    (\<exists>r \<in> set rs. r_flags r AND IORESOURCE_BUSY \<noteq> 0 \<and> r_flags r AND IORESOURCE_EXCLUSIVE \<noteq> 0
       \<and> (ucast (r_start r) :: u64) < addr + 4096 \<and> addr \<le> ucast (r_end r))"
  using assms
proof (induction rs)
  case (Cons r rs)
  show ?case
  proof (cases "(ucast (r_start r) :: u64) \<ge> addr + 4096")
    case True
    have "(ucast (r_start x) :: u64) \<ge> addr + 4096" if "x \<in> set (r # rs)" for x
    proof -
      have "r_start r \<le> r_start x" using that Cons.prems by auto
      then have "(ucast (r_start r) :: u64) \<le> ucast (r_start x)" by (simp add: word_le_nat_alt unat_ucast_u64)
      then show ?thesis using True by (rule order.trans [rotated])
    qed
    then show ?thesis using True by (auto simp: not_le [symmetric] simp del: not_le)
  next
    case False
    then show ?thesis using Cons by (auto simp: not_le)
  qed
qed simp

section \<open>Properties\<close>

definition ex_root :: resource where
  "ex_root = Resource 1 0 0xFFFFFFFF 0x200 ''PCI mem''
     [Resource 2 0x1000 0x1FFF 0x200 ''ram'' [], Resource 3 0x3000 0x3FFF 0x80000200 ''uart'' []]"

text \<open>
  C17: on a well-formed tree \<open>request_resource\<close> succeeds exactly when the new resource lies inside the
  root and overlaps none of its children; it then adds exactly that resource, keeps the tree
  well-formed, and \<open>release_resource\<close> gives the old tree back. Otherwise it fails with \<open>-EBUSY\<close>.
\<close>

theorem request_resource_spec:
  assumes "res_wf root" and "res_wf new"
  shows "case request_resource root new of
      Ok root' \<Rightarrow> r_start root \<le> r_start new \<and> r_end new \<le> r_end root
        \<and> (\<forall>c \<in> set (r_child root). \<not> overlaps c new)
        \<and> res_wf root' \<and> res_items root' = res_items root + res_items new
        \<and> (r_ptr new \<notin> r_ptr ` set (r_child root) \<longrightarrow> release_resource root' (r_ptr new) = Ok root)
    | Err e \<Rightarrow> e = EBUSY \<and> (r_start new < r_start root \<or> r_end root < r_end new \<or> (\<exists>c \<in> set (r_child root). overlaps c new))
    | Bug \<Rightarrow> False"
proof (cases "u_request_resource root new")
  case (Granted root')
  have k: "kids_wf (r_start root) (r_end root) (r_child root)" using assms(1) res_wf_iff [of root] by auto
  obtain xs ys where xy: "r_child root = xs @ ys" "root' = with_child root (xs @ new # ys)"
    "\<forall>x \<in> set xs. r_end x < r_start new" "\<forall>y \<in> set ys. r_end new < r_start y"
    "r_start root \<le> r_start new" "r_end new \<le> r_end root"
    by (rule u_request_granted [OF k Granted])
  have rel: "release_walk (r_ptr new) (xs @ new # ys) = Some (xs @ ys)" if "r_ptr new \<notin> r_ptr ` set xs"
    using that by (induction xs) auto
  have "\<forall>c \<in> set (r_child root). \<not> overlaps c new" using xy by (auto simp: overlaps_def)
  moreover have "r_ptr new \<notin> r_ptr ` set (r_child root) \<longrightarrow> release_resource root' (r_ptr new) = Ok root"
    using rel xy(1,2) with_child_same [of root] by (auto simp: release_resource_def u_release_resource_def image_Un)
  ultimately show ?thesis
    using Granted u_request_granted_wf [OF assms Granted] xy by (simp add: request_resource_def res_items_eq [of root])
next
  case Conflict_root
  then show ?thesis using u_request_root_iff [of root new] assms(2) res_wf_iff [of new]
    by (auto simp: request_resource_def)
next
  case (Conflict_child i)
  then show ?thesis using u_request_conflict [OF Conflict_child]
    by (auto simp: request_resource_def intro!: bexI [of _ "r_child root ! i"])
qed

theorem request_resource_witness:
  "res_wf (with_child ex_root [Resource 2 0x1000 0x1FFF 0x200 ''ram'' [], Resource 9 0x2000 0x2FFF 0 ''dma'' [],
     Resource 3 0x3000 0x3FFF 0x80000200 ''uart'' []])"
proof -
  have wf: "res_wf ex_root" "res_wf (Resource 9 0x2000 0x2FFF 0 ''dma'' [])" by code_simp+
  have "request_resource ex_root (Resource 9 0x2000 0x2FFF 0 ''dma'' []) = Ok (with_child ex_root
    [Resource 2 0x1000 0x1FFF 0x200 ''ram'' [], Resource 9 0x2000 0x2FFF 0 ''dma'' [],
     Resource 3 0x3000 0x3FFF 0x80000200 ''uart'' []])" by code_simp
  then show ?thesis using request_resource_spec [OF wf] by simp
qed

text \<open>
  C9: \<open>__insert_resource\<close> succeeds exactly when the new resource lies inside the root and overlaps no
  resource of the whole tree partially; it then keeps the tree well-formed and adds exactly the
  new resource, whatever resources become its children. If it fails below the root, it returns a
  resource that overlaps the new one partially.
\<close>

theorem insert_resource_spec:
  assumes "res_wf p" and "r_start new \<le> r_end new" and "r_child new = []"
  shows "((\<exists>p'. insert_resource p new = Ok p') \<longleftrightarrow>
      r_start p \<le> r_start new \<and> r_end new \<le> r_end p \<and> (\<forall>c \<in> set (res_pre p). \<not> partial_overlap c new))
    \<and> (\<forall>p'. insert_resource p new = Ok p' \<longrightarrow>
        res_wf p' \<and> item p' = item p \<and> res_items p' = add_mset (item new) (res_items p))
    \<and> (\<forall>c. u_insert_resource p new = Blocked c \<longrightarrow> c \<in> set (res_below (r_child p)) \<and> partial_overlap c new)"
  using u_insert_spec [OF assms] u_insert_iff [OF assms]
  by (cases "u_insert_resource p new") (simp_all add: insert_resource_def)

theorem insert_resource_witness:
  "res_wf (with_child ex_root [Resource 9 0x1000 0x3FFF 0 ''bus'' (r_child ex_root)])
   \<and> res_items (with_child ex_root [Resource 9 0x1000 0x3FFF 0 ''bus'' (r_child ex_root)])
     = add_mset (9, 0x1000, 0x3FFF, 0, ''bus'') (res_items ex_root)"
proof -
  let ?new = "Resource 9 0x1000 0x3FFF 0 ''bus'' []"
  have wf: "res_wf ex_root" by code_simp
  have n: "r_start ?new \<le> r_end ?new" "r_child ?new = []" by simp_all
  have "insert_resource ex_root ?new = Ok (with_child ex_root [Resource 9 0x1000 0x3FFF 0 ''bus'' (r_child ex_root)])"
    by code_simp
  then show ?thesis using insert_resource_spec [OF wf n] by (simp add: item_def)
qed

text \<open>
  C27: \<open>insert_resource_expand_to_fit\<close> always comes to an end, and for a resource inside the root it
  always succeeds: the tree it leaves is well-formed and has, besides the old resources, the new
  one, widened to a range that includes the one asked for.
\<close>

theorem insert_expand_to_fit:
  assumes "res_wf p" and "r_start new \<le> r_end new" and "r_child new = []"
    and "r_start p \<le> r_start new" and "r_end new \<le> r_end p"
  shows "\<exists>p' new'. insert_resource_expand_to_fit p new False = (p', new') \<and> res_wf p'
    \<and> res_items p' = add_mset (item new') (res_items p) \<and> r_ptr new' = r_ptr new
    \<and> r_start new' \<le> r_start new \<and> r_end new \<le> r_end new'"
  using expand_spec [OF assms] by (cases "expand_loop p new") (simp add: insert_resource_expand_to_fit_def)

theorem insert_expand_to_fit_witness:
  "\<exists>p'. insert_resource_expand_to_fit ex_root (Resource 9 0x1800 0x37FF 0 ''bus'' []) False
     = (p', Resource 9 0x1000 0x3FFF 0 ''bus'' []) \<and> res_wf p'"
proof -
  let ?new = "Resource 9 0x1800 0x37FF 0 ''bus'' []"
  have wf: "res_wf ex_root" by code_simp
  have "snd (insert_resource_expand_to_fit ex_root ?new False) = Resource 9 0x1000 0x3FFF 0 ''bus'' []" by code_simp
  moreover have "\<exists>p' new'. insert_resource_expand_to_fit ex_root ?new False = (p', new') \<and> res_wf p'"
    using insert_expand_to_fit [OF wf, of ?new] by (auto simp: ex_root_def)
  ultimately show ?thesis by auto
qed

text \<open>
  C29: a successful \<open>__request_region\<close> keeps the tree well-formed and adds exactly one busy region;
  \<open>__release_region\<close> of the same range restores the tree. \<open>__check_region\<close> never changes the tree
  and says whether \<open>__request_region\<close> would succeed.
\<close>

theorem region_round_trip:
  assumes "res_wf p" and "ptr \<notin> r_ptr ` set (res_below (r_child p))"
  shows "(\<forall>p'. u_request_region p (Some ptr) start n name flags = (p', Some ptr) \<longrightarrow>
      res_wf p' \<and> u_release_region p' start n = Some p
      \<and> res_items p' = add_mset (ptr, start, start + n - 1, IORESOURCE_BUSY OR flags, name) (res_items p))
    \<and> u_check_region p (Some ptr) start n
      = (p, if snd (u_request_region p (Some ptr) start n ''check-region'' 0) = None then Err EBUSY else Ok ())"
proof -
  have "(IORESOURCE_BUSY OR flags) AND IORESOURCE_BUSY = IORESOURCE_BUSY" for flags
    by (rule bit_word_eqI) (auto simp: bit_simps)
  then have "busy (Resource ptr start (start + n - 1) (IORESOURCE_BUSY OR flags) name [])" for flags name
    by (simp add: busy_def IORESOURCE_BUSY_def)
  then have req: "res_wf p' \<and> item p' = item p \<and> res_items p' = add_mset (ptr, start, start + n - 1, IORESOURCE_BUSY OR flags, name) (res_items p)
      \<and> release_region_walk start (start + n - 1) (r_child p') = Some (r_child p) \<and> release_below ptr (r_child p') = Some (r_child p)"
    if "region_loop p (Resource ptr start (start + n - 1) (IORESOURCE_BUSY OR flags) name []) = Inl p'" for p' flags name
    using region_loop_spec [OF assms(1) _ that] assms(2) by (simp add: item_def)
  have same: "with_child p' (r_child p) = p" if "item p' = item p" for p'
    using that with_child_same [of p] by (simp add: item_def with_child_def)
  show ?thesis
    using req req [where flags = 0] same by (auto simp: u_request_region_def u_release_region_def u_check_region_def split: sum.splits)
qed

theorem region_round_trip_witness:
  "u_release_region (fst (u_request_region ex_root (Some 9) 0x1800 0x100 ''eth'' 0)) 0x1800 0x100 = Some ex_root
   \<and> fst (u_check_region ex_root (Some 9) 0x1800 0x100) = ex_root"
proof -
  have a: "res_wf ex_root" "9 \<notin> r_ptr ` set (res_below (r_child ex_root))" by code_simp+
  have "snd (u_request_region ex_root (Some 9) 0x1800 0x100 ''eth'' 0) = Some 9" by code_simp
  then show ?thesis using region_round_trip [OF a, where start = "0x1800" and n = "0x100" and name = "''eth''" and flags = 0]
    by (cases "u_request_region ex_root (Some 9) 0x1800 0x100 ''eth'' 0") simp
qed

text \<open>
  C18: a successful \<open>allocate_resource\<close> keeps the tree well-formed and adds a resource of the asked
  size, which is aligned and ends at \<open>max\<close> at most. It starts at \<open>min\<close> at least, unless rounding
  up the start wrapped around: then it starts at 0.
\<close>

theorem allocate_resource_spec:
  assumes "res_wf root" and "r_child new = []" and "align = 2 ^ k" and "k < 32"
    and "allocate_resource root new siz mn mx align None = (Ok root', new')"
  shows "res_wf root' \<and> res_items root' = add_mset (item new') (res_items root)
    \<and> r_start root \<le> r_start new' \<and> r_start new' \<le> r_end new' \<and> r_end new' \<le> r_end root
    \<and> (\<forall>c \<in> set (r_child root). \<not> overlaps c new')
    \<and> r_end new' = r_start new' + siz - 1 \<and> r_end new' \<le> mx \<and> r_start new' AND (align - 1) = 0
    \<and> (mn \<le> r_start new' \<or> r_start new' = 0)"
proof -
  obtain s e where f: "find_resource root new siz mn mx align None = (Ok (), with_range new s e)" "new' = with_range new s e"
    and g: "u_request_resource root new' = Granted root'"
    using assms(5) by (auto simp: allocate_resource_def find_resource_def Let_def split: prod.splits kres.splits req.splits if_splits)
  then obtain st this where w: "find_walk (r_end root) siz mn mx align None st this = (True, s, e)"
    by (auto simp: find_resource_def Let_def with_range_def split: prod.splits if_splits)
  have k: "kids_wf (r_start root) (r_end root) (r_child root)" using assms(1) res_wf_iff [of root] by auto
  have new: "r_start new' = s" "r_end new' = e" "r_child new' = []" using f(2) assms(2) by simp_all
  obtain xs ys where xy: "r_child root = xs @ ys" "root' = with_child root (xs @ new' # ys)"
    "\<forall>x \<in> set xs. r_end x < r_start new'" "\<forall>y \<in> set ys. r_end new' < r_start y"
    "r_start new' \<le> r_end new'" "r_start root \<le> r_start new'" "r_end new' \<le> r_end root"
    by (rule u_request_granted [OF k g])
  have "res_wf new'" using new xy(5) res_wf_iff [of new'] by (simp add: kids_wf_def)
  then have "res_wf root'" using u_request_granted_wf [OF assms(1) _ g] by blast
  moreover have "res_items root' = add_mset (item new') (res_items root)"
    using xy(1,2) new(3) by (simp add: res_items_eq [of root] res_items_eq [of new'])
  moreover have "\<forall>c \<in> set (r_child root). \<not> overlaps c new'" using xy by (auto simp: overlaps_def)
  ultimately show ?thesis using find_walk_found [OF w assms(3,4)] xy(5-7) new by auto
qed

theorem allocate_resource_witness:
  "(\<exists>root' new'. allocate_resource ex_root (Resource 9 0 0 0 ''dev'' []) 0x800 0x1400 0xFFFFFFFF 0x1000 None = (Ok root', new')
      \<and> res_wf root' \<and> r_start new' = 0x2000)
   \<and> (\<exists>root' new'. allocate_resource ex_root (Resource 9 0 0 0 ''dev'' []) 0x800 0xFFFFF001 0xFFFFFFFF 0x1000 None = (Ok root', new')
      \<and> res_wf root' \<and> r_start new' = 0)"
proof -
  let ?new = "Resource 9 0 0 0 ''dev'' []"
  have wf: "res_wf ex_root" "r_child ?new = []" "(0x1000 :: ulong) = 2 ^ 12" "(12::nat) < 32" by code_simp+
  have a: "case allocate_resource ex_root ?new 0x800 0x1400 0xFFFFFFFF 0x1000 None of (Ok _, n) \<Rightarrow> r_start n = 0x2000 | _ \<Rightarrow> False"
    "case allocate_resource ex_root ?new 0x800 0xFFFFF001 0xFFFFFFFF 0x1000 None of (Ok _, n) \<Rightarrow> r_start n = 0 | _ \<Rightarrow> False"
    by code_simp+
  show ?thesis
    using a allocate_resource_spec [OF wf(1,2) wf(3,4)] by (auto split: prod.splits kres.splits)
qed

text \<open>
  When \<open>adjust_resource\<close> succeeds, the tree it leaves is well-formed exactly when the new range is
  not empty and does not wrap around; the function itself does not check this.
\<close>

theorem adjust_resource_wf:
  assumes "res_wf p" and "i < length (r_child p)" and "adjust_resource p i start siz = Ok p'"
  shows "(res_wf p' \<longleftrightarrow> start \<le> start + siz - 1)
    \<and> p' = with_child p ((r_child p)[i := with_range (r_child p ! i) start (start + siz - 1)])"
proof -
  let ?cs = "r_child p"
  let ?e = "start + siz - 1"
  let ?r = "with_range (?cs ! i) start ?e"
  have k: "r_start p \<le> r_end p" "kids_wf (r_start p) (r_end p) ?cs" using assms(1) res_wf_iff [of p] by auto
  have ok: "r_start p \<le> start" "?e \<le> r_end p" "\<forall>t \<in> set (r_child (?cs ! i)). start \<le> r_start t \<and> r_end t \<le> ?e"
    "Suc i < length ?cs \<longrightarrow> ?e < r_start (?cs ! Suc i)" "0 < i \<longrightarrow> r_end (?cs ! (i - 1)) < start"
    "p' = with_child p (?cs[i := ?r])"
    using assms(3) by (auto simp: adjust_resource_def Let_def list_ex_iff not_less not_le split: if_splits)
  have sp: "kids_wf (r_start p) (r_end p) (take i ?cs)" "kids_wf (r_start p) (r_end p) (drop (Suc i) ?cs)" "res_wf (?cs ! i)"
    "\<forall>x \<in> set (take i ?cs). \<forall>y \<in> set (drop (Suc i) ?cs). r_end x < r_start y"
    using k(2) nth_split [OF assms(2)] kids_wf_append [of _ _ "take i ?cs" "?cs ! i # drop (Suc i) ?cs"] by (auto simp: kids_wf_Cons)
  have "res_wf ?r \<longleftrightarrow> start \<le> ?e"
    using sp(3) ok(3) res_wf_iff [of ?r] res_wf_iff [of "?cs ! i"] by (auto simp: kids_wf_def)
  moreover have "\<forall>x \<in> set (take i ?cs). r_end x < start"
  proof (cases i)
    case (Suc j)
    have "r_end x \<le> r_end (?cs ! j)" if "x \<in> set (take i ?cs)" for x
    proof -
      from that obtain m where m: "m < i" "x = ?cs ! m" using assms(2) by (auto simp: in_set_conv_nth)
      show ?thesis
      proof (cases "m = j")
        case False
        then have "r_end x < r_start (?cs ! j)" using m Suc k(2) assms(2) by (simp add: kids_wf_def sorted_wrt_iff_nth_less)
        moreover have "r_start (?cs ! j) \<le> r_end (?cs ! j)" using kids_wf_range [OF k(2), of "?cs ! j"] Suc assms(2) by simp
        ultimately show ?thesis by simp
      qed (use m in simp)
    qed
    then show ?thesis using ok(5) Suc by (auto intro: le_less_trans)
  qed simp
  moreover have "\<forall>y \<in> set (drop (Suc i) ?cs). ?e < r_start y"
    by (rule kids_wf_after [OF sp(2)]) (use ok(4) in \<open>auto simp: hd_drop_conv_nth\<close>)
  ultimately show ?thesis
    using ok(1,2,6) sp k(1) by (auto simp: res_wf_with_child list_update_split [OF assms(2)] kids_wf_append kids_wf_Cons)
qed

theorem adjust_resource_witness:
  "res_wf (with_child ex_root ((r_child ex_root)[0 := Resource 2 0x0800 0x2FFF 0x200 ''ram'' []]))
   \<and> \<not> res_wf (with_child ex_root ((r_child ex_root)[0 := Resource 2 0x0800 0x07FF 0x200 ''ram'' []]))"
proof -
  have a: "res_wf ex_root" "0 < length (r_child ex_root)" by code_simp+
  have "adjust_resource ex_root 0 0x0800 0x2800 = Ok (with_child ex_root ((r_child ex_root)[0 := Resource 2 0x0800 0x2FFF 0x200 ''ram'' []]))"
    "adjust_resource ex_root 0 0x0800 0 = Ok (with_child ex_root ((r_child ex_root)[0 := Resource 2 0x0800 0x07FF 0x200 ''ram'' []]))"
    by code_simp+
  from adjust_resource_wf [OF a this(1), THEN conjunct1] adjust_resource_wf [OF a this(2), THEN conjunct1] show ?thesis by simp
qed

text \<open>
  C28: for a range inside the root \<open>reserve_region_with_split\<close> returns, whichever of its allocations
  fail, and leaves a well-formed tree.
\<close>

theorem reserve_split_terminates:
  assumes "res_wf root" and "s \<le> e" and "r_start root \<le> s" and "e \<le> r_end root"
  shows "\<exists>root'. reserve_region_with_split kz root s e name = Some root' \<and> res_wf root' \<and> item root' = item root"
  using reserve_terminates [OF assms, of kz name 0] by (auto simp: reserve_region_with_split_def)

theorem reserve_split_terminates_witness:
  "\<exists>root'. reserve_region_with_split (\<lambda>k. Some (k + 100)) ex_root 0x1800 0x37FF ''fw'' = Some root' \<and> res_wf root'"
  using reserve_split_terminates [of ex_root "0x1800" "0x37FF" "\<lambda>k. Some (k + 100)" "''fw''"]
  by (auto simp: ex_root_def)

text \<open>
  C38: for a range that starts before the root, \<open>reserve_region_with_split\<close> never returns as long as its
  allocations succeed: the part before the root is tried again and again.
\<close>

theorem reserve_split_diverges:
  assumes "\<forall>k. kz k \<noteq> None" and "s < r_start root"
  shows "reserve_region_with_split kz root s e name = None"
  using assms reserve_diverges [of kz name 0 root s e]
  by (cases "u_reserve_region_with_split kz name 0 root s e") (auto simp: reserve_region_with_split_def)

theorem reserve_split_diverges_witness:
  "reserve_region_with_split Some (Resource 1 0x100 0xFFFF 0x100 ''PCI IO'' []) 0xF0 0x1FF ''fw'' = None"
  using reserve_split_diverges [of Some "0xF0" "Resource 1 0x100 0xFFFF 0x100 ''PCI IO'' []"] by simp

text \<open>
  The walk with \<open>r_next\<close> visits the resources below the root in preorder, each once; on a
  well-formed tree \<open>iomem_is_exclusive\<close>, which stops at the first resource behind the page, says
  whether any resource of the tree that is busy and exclusive touches the page of the address.
\<close>

theorem iomem_is_exclusive_spec:
  assumes "res_wf iomem"
  shows "r_all iomem = tl (res_pre iomem)
    \<and> (iomem_is_exclusive True iomem addr \<longleftrightarrow>
      (\<exists>r \<in> set (tl (res_pre iomem)). r_flags r AND IORESOURCE_BUSY \<noteq> 0 \<and> r_flags r AND IORESOURCE_EXCLUSIVE \<noteq> 0
         \<and> (ucast (r_start r) :: u64) < (addr AND NOT 4095) + 4096 \<and> addr AND NOT 4095 \<le> ucast (r_end r)))"
proof -
  have "sorted_wrt (\<lambda>a b. r_start a \<le> r_start b) (tl (res_pre iomem))"
    using res_pre_sorted [OF assms] by (cases "res_pre iomem") simp_all
  then show ?thesis using r_all_eq [of iomem] res_pre_eq [of iomem]
    by (simp add: iomem_is_exclusive_def exclusive_walk_eq)
qed

theorem iomem_is_exclusive_witness:
  "iomem_is_exclusive True (Resource 1 0 0xFFFFFFFF 0 ''mem'' [Resource 2 0x1000 0x2FFF 0x88000000 ''fb'' []]) 0x2345"
  using iomem_is_exclusive_spec [of "Resource 1 0 0xFFFFFFFF 0 ''mem'' [Resource 2 0x1000 0x2FFF 0x88000000 ''fb'' []]" "0x2345"]
  by (simp add: IORESOURCE_BUSY_def IORESOURCE_EXCLUSIVE_def)

end
