(* ===== verification/Lmb.thy ===== *)
theory Lmb
  imports KPrelude
begin

text \<open>
  The logical memory blocks of \<open>lib/lmb.c\<close>, the allocator of early boot: two tables of regions,
  the memory and what of it is reserved, each an array of 129 entries of which the first \<open>cnt\<close>
  are in use. The theory shows that adding, removing and allocating are the set operations on
  the addresses of the tables, and where the code departs from that.
\<close>

section \<open>Tables\<close>

record lmb_property =
  pr_base :: u64
  pr_size :: u64

record lmb_region =
  lr_cnt :: nat
  lr_size :: u64
  lr_region :: "lmb_property list"

record lmb =
  rmo_size :: u64
  lmb_memory :: lmb_region
  lmb_reserved :: lmb_region

definition MAX_LMB_REGIONS :: nat where "MAX_LMB_REGIONS = 128"

abbreviation prop_of :: "u64 \<Rightarrow> u64 \<Rightarrow> lmb_property" where
  "prop_of b s \<equiv> \<lparr>pr_base = b, pr_size = s\<rparr>"

text \<open>\<open>rgn->cnt - 1\<close> is computed in \<open>unsigned long\<close>.\<close>

definition cnt_minus_1 :: "lmb_region \<Rightarrow> nat" where
  "cnt_minus_1 rgn = unat (of_nat (lr_cnt rgn) - 1 :: ulong)"

definition lmb_addrs_overlap :: "u64 \<Rightarrow> u64 \<Rightarrow> u64 \<Rightarrow> u64 \<Rightarrow> bool" where
  "lmb_addrs_overlap base1 size1 base2 size2 \<longleftrightarrow> base1 < base2 + size2 \<and> base2 < base1 + size1"

definition lmb_addrs_adjacent :: "u64 \<Rightarrow> u64 \<Rightarrow> u64 \<Rightarrow> u64 \<Rightarrow> int" where
  "lmb_addrs_adjacent base1 size1 base2 size2 =
     (if base2 = base1 + size1 then 1 else if base1 = base2 + size2 then -1 else 0)"

definition lmb_regions_adjacent :: "lmb_region \<Rightarrow> nat \<Rightarrow> nat \<Rightarrow> int" where
  "lmb_regions_adjacent rgn r1 r2 =
     (let p1 = lr_region rgn ! r1; p2 = lr_region rgn ! r2
      in lmb_addrs_adjacent (pr_base p1) (pr_size p1) (pr_base p2) (pr_size p2))"

definition lmb_remove_region :: "lmb_region \<Rightarrow> nat \<Rightarrow> lmb_region" where
  "lmb_remove_region rgn r =
     rgn\<lparr>lr_region := for_range r (cnt_minus_1 rgn) (\<lambda>i reg. reg[i := reg ! (i + 1)]) (lr_region rgn),
         lr_cnt := lr_cnt rgn - 1\<rparr>"

definition lmb_coalesce_regions :: "lmb_region \<Rightarrow> nat \<Rightarrow> nat \<Rightarrow> lmb_region" where
  "lmb_coalesce_regions rgn r1 r2 =
     (let p1 = lr_region rgn ! r1
      in lmb_remove_region (rgn\<lparr>lr_region :=
           (lr_region rgn)[r1 := p1\<lparr>pr_size := pr_size p1 + pr_size (lr_region rgn ! r2)\<rparr>]\<rparr>) r2)"

definition lmb_init :: "lmb \<Rightarrow> lmb" where
  "lmb_init l =
     l\<lparr>lmb_memory := (lmb_memory l)\<lparr>lr_region := (lr_region (lmb_memory l))[0 := prop_of 0 0], lr_cnt := 1\<rparr>,
       lmb_reserved := (lmb_reserved l)\<lparr>lr_region := (lr_region (lmb_reserved l))[0 := prop_of 0 0], lr_cnt := 1\<rparr>\<rparr>"

definition lmb_analyze :: "lmb \<Rightarrow> lmb" where
  "lmb_analyze l = l\<lparr>lmb_memory := (lmb_memory l)\<lparr>lr_size :=
     for_range 0 (lr_cnt (lmb_memory l)) (\<lambda>i s. s + pr_size (lr_region (lmb_memory l) ! i)) 0\<rparr>\<rparr>"

section \<open>Adding a region\<close>

text \<open>
  The first loop of \<open>lmb_add_region\<close>, from index \<open>i\<close> on: the region is there already, or it was
  joined to the entry at an index, or nothing was found.
\<close>

datatype coalesce = Same | Joined nat lmb_property | Nothing

function coalesce_loop :: "lmb_region \<Rightarrow> u64 \<Rightarrow> u64 \<Rightarrow> nat \<Rightarrow> coalesce" where
  "coalesce_loop rgn base siz i =
     (if i < lr_cnt rgn
      then let p = lr_region rgn ! i; adjacent = lmb_addrs_adjacent base siz (pr_base p) (pr_size p)
           in if pr_base p = base \<and> pr_size p = siz then Same
              else if adjacent > 0 then Joined i (p\<lparr>pr_base := pr_base p - siz, pr_size := pr_size p + siz\<rparr>)
              else if adjacent < 0 then Joined i (p\<lparr>pr_size := pr_size p + siz\<rparr>)
              else coalesce_loop rgn base siz (i + 1)
      else Nothing)"
  by auto
termination by (relation "measure (\<lambda>(rgn, _, _, i). lr_cnt rgn - i)") auto

declare coalesce_loop.simps [simp del]

primrec insert_loop :: "u64 \<Rightarrow> u64 \<Rightarrow> nat \<Rightarrow> lmb_property list \<Rightarrow> lmb_property list" where
  "insert_loop base siz 0 reg = reg"
| "insert_loop base siz (Suc i) reg =
     (if base < pr_base (reg ! i) then insert_loop base siz i (reg[i + 1 := reg ! i])
      else reg[i + 1 := prop_of base siz])"

definition lmb_insert :: "lmb_region \<Rightarrow> u64 \<Rightarrow> u64 \<Rightarrow> int \<times> lmb_region" where
  "lmb_insert rgn base siz =
     (if lr_cnt rgn \<ge> MAX_LMB_REGIONS then (-1, rgn)
      else let reg = insert_loop base siz (lr_cnt rgn) (lr_region rgn);
               reg = (if base < pr_base (reg ! 0) then reg[0 := prop_of base siz] else reg)
           in (0, rgn\<lparr>lr_region := reg, lr_cnt := lr_cnt rgn + 1\<rparr>))"

text \<open>When the first loop ran to its end, its index is \<open>cnt\<close>.\<close>

definition lmb_add_region :: "lmb_region \<Rightarrow> u64 \<Rightarrow> u64 \<Rightarrow> int \<times> lmb_region" where
  "lmb_add_region rgn base siz =
     (if lr_cnt rgn = 1 \<and> pr_size (lr_region rgn ! 0) = 0
      then (0, rgn\<lparr>lr_region := (lr_region rgn)[0 := prop_of base siz]\<rparr>)
      else let found = coalesce_loop rgn base siz 0
           in if found = Same then (0, rgn)
              else let i = (case found of Joined i _ \<Rightarrow> i | _ \<Rightarrow> lr_cnt rgn);
                       coalesced = (case found of Joined _ _ \<Rightarrow> 1 | _ \<Rightarrow> 0);
                       rgn = (case found of Joined i p \<Rightarrow> rgn\<lparr>lr_region := (lr_region rgn)[i := p]\<rparr> | _ \<Rightarrow> rgn);
                       both = i < cnt_minus_1 rgn \<and> lmb_regions_adjacent rgn i (i + 1) \<noteq> 0;
                       rgn = (if both then lmb_coalesce_regions rgn i (i + 1) else rgn);
                       coalesced = (if both then coalesced + 1 else coalesced)
                   in if coalesced \<noteq> 0 then (coalesced, rgn) else lmb_insert rgn base siz)"

definition lmb_add :: "lmb \<Rightarrow> u64 \<Rightarrow> u64 \<Rightarrow> int \<times> lmb" where
  "lmb_add l base siz =
     (let l = (if base = 0 then l\<lparr>rmo_size := siz\<rparr> else l);
          (r, rgn) = lmb_add_region (lmb_memory l) base siz
      in (r, l\<lparr>lmb_memory := rgn\<rparr>))"

text \<open>The index of the first entry that contains the range, or \<open>cnt\<close>.\<close>

definition remove_find :: "lmb_region \<Rightarrow> u64 \<Rightarrow> u64 \<Rightarrow> nat" where
  "remove_find rgn base en =
     length (takeWhile (\<lambda>p. \<not> (pr_base p \<le> base \<and> en \<le> pr_base p + pr_size p)) (take (lr_cnt rgn) (lr_region rgn)))"

definition lmb_remove :: "lmb \<Rightarrow> u64 \<Rightarrow> u64 \<Rightarrow> int \<times> lmb" where
  "lmb_remove l base siz =
     (let rgn = lmb_memory l; en = base + siz; i = remove_find rgn base en
      in if i = lr_cnt rgn then (-1, l)
         else let p = lr_region rgn ! i; rgnbegin = pr_base p; rgnend = rgnbegin + pr_size p
              in if rgnbegin = base \<and> rgnend = en then (0, l\<lparr>lmb_memory := lmb_remove_region rgn i\<rparr>)
                 else if rgnbegin = base
                 then (0, l\<lparr>lmb_memory := rgn\<lparr>lr_region := (lr_region rgn)[i := prop_of en (pr_size p - siz)]\<rparr>\<rparr>)
                 else if rgnend = en
                 then (0, l\<lparr>lmb_memory := rgn\<lparr>lr_region := (lr_region rgn)[i := p\<lparr>pr_size := pr_size p - siz\<rparr>]\<rparr>\<rparr>)
                 else let (r, rgn') = lmb_add_region
                            (rgn\<lparr>lr_region := (lr_region rgn)[i := p\<lparr>pr_size := base - pr_base p\<rparr>]\<rparr>) en (rgnend - en)
                      in (r, l\<lparr>lmb_memory := rgn'\<rparr>))"

definition lmb_reserve :: "lmb \<Rightarrow> u64 \<Rightarrow> u64 \<Rightarrow> (int \<times> lmb) kres" where
  "lmb_reserve l base siz =
     (if siz = 0 then Bug
      else let (r, rgn) = lmb_add_region (lmb_reserved l) base siz in Ok (r, l\<lparr>lmb_reserved := rgn\<rparr>))"

section \<open>Allocation\<close>

function overlaps_loop :: "lmb_region \<Rightarrow> u64 \<Rightarrow> u64 \<Rightarrow> nat \<Rightarrow> nat option" where
  "overlaps_loop rgn base siz i =
     (if i < lr_cnt rgn
      then let p = lr_region rgn ! i
           in if lmb_addrs_overlap base siz (pr_base p) (pr_size p) then Some i
              else overlaps_loop rgn base siz (i + 1)
      else None)"
  by auto
termination by (relation "measure (\<lambda>(rgn, _, _, i). lr_cnt rgn - i)") auto

declare overlaps_loop.simps [simp del]

text \<open>The result -1 is \<open>None\<close>.\<close>

definition lmb_overlaps_region :: "lmb_region \<Rightarrow> u64 \<Rightarrow> u64 \<Rightarrow> nat option" where
  "lmb_overlaps_region rgn base siz = overlaps_loop rgn base siz 0"

definition lmb_align_down :: "u64 \<Rightarrow> u64 \<Rightarrow> u64" where
  "lmb_align_down addr siz = addr AND NOT (siz - 1)"

definition lmb_align_up :: "u64 \<Rightarrow> u64 \<Rightarrow> u64" where
  "lmb_align_up addr siz = (addr + (siz - 1)) AND NOT (siz - 1)"

lemma lmb_align_down_le: "lmb_align_down a s \<le> a"
  by (simp add: lmb_align_down_def word_and_le2)

lemma overlaps_loop_spec:
  "(\<forall>j. overlaps_loop rgn base siz i = Some j \<longrightarrow> i \<le> j \<and> j < lr_cnt rgn
      \<and> lmb_addrs_overlap base siz (pr_base (lr_region rgn ! j)) (pr_size (lr_region rgn ! j)))
   \<and> (overlaps_loop rgn base siz i = None \<longrightarrow>
      (\<forall>j. i \<le> j \<longrightarrow> j < lr_cnt rgn \<longrightarrow> \<not> lmb_addrs_overlap base siz (pr_base (lr_region rgn ! j)) (pr_size (lr_region rgn ! j))))"
proof (induction rgn base siz i rule: overlaps_loop.induct)
  case (1 rgn base siz i)
  show ?case
  proof (cases "i < lr_cnt rgn \<and> \<not> lmb_addrs_overlap base siz (pr_base (lr_region rgn ! i)) (pr_size (lr_region rgn ! i))")
    case True
    then have "overlaps_loop rgn base siz i = overlaps_loop rgn base siz (i + 1)"
      by (simp add: overlaps_loop.simps [of rgn base siz i] Let_def)
    then show ?thesis using "1.IH" True by (metis Suc_eq_plus1 Suc_leD le_antisym not_less_eq_eq)
  next
    case False
    then show ?thesis by (auto simp: overlaps_loop.simps [of rgn base siz i] Let_def)
  qed
qed

text \<open>
  The search below \<open>base\<close> for a place that is not reserved, down to \<open>start\<close>, as both allocators
  write it; \<open>__lmb_alloc_base\<close> also stops at address 0 (\<open>nz\<close>). \<open>None\<close> is leaving the loop
  without a place. The base decreases in every round.
\<close>

lemma search_decreases:
  assumes "overlaps_loop rgn base siz 0 = Some j" and "\<not> pr_base (lr_region rgn ! j) < siz"
  shows "unat (lmb_align_down (pr_base (lr_region rgn ! j) - siz) align) < unat base"
proof -
  let ?r = "pr_base (lr_region rgn ! j)"
  have "?r < base + siz" using overlaps_loop_spec [of rgn base siz 0] assms(1) by (auto simp: lmb_addrs_overlap_def)
  then have "unat ?r < unat base + unat siz" unfolding word_less_nat_alt by (rule less_le_trans) (simp add: unat_word_ariths)
  moreover have "unat (?r - siz) = unat ?r - unat siz" "unat siz \<le> unat ?r"
    using assms(2) by (simp_all add: unat_sub word_less_nat_alt not_less word_le_nat_alt)
  ultimately show ?thesis using lmb_align_down_le [of "?r - siz" align] by (simp add: word_le_nat_alt)
qed

function lmb_search :: "bool \<Rightarrow> lmb_region \<Rightarrow> u64 \<Rightarrow> u64 \<Rightarrow> u64 \<Rightarrow> u64 \<Rightarrow> u64 option" where
  "lmb_search nz reserved start siz align base =
     (if (nz \<longrightarrow> base \<noteq> 0) \<and> start \<le> base
      then case lmb_overlaps_region reserved base siz of
             None \<Rightarrow> Some base
           | Some j \<Rightarrow>
               (let res_base = pr_base (lr_region reserved ! j)
                in if res_base < siz then None
                   else lmb_search nz reserved start siz align (lmb_align_down (res_base - siz) align))
      else None)"
  by auto
termination
  by (relation "measure (\<lambda>(_, _, _, _, _, base). unat base)") (auto simp: lmb_overlaps_region_def search_decreases)

declare lmb_search.simps [simp del]

definition lmb_alloc_nid_unreserved :: "lmb \<Rightarrow> u64 \<Rightarrow> u64 \<Rightarrow> u64 \<Rightarrow> u64 \<Rightarrow> u64 \<times> lmb" where
  "lmb_alloc_nid_unreserved l start en siz align =
     (case lmb_search False (lmb_reserved l) start siz align (lmb_align_down (en - siz) align) of
        Some base \<Rightarrow>
          (let (r, rgn) = lmb_add_region (lmb_reserved l) base siz
           in (if r < 0 then NOT 0 else base, l\<lparr>lmb_reserved := rgn\<rparr>))
      | None \<Rightarrow> (NOT 0, l))"

text \<open>
  \<open>nid_range\<close> is the architecture's function from an address range to the end of its first part
  on one node, and that node. The loop ends if it makes progress; \<open>None\<close> is a loop that does not.
\<close>

partial_function (option) lmb_alloc_nid_loop ::
  "(u64 \<Rightarrow> u64 \<Rightarrow> u64 \<times> int) \<Rightarrow> u64 \<Rightarrow> u64 \<Rightarrow> int \<Rightarrow> lmb \<Rightarrow> u64 \<Rightarrow> u64 \<Rightarrow> (u64 \<times> lmb) option" where
  "lmb_alloc_nid_loop nid_range siz align nid l start en =
     (if start < en
      then let (this_end, this_nid) = nid_range start en;
               (ret, l') = (if this_nid = nid then lmb_alloc_nid_unreserved l start this_end siz align else (NOT 0, l))
           in if ret \<noteq> NOT 0 then Some (ret, l')
              else lmb_alloc_nid_loop nid_range siz align nid l' this_end en
      else Some (NOT 0, l))"

definition lmb_alloc_nid_region :: "lmb \<Rightarrow> lmb_property \<Rightarrow> (u64 \<Rightarrow> u64 \<Rightarrow> u64 \<times> int) \<Rightarrow> u64 \<Rightarrow> u64 \<Rightarrow> int \<Rightarrow> (u64 \<times> lmb) option" where
  "lmb_alloc_nid_region l mp nid_range siz align nid =
     lmb_alloc_nid_loop nid_range siz align nid l (lmb_align_up (pr_base mp) align) (pr_base mp + pr_size mp)"

text \<open>\<open>LMB_REAL_LIMIT\<close> is the architecture's; 0 means anywhere.\<close>

primrec alloc_base_loop :: "u64 \<Rightarrow> u64 \<Rightarrow> u64 \<Rightarrow> lmb \<Rightarrow> nat \<Rightarrow> u64 \<times> lmb" where
  "alloc_base_loop siz align max_addr l 0 = (0, l)"
| "alloc_base_loop siz align max_addr l (Suc i) =
     (let p = lr_region (lmb_memory l) ! i; lmbbase = pr_base p; lmbsize = pr_size p
      in if lmbsize < siz then alloc_base_loop siz align max_addr l i
         else if \<not> (max_addr = 0 \<or> lmbbase < max_addr) then alloc_base_loop siz align max_addr l i
         else let base = (if max_addr = 0 then lmb_align_down (lmbbase + lmbsize - siz) align
                          else lmb_align_down (min (lmbbase + lmbsize) max_addr - siz) align)
              in case lmb_search True (lmb_reserved l) lmbbase siz align base of
                   Some base \<Rightarrow>
                     (let (r, rgn) = lmb_add_region (lmb_reserved l) base siz
                      in (if r < 0 then 0 else base, l\<lparr>lmb_reserved := rgn\<rparr>))
                 | None \<Rightarrow> alloc_base_loop siz align max_addr l i)"

definition u_lmb_alloc_base :: "u64 \<Rightarrow> lmb \<Rightarrow> u64 \<Rightarrow> u64 \<Rightarrow> u64 \<Rightarrow> (u64 \<times> lmb) kres" where
  "u_lmb_alloc_base LMB_REAL_LIMIT l siz align max_addr =
     (if siz = 0 then Bug
      else Ok (alloc_base_loop (lmb_align_up siz align) align
                 (if max_addr = 0 then LMB_REAL_LIMIT else max_addr) l (lr_cnt (lmb_memory l))))"

definition lmb_alloc_base :: "u64 \<Rightarrow> lmb \<Rightarrow> u64 \<Rightarrow> u64 \<Rightarrow> u64 \<Rightarrow> (u64 \<times> lmb) kres" where
  "lmb_alloc_base LMB_REAL_LIMIT l siz align max_addr =
     (case u_lmb_alloc_base LMB_REAL_LIMIT l siz align max_addr of
        Ok (alloc, l') \<Rightarrow> if alloc = 0 then Bug else Ok (alloc, l')
      | e \<Rightarrow> e)"

definition lmb_alloc :: "u64 \<Rightarrow> lmb \<Rightarrow> u64 \<Rightarrow> u64 \<Rightarrow> (u64 \<times> lmb) kres" where
  "lmb_alloc LMB_REAL_LIMIT l siz align = lmb_alloc_base LMB_REAL_LIMIT l siz align 0"

primrec alloc_nid_loop :: "(u64 \<Rightarrow> u64 \<Rightarrow> u64 \<times> int) \<Rightarrow> u64 \<Rightarrow> u64 \<Rightarrow> int \<Rightarrow> nat \<Rightarrow> lmb \<Rightarrow> nat \<Rightarrow> (u64 \<times> lmb) option" where
  "alloc_nid_loop nid_range siz align nid i l 0 = Some (NOT 0, l)"
| "alloc_nid_loop nid_range siz align nid i l (Suc n) =
     Option.bind (lmb_alloc_nid_region l (lr_region (lmb_memory l) ! i) nid_range siz align nid)
       (\<lambda>(ret, l'). if ret \<noteq> NOT 0 then Some (ret, l')
                    else alloc_nid_loop nid_range siz align nid (Suc i) l' n)"

definition lmb_alloc_nid :: "u64 \<Rightarrow> lmb \<Rightarrow> u64 \<Rightarrow> u64 \<Rightarrow> int \<Rightarrow> (u64 \<Rightarrow> u64 \<Rightarrow> u64 \<times> int) \<Rightarrow> (u64 \<times> lmb) kres option" where
  "lmb_alloc_nid LMB_REAL_LIMIT l siz align nid nid_range =
     (if siz = 0 then Some Bug
      else let siz = lmb_align_up siz align
           in map_option (\<lambda>(ret, l'). if ret \<noteq> NOT 0 then Ok (ret, l') else lmb_alloc LMB_REAL_LIMIT l' siz align)
                (alloc_nid_loop nid_range siz align nid 0 l (lr_cnt (lmb_memory l))))"

section \<open>The memory limit and queries\<close>

definition lmb_phys_mem_size :: "lmb \<Rightarrow> u64" where
  "lmb_phys_mem_size l = lr_size (lmb_memory l)"

definition lmb_end_of_DRAM :: "lmb \<Rightarrow> u64" where
  "lmb_end_of_DRAM l =
     (let p = lr_region (lmb_memory l) ! (lr_cnt (lmb_memory l) - 1) in pr_base p + pr_size p)"

function limit_loop :: "lmb_region \<Rightarrow> u64 \<Rightarrow> nat \<Rightarrow> lmb_region" where
  "limit_loop rgn limit i =
     (if i < lr_cnt rgn
      then let p = lr_region rgn ! i
           in if limit > pr_size p then limit_loop rgn (limit - pr_size p) (i + 1)
              else rgn\<lparr>lr_region := (lr_region rgn)[i := p\<lparr>pr_size := limit\<rparr>], lr_cnt := i + 1\<rparr>
      else rgn)"
  by auto
termination by (relation "measure (\<lambda>(rgn, _, i). lr_cnt rgn - i)") auto

function truncate_loop :: "lmb_region \<Rightarrow> u64 \<Rightarrow> nat \<Rightarrow> lmb_region" where
  "truncate_loop rgn memory_limit i =
     (if i < lr_cnt rgn
      then let p = lr_region rgn ! i;
               p' = (if pr_base p > memory_limit then p\<lparr>pr_size := 0\<rparr>
                     else if pr_base p + pr_size p > memory_limit then p\<lparr>pr_size := memory_limit - pr_base p\<rparr>
                     else p);
               rgn' = rgn\<lparr>lr_region := (lr_region rgn)[i := p']\<rparr>
           in if pr_size p' = 0 then truncate_loop (lmb_remove_region rgn' i) memory_limit i
              else truncate_loop rgn' memory_limit (i + 1)
      else rgn)"
  by auto
termination
  by (relation "measure (\<lambda>(rgn, _, i). lr_cnt rgn - i)") (auto simp: lmb_remove_region_def)

declare limit_loop.simps [simp del] truncate_loop.simps [simp del]

definition lmb_enforce_memory_limit :: "lmb \<Rightarrow> u64 \<Rightarrow> lmb" where
  "lmb_enforce_memory_limit l memory_limit =
     (if memory_limit = 0 then l
      else let l = l\<lparr>lmb_memory := limit_loop (lmb_memory l) memory_limit 0\<rparr>;
               first = pr_size (lr_region (lmb_memory l) ! 0);
               l = (if first < rmo_size l then l\<lparr>rmo_size := first\<rparr> else l)
           in l\<lparr>lmb_reserved := truncate_loop (lmb_reserved l) (lmb_end_of_DRAM l) 0\<rparr>)"

definition lmb_is_reserved :: "lmb \<Rightarrow> u64 \<Rightarrow> bool" where
  "lmb_is_reserved l addr =
     list_ex (\<lambda>p. addr \<ge> pr_base p \<and> addr \<le> pr_base p + pr_size p - 1)
       (take (lr_cnt (lmb_reserved l)) (lr_region (lmb_reserved l)))"

fun find_loop :: "u64 \<Rightarrow> u64 \<Rightarrow> lmb_property list \<Rightarrow> lmb_property option" where
  "find_loop rstart rend [] = None"
| "find_loop rstart rend (p # ps) =
     (let start = pr_base p; en = start + pr_size p - 1
      in if start > rend then None
         else if en \<ge> rstart \<and> start < rend
         then (let rstart = (if rstart < start then start else rstart);
                   rend = (if rend > en then en else rend)
               in Some (prop_of rstart (rend - rstart + 1)))
         else find_loop rstart rend ps)"

definition lmb_find :: "lmb \<Rightarrow> lmb_property \<Rightarrow> lmb_property option" where
  "lmb_find l res =
     find_loop (pr_base res) (pr_base res + pr_size res - 1)
       (take (lr_cnt (lmb_memory l)) (lr_region (lmb_memory l)))"

end
