(* ===== verification/Lmb_Tables.thy ===== *)
theory Lmb_Tables
  imports Lmb
begin

text \<open>
  The laws of \<open>Lmb\<close>: a table in use is sorted, its regions do not touch each other, and adding,
  removing and allocating change the set of addresses of a table as they should.
\<close>

section \<open>Tables as sets of addresses\<close>

abbreviation lo :: "lmb_property \<Rightarrow> nat" where "lo p \<equiv> unat (pr_base p)"
abbreviation hi :: "lmb_property \<Rightarrow> nat" where "hi p \<equiv> unat (pr_base p) + unat (pr_size p)"

definition regs_ok :: "lmb_property list \<Rightarrow> bool" where
  "regs_ok ps \<longleftrightarrow> (\<forall>p \<in> set ps. 0 < unat (pr_size p) \<and> hi p < 2 ^ 64) \<and> sorted_wrt (\<lambda>p q. hi p < lo q) ps"

definition regs_set :: "lmb_property list \<Rightarrow> nat set" where
  "regs_set ps = (\<Union>p \<in> set ps. {lo p..<hi p})"

definition rg_list :: "lmb_region \<Rightarrow> lmb_property list" where
  "rg_list r = take (lr_cnt r) (lr_region r)"

definition rg_dummy :: "lmb_region \<Rightarrow> bool" where
  "rg_dummy r \<longleftrightarrow> lr_cnt r = 1 \<and> pr_size (lr_region r ! 0) = 0"

definition rg_wf :: "lmb_region \<Rightarrow> bool" where
  "rg_wf r \<longleftrightarrow> length (lr_region r) = 129 \<and> 1 \<le> lr_cnt r \<and> lr_cnt r \<le> 128 \<and> (regs_ok (rg_list r) \<or> rg_dummy r)"

definition rg_set :: "lmb_region \<Rightarrow> nat set" where
  "rg_set r = regs_set (rg_list r)"

lemma regs_ok_append:
  "regs_ok (xs @ ys) \<longleftrightarrow> regs_ok xs \<and> regs_ok ys \<and> (\<forall>x \<in> set xs. \<forall>y \<in> set ys. hi x < lo y)"
  by (auto simp: regs_ok_def sorted_wrt_append)

lemma regs_ok_Cons:
  "regs_ok (q # ys) \<longleftrightarrow> 0 < unat (pr_size q) \<and> hi q < 2 ^ 64 \<and> regs_ok ys \<and> (\<forall>y \<in> set ys. hi q < lo y)"
  by (auto simp: regs_ok_def)

lemma regs_ok_Nil [simp]: "regs_ok []"
  by (simp add: regs_ok_def)

lemma regs_set_simps [simp]:
  "regs_set [] = {}" "regs_set (p # ps) = {lo p..<hi p} \<union> regs_set ps" "regs_set (xs @ ys) = regs_set xs \<union> regs_set ys"
  by (simp_all add: regs_set_def)

lemma regs_okD: "regs_ok ps \<Longrightarrow> p \<in> set ps \<Longrightarrow> 0 < unat (pr_size p) \<and> hi p < 2 ^ 64"
  by (auto simp: regs_ok_def)

lemma regs_setI: "p \<in> set ps \<Longrightarrow> lo p \<le> x \<Longrightarrow> x < hi p \<Longrightarrow> x \<in> regs_set ps"
  by (auto simp: regs_set_def)

lemma length_rg_list: "lr_cnt r \<le> length (lr_region r) \<Longrightarrow> length (rg_list r) = lr_cnt r"
  by (simp add: rg_list_def)

lemma nth_rg_list: "i < lr_cnt r \<Longrightarrow> rg_list r ! i = lr_region r ! i"
  by (simp add: rg_list_def)

lemma rg_list_upd [simp]: "rg_list (r\<lparr>lr_region := (lr_region r)[j := q]\<rparr>) = (rg_list r)[j := q]"
  by (simp add: rg_list_def take_update_swap)

lemma rg_dummy_set: "rg_dummy r \<Longrightarrow> rg_set r = {}"
  by (cases "lr_region r") (auto simp: rg_dummy_def rg_set_def rg_list_def)

lemma unat_add_u64: "unat a + unat b < 2 ^ 64 \<Longrightarrow> unat (a + b) = unat a + unat b" for a b :: u64
  by (simp add: unat_word_ariths)

lemma cnt_minus_1_eq: "0 < lr_cnt r \<Longrightarrow> lr_cnt r \<le> 129 \<Longrightarrow> cnt_minus_1 r = lr_cnt r - 1"
  using unat_minus_one [of "of_nat (lr_cnt r) :: ulong"]
  by (simp add: cnt_minus_1_def unat_of_nat flip: unat_eq_0)

lemma nth_shift_down:
  assumes "j < length reg" and "n < length reg" and "r \<le> n"
  shows "for_range r n (\<lambda>i reg. reg[i := reg ! (i + 1)]) reg ! j = (if r \<le> j \<and> j < n then reg ! (j + 1) else reg ! j)"
  using assms
proof (induction n arbitrary: j)
  case (Suc n)
  show ?case
  proof (cases "r \<le> n")
    case True
    then have "for_range r n (\<lambda>i reg. reg[i := reg ! (i + 1)]) reg ! Suc n = reg ! Suc n"
      using Suc.IH [of "Suc n"] Suc.prems by simp
    then show ?thesis using Suc.IH [of j] Suc.prems True
      by (auto simp: nth_list_update length_for_range less_Suc_eq)
  next
    case False
    then show ?thesis using Suc.prems by (auto simp: le_Suc_eq)
  qed
qed simp

lemma rg_list_remove:
  assumes "length (lr_region r) = 129" and "i < lr_cnt r" and "lr_cnt r \<le> 128"
  shows "rg_list (lmb_remove_region r i) = take i (rg_list r) @ drop (Suc i) (rg_list r)"
    and "length (lr_region (lmb_remove_region r i)) = 129" and "lr_cnt (lmb_remove_region r i) = lr_cnt r - 1"
proof -
  have c: "cnt_minus_1 r = lr_cnt r - 1" using assms by (simp add: cnt_minus_1_eq)
  show "rg_list (lmb_remove_region r i) = take i (rg_list r) @ drop (Suc i) (rg_list r)"
  proof (rule nth_equalityI)
    show "length (rg_list (lmb_remove_region r i)) = length (take i (rg_list r) @ drop (Suc i) (rg_list r))"
      using assms by (simp add: rg_list_def lmb_remove_region_def length_for_range)
    fix j assume "j < length (rg_list (lmb_remove_region r i))"
    then have j: "j < lr_cnt r - 1" using assms by (simp add: rg_list_def lmb_remove_region_def length_for_range)
    then show "rg_list (lmb_remove_region r i) ! j = (take i (rg_list r) @ drop (Suc i) (rg_list r)) ! j"
      using assms nth_shift_down [of j "lr_region r" "lr_cnt r - 1" i]
      by (simp add: rg_list_def lmb_remove_region_def c nth_append min_def)
  qed
qed (use assms in \<open>simp_all add: lmb_remove_region_def length_for_range\<close>)

section \<open>Adding a region\<close>

lemma adjacent_iff:
  assumes "unat b + unat s < 2 ^ 64" and "hi p < 2 ^ 64"
  shows "lmb_addrs_adjacent b s (pr_base p) (pr_size p) =
    (if lo p = unat b + unat s then 1 else if unat b = hi p then -1 else 0)"
proof -
  have "pr_base p = b + s \<longleftrightarrow> lo p = unat b + unat s" using unat_add_u64 [OF assms(1)] by (simp add: word_unat_eq_iff)
  moreover have "b = pr_base p + pr_size p \<longleftrightarrow> unat b = hi p" using unat_add_u64 [OF assms(2)] by (simp add: word_unat_eq_iff)
  ultimately show ?thesis by (simp add: lmb_addrs_adjacent_def)
qed

lemma coalesce_loop_spec:
  "case coalesce_loop r b s i of
     Same \<Rightarrow> \<exists>j. i \<le> j \<and> j < lr_cnt r \<and> pr_base (lr_region r ! j) = b \<and> pr_size (lr_region r ! j) = s
   | Joined j p' \<Rightarrow> i \<le> j \<and> j < lr_cnt r
       \<and> (\<forall>m. i \<le> m \<longrightarrow> m < j \<longrightarrow> lmb_addrs_adjacent b s (pr_base (lr_region r ! m)) (pr_size (lr_region r ! m)) = 0)
       \<and> (let p = lr_region r ! j; a = lmb_addrs_adjacent b s (pr_base p) (pr_size p)
          in a > 0 \<and> p' = p\<lparr>pr_base := pr_base p - s, pr_size := pr_size p + s\<rparr> \<or> a < 0 \<and> p' = p\<lparr>pr_size := pr_size p + s\<rparr>)
   | Nothing \<Rightarrow> \<forall>m. i \<le> m \<longrightarrow> m < lr_cnt r \<longrightarrow> lmb_addrs_adjacent b s (pr_base (lr_region r ! m)) (pr_size (lr_region r ! m)) = 0"
proof (induction r b s i rule: coalesce_loop.induct)
  case (1 r b s i)
  let ?p = "lr_region r ! i"
  let ?a = "lmb_addrs_adjacent b s (pr_base ?p) (pr_size ?p)"
  show ?case
  proof (cases "i < lr_cnt r \<and> \<not> (pr_base ?p = b \<and> pr_size ?p = s) \<and> ?a = 0")
    case True
    then have eq: "coalesce_loop r b s i = coalesce_loop r b s (i + 1)"
      by (auto simp: coalesce_loop.simps [of r b s i] Let_def)
    have st: "i \<le> m \<longleftrightarrow> m = i \<or> i + 1 \<le> m" for m by auto
    show ?thesis using "1.IH" True unfolding eq
      by (cases "coalesce_loop r b s (i + 1)") (auto simp: st Let_def)
  next
    case False
    then show ?thesis by (auto simp: coalesce_loop.simps [of r b s i] Let_def lmb_addrs_adjacent_def)
  qed
qed

lemma length_insert_loop [simp]: "length (insert_loop b s n reg) = length reg"
  by (induction n arbitrary: reg) auto

lemma insert_loop_above: "n < j \<Longrightarrow> insert_loop b s n reg ! j = reg ! j"
  by (induction n arbitrary: reg) auto

lemma insert_loop_spec:
  assumes "n < length reg" and "sorted_wrt (\<lambda>p q. pr_base p < pr_base q) (take n reg)"
    and "n = 0 \<longrightarrow> b < pr_base (reg ! 0)"
    and "reg1 = insert_loop b s n reg"
  shows "\<exists>xs ys. take n reg = xs @ ys
    \<and> take (Suc n) (if b < pr_base (reg1 ! 0) then reg1[0 := prop_of b s] else reg1) = xs @ prop_of b s # ys
    \<and> (\<forall>x \<in> set xs. pr_base x \<le> b) \<and> (\<forall>y \<in> set ys. b < pr_base y)"
  using assms
proof (induction n arbitrary: reg reg1)
  case 0
  then show ?case by (cases reg) auto
next
  case (Suc n)
  have tk: "take (Suc n) reg = take n reg @ [reg ! n]" using Suc.prems(1) by (simp add: take_Suc_conv_app_nth)
  show ?case
  proof (cases "b < pr_base (reg ! n)")
    case True
    let ?reg = "reg[n + 1 := reg ! n]"
    let ?r1 = "insert_loop b s n ?reg"
    let ?r2 = "if b < pr_base (?r1 ! 0) then ?r1[0 := prop_of b s] else ?r1"
    have pre: "n < length ?reg" "sorted_wrt (\<lambda>p q. pr_base p < pr_base q) (take n ?reg)" "n = 0 \<longrightarrow> b < pr_base (?reg ! 0)"
      using Suc.prems(1,2) True unfolding tk by (auto simp: sorted_wrt_append)
    obtain xs ys where "take n ?reg = xs @ ys" and xy: "take (Suc n) ?r2 = xs @ prop_of b s # ys"
      "\<forall>x \<in> set xs. pr_base x \<le> b" "\<forall>y \<in> set ys. b < pr_base y"
      using Suc.IH [OF pre refl] by blast
    then have nx: "take n reg = xs @ ys" by simp
    have "?r1 ! Suc n = reg ! n" using insert_loop_above [of n "Suc n" b s ?reg] Suc.prems(1) by simp
    then have t2: "take (Suc (Suc n)) ?r2 = xs @ prop_of b s # (ys @ [reg ! n])"
      using xy(1) Suc.prems(1) by (simp add: take_Suc_conv_app_nth [of "Suc n"])
    have "take (Suc n) reg = xs @ (ys @ [reg ! n])" "\<forall>y \<in> set (ys @ [reg ! n]). b < pr_base y"
      using tk nx True xy(3) by simp_all
    moreover have "reg1 = ?r1" using True Suc.prems(4) by simp
    ultimately show ?thesis using t2 xy(2) by blast
  next
    case False
    have le: "\<forall>x \<in> set (take (Suc n) reg). pr_base x \<le> b"
      using Suc.prems(2) False unfolding tk by (auto simp: sorted_wrt_append not_less intro: order.trans less_imp_le)
    have r1: "reg1 = reg[n + 1 := prop_of b s]" using False Suc.prems(4) by simp
    have "pr_base (reg ! 0) \<le> b" using le Suc.prems(1) by (cases reg) auto
    then have "\<not> b < pr_base (reg1 ! 0)" using r1 by simp
    moreover have "take (Suc (Suc n)) reg1 = take (Suc n) reg @ [prop_of b s]"
      using r1 Suc.prems(1) by (simp add: take_Suc_conv_app_nth [of "Suc n"])
    ultimately show ?thesis using le by (intro exI [of _ "take (Suc n) reg"] exI [of _ "[]"]) simp
  qed
qed

text \<open>A range that misses a region lies before or behind it.\<close>

lemma before_or_behind:
  fixes a b c d :: nat
  assumes "{a..<b} \<inter> {c..<d} = {}" and "a < b" and "c < d"
  shows "b \<le> c \<or> d \<le> a"
  using assms by (metis (no_types, lifting) Int_atLeastLessThan atLeastLessThan_empty_iff2 max_less_iff_conj min_less_iff_conj not_less)

lemma lmb_add_joined:
  assumes ok: "regs_ok (xs @ p # ys)" and new: "0 < unat s" "unat b + unat s < 2 ^ 64"
    and dj: "{unat b..<unat b + unat s} \<inter> regs_set (xs @ p # ys) = {}"
    and na: "\<forall>x \<in> set xs. unat b \<noteq> hi x"
  shows "lo p = unat b + unat s \<Longrightarrow> p' = p\<lparr>pr_base := pr_base p - s, pr_size := pr_size p + s\<rparr> \<Longrightarrow>
      regs_ok (xs @ p' # ys) \<and> regs_set (xs @ p' # ys) = regs_set (xs @ p # ys) \<union> {unat b..<unat b + unat s}
      \<and> lo p' = unat b \<and> hi p' = hi p"
    and "unat b = hi p \<Longrightarrow> p' = p\<lparr>pr_size := pr_size p + s\<rparr> \<Longrightarrow>
      regs_ok (xs @ [p']) \<and> regs_set (xs @ p' # ys) = regs_set (xs @ p # ys) \<union> {unat b..<unat b + unat s}
      \<and> lo p' = lo p \<and> hi p' = unat b + unat s \<and> (\<forall>y \<in> set ys. hi p' \<le> lo y)"
proof -
  note k = ok [unfolded regs_ok_append regs_ok_Cons]
  have dj': "{unat b..<unat b + unat s} \<inter> {lo q..<hi q} = {}" if "q \<in> set (xs @ p # ys)" for q
    using dj that unfolding regs_set_def by blast
  have side: "unat b + unat s \<le> lo q \<or> hi q \<le> unat b" if "q \<in> set (xs @ p # ys)" for q
    using before_or_behind [OF dj' [OF that]] new(1) regs_okD [OF ok that] by simp
  show "regs_ok (xs @ p' # ys) \<and> regs_set (xs @ p' # ys) = regs_set (xs @ p # ys) \<union> {unat b..<unat b + unat s}
      \<and> lo p' = unat b \<and> hi p' = hi p"
    if p: "lo p = unat b + unat s" and p': "p' = p\<lparr>pr_base := pr_base p - s, pr_size := pr_size p + s\<rparr>"
  proof -
    have sz: "unat (pr_size p + s) = unat (pr_size p) + unat s" using k p by (intro unat_add_u64) simp
    have "s \<le> pr_base p" using p by (simp add: word_le_nat_alt)
    then have bs: "unat (pr_base p - s) = unat b" using p by (simp add: unat_sub)
    have "hi x < unat b" if "x \<in> set xs" for x
    proof -
      have "lo x < lo p" "lo x < hi x" using k that regs_okD [of xs x] by fastforce+
      then show ?thesis using side [of x] that na k p by force
    qed
    then show ?thesis using k p p' sz bs by (auto simp: regs_ok_append regs_ok_Cons)
  qed
  show "regs_ok (xs @ [p']) \<and> regs_set (xs @ p' # ys) = regs_set (xs @ p # ys) \<union> {unat b..<unat b + unat s}
      \<and> lo p' = lo p \<and> hi p' = unat b + unat s \<and> (\<forall>y \<in> set ys. hi p' \<le> lo y)"
    if p: "unat b = hi p" and p': "p' = p\<lparr>pr_size := pr_size p + s\<rparr>"
  proof -
    have sz: "unat (pr_size p + s) = unat (pr_size p) + unat s" using new(2) p by (intro unat_add_u64) simp
    have "unat b + unat s \<le> lo y" if "y \<in> set ys" for y
    proof -
      have "unat b < lo y" using k that p by auto
      then show ?thesis using side [of y] that by force
    qed
    then show ?thesis using k p p' sz new by (auto simp: regs_ok_append regs_ok_Cons add.assoc)
  qed
qed

lemma regs_ok_bases: "regs_ok ps \<Longrightarrow> sorted_wrt (\<lambda>p q. pr_base p < pr_base q) ps"
  unfolding regs_ok_def by (elim conjE) (erule sorted_wrt_mono_rel [rotated], simp add: word_less_nat_alt)

lemma regs_ok_insert:
  assumes ok: "regs_ok (xs @ ys)" and new: "0 < unat s" "unat b + unat s < 2 ^ 64"
    and dj: "{unat b..<unat b + unat s} \<inter> regs_set (xs @ ys) = {}"
    and na: "\<forall>p \<in> set (xs @ ys). lo p \<noteq> unat b + unat s \<and> unat b \<noteq> hi p"
    and le: "\<forall>x \<in> set xs. pr_base x \<le> b" and gt: "\<forall>y \<in> set ys. b < pr_base y"
  shows "regs_ok (xs @ prop_of b s # ys)"
proof -
  have side: "unat b + unat s < lo q \<or> hi q < unat b" if "q \<in> set (xs @ ys)" for q
  proof -
    have "{unat b..<unat b + unat s} \<inter> {lo q..<hi q} = {}" using dj that unfolding regs_set_def by blast
    then have "unat b + unat s \<le> lo q \<or> hi q \<le> unat b"
      by (rule before_or_behind) (use new(1) regs_okD [OF ok that] in simp_all)
    then show ?thesis using na that by force
  qed
  have "hi x < unat b" if "x \<in> set xs" for x
    using side [of x] that le new(1) by (fastforce simp: word_le_nat_alt)
  moreover have "unat b + unat s < lo y" if "y \<in> set ys" for y
    using side [of y] that gt by (fastforce simp: word_less_nat_alt)
  ultimately show ?thesis using ok new by (auto simp: regs_ok_append regs_ok_Cons)
qed

lemma lmb_insert_spec:
  assumes "length (lr_region r) = 129" and "1 \<le> lr_cnt r" and "lr_cnt r < 128" and ok: "regs_ok (rg_list r)"
    and new: "0 < unat s" "unat b + unat s < 2 ^ 64"
    and dj: "{unat b..<unat b + unat s} \<inter> rg_set r = {}"
    and na: "\<forall>p \<in> set (rg_list r). lo p \<noteq> unat b + unat s \<and> unat b \<noteq> hi p"
  shows "\<exists>r'. lmb_insert r b s = (0, r') \<and> length (lr_region r') = 129 \<and> lr_cnt r' = lr_cnt r + 1
    \<and> regs_ok (rg_list r') \<and> rg_set r' = rg_set r \<union> {unat b..<unat b + unat s}"
proof -
  let ?n = "lr_cnt r"
  define reg1 where "reg1 = insert_loop b s ?n (lr_region r)"
  define reg2 where "reg2 = (if b < pr_base (reg1 ! 0) then reg1[0 := prop_of b s] else reg1)"
  have "sorted_wrt (\<lambda>p q. pr_base p < pr_base q) (take ?n (lr_region r))" using regs_ok_bases [OF ok] by (simp add: rg_list_def)
  then obtain xs ys where xy: "rg_list r = xs @ ys" "take (Suc ?n) reg2 = xs @ prop_of b s # ys"
    "\<forall>x \<in> set xs. pr_base x \<le> b" "\<forall>y \<in> set ys. b < pr_base y"
    using insert_loop_spec [of ?n "lr_region r" b reg1 s] assms(1-3) by (auto simp: reg1_def reg2_def rg_list_def)
  have "lmb_insert r b s = (0, r\<lparr>lr_region := reg2, lr_cnt := ?n + 1\<rparr>)"
    using assms(3) by (simp add: lmb_insert_def MAX_LMB_REGIONS_def Let_def reg1_def reg2_def)
  moreover have "length reg2 = 129" using assms(1) by (simp add: reg2_def reg1_def)
  moreover have "regs_ok (xs @ prop_of b s # ys)"
    using regs_ok_insert [of xs ys s b] ok new dj na xy by (simp add: rg_set_def)
  ultimately show ?thesis using xy(1,2) by (auto simp: rg_list_def rg_set_def)
qed

lemma lmb_add_region_spec:
  assumes wf: "rg_wf r" and new: "0 < unat s" "unat b + unat s < 2 ^ 64"
    and dj: "{unat b..<unat b + unat s} \<inter> rg_set r = {}"
  shows "case lmb_add_region r b s of (res, r') \<Rightarrow>
    if res < 0 then res = -1 \<and> r' = r \<and> lr_cnt r = 128
    else rg_wf r' \<and> regs_ok (rg_list r') \<and> rg_set r' = rg_set r \<union> {unat b..<unat b + unat s}"
proof (cases "rg_dummy r")
  case True
  then have "lmb_add_region r b s = (0, r\<lparr>lr_region := (lr_region r)[0 := prop_of b s]\<rparr>)"
    by (simp add: lmb_add_region_def rg_dummy_def)
  moreover have "rg_list (r\<lparr>lr_region := (lr_region r)[0 := prop_of b s]\<rparr>) = [prop_of b s]"
    using True wf by (cases "lr_region r") (auto simp: rg_list_def rg_dummy_def rg_wf_def)
  ultimately show ?thesis using True wf new rg_dummy_set [OF True]
    by (auto simp: rg_wf_def rg_set_def regs_ok_Cons rg_dummy_def)
next
  case False
  have r: "length (lr_region r) = 129" "1 \<le> lr_cnt r" "lr_cnt r \<le> 128" "regs_ok (rg_list r)"
    using wf False by (auto simp: rg_wf_def)
  have len: "length (rg_list r) = lr_cnt r" using r by (simp add: length_rg_list)
  have cm: "cnt_minus_1 r = lr_cnt r - 1" using r by (simp add: cnt_minus_1_eq)
  have hi: "hi (lr_region r ! m) < 2 ^ 64 \<and> 0 < unat (pr_size (lr_region r ! m))" if "m < lr_cnt r" for m
    using regs_okD [OF r(4), of "lr_region r ! m"] that len nth_rg_list [OF that] by (metis nth_mem)
  note cs = coalesce_loop_spec [where r = r and b = b and s = s and i = 0]
  have eq: "lmb_add_region r b s = (let found = coalesce_loop r b s 0
           in if found = Same then (0, r)
              else let i = (case found of Joined i _ \<Rightarrow> i | _ \<Rightarrow> lr_cnt r);
                       coalesced = (case found of Joined _ _ \<Rightarrow> 1 | _ \<Rightarrow> 0);
                       rgn = (case found of Joined i p \<Rightarrow> r\<lparr>lr_region := (lr_region r)[i := p]\<rparr> | _ \<Rightarrow> r);
                       both = i < cnt_minus_1 rgn \<and> lmb_regions_adjacent rgn i (i + 1) \<noteq> 0;
                       rgn = (if both then lmb_coalesce_regions rgn i (i + 1) else rgn);
                       coalesced = (if both then coalesced + 1 else coalesced)
                   in if coalesced \<noteq> 0 then (coalesced, rgn) else lmb_insert rgn b s)"
    using False by (simp only: lmb_add_region_def rg_dummy_def if_False)
  show ?thesis
  proof (cases "coalesce_loop r b s 0")
    case Same
    then obtain j where j: "j < lr_cnt r" "pr_base (lr_region r ! j) = b" "pr_size (lr_region r ! j) = s" using cs by auto
    then have "lr_region r ! j \<in> set (rg_list r)" using len nth_rg_list [OF j(1)] by (metis nth_mem)
    then have "unat b \<in> rg_set r" using regs_setI [of "lr_region r ! j" "rg_list r" "unat b"] j(2,3) new(1) by (simp add: rg_set_def)
    moreover have "unat b \<in> {unat b..<unat b + unat s}" using new(1) by simp
    ultimately show ?thesis using dj by blast
  next
    case Nothing
    have "lo (lr_region r ! m) \<noteq> unat b + unat s \<and> unat b \<noteq> hi (lr_region r ! m)" if m: "m < lr_cnt r" for m
    proof -
      have "lmb_addrs_adjacent b s (pr_base (lr_region r ! m)) (pr_size (lr_region r ! m)) = 0"
        using cs Nothing m by simp
      then show ?thesis using adjacent_iff [OF new(2), of "lr_region r ! m"] hi [OF m] by (auto split: if_splits)
    qed
    then have na: "\<forall>p \<in> set (rg_list r). lo p \<noteq> unat b + unat s \<and> unat b \<noteq> hi p"
      using len nth_rg_list by (metis in_set_conv_nth)
    have "\<not> lr_cnt r < cnt_minus_1 r" using cm by linarith
    then have e: "lmb_add_region r b s = lmb_insert r b s" unfolding eq using Nothing by (simp add: Let_def)
    show ?thesis
    proof (cases "lr_cnt r = 128")
      case True
      then show ?thesis by (simp add: e lmb_insert_def MAX_LMB_REGIONS_def)
    next
      case False
      then show ?thesis using lmb_insert_spec [OF r(1,2) _ r(4) new dj na] r(3) e by (auto simp: rg_wf_def)
    qed
  next
    case (Joined j p')
    define p where "p = lr_region r ! j"
    define xs where "xs = take j (rg_list r)"
    define ys where "ys = drop (Suc j) (rg_list r)"
    define r1 where "r1 = r\<lparr>lr_region := (lr_region r)[j := p']\<rparr>"
    have j: "j < lr_cnt r" using Joined cs by simp
    have ps: "rg_list r = xs @ p # ys" "length xs = j"
      using id_take_nth_drop [of j "rg_list r"] j len nth_rg_list [OF j] by (simp_all add: xs_def ys_def p_def)
    have r1: "rg_list r1 = xs @ p' # ys" "length (lr_region r1) = 129" "lr_cnt r1 = lr_cnt r"
      using r(1) ps by (simp_all add: r1_def list_update_append)
    have cm1: "cnt_minus_1 r1 = lr_cnt r - 1" using r1(3) cm by (simp add: cnt_minus_1_def)
    have hip: "hi p < 2 ^ 64" using hi [OF j] by (simp add: p_def)
    have na: "unat b \<noteq> hi x" if "x \<in> set xs" for x
    proof -
      obtain m where m: "m < j" "x = lr_region r ! m"
        using \<open>x \<in> set xs\<close> nth_rg_list j len by (auto simp: xs_def in_set_conv_nth)
      then have "lmb_addrs_adjacent b s (pr_base x) (pr_size x) = 0" using cs Joined by simp
      then show ?thesis using adjacent_iff [OF new(2), of x] hi [of m] m j by (auto split: if_splits)
    qed
    note jn = lmb_add_joined [OF r(4) [unfolded ps(1)] new dj [unfolded rg_set_def ps(1)]]
    have ad: "lo p = unat b + unat s \<and> p' = p\<lparr>pr_base := pr_base p - s, pr_size := pr_size p + s\<rparr>
        \<or> unat b = hi p \<and> p' = p\<lparr>pr_size := pr_size p + s\<rparr>"
      using cs Joined adjacent_iff [OF new(2) hip] by (auto simp: p_def Let_def split: if_splits)
    have st: "rg_set r = regs_set (xs @ p # ys)" by (simp add: rg_set_def ps(1))
    have nab: "\<forall>x \<in> set xs. unat b \<noteq> hi x" using na by blast
    have sets: "regs_set (xs @ p' # ys) = regs_set (xs @ p # ys) \<union> {unat b..<unat b + unat s}"
      using ad jn(1) [OF nab, of p'] jn(2) [OF nab, of p'] by blast
    let ?both = "j < lr_cnt r - 1 \<and> lmb_regions_adjacent r1 j (j + 1) \<noteq> 0"
    have e: "lmb_add_region r b s = (if ?both then (2, lmb_coalesce_regions r1 j (j + 1)) else (1, r1))"
      unfolding eq using Joined cm1 by (simp add: Let_def r1_def)
    have nx: "ys = lr_region r1 ! (j + 1) # tl ys" if "j < lr_cnt r - 1"
    proof -
      have "rg_list r1 ! (j + 1) = lr_region r1 ! (j + 1)" using that r1(3) by (intro nth_rg_list) simp
      moreover have "ys \<noteq> []" using that len ps by auto
      ultimately show ?thesis using r1(1) ps(2) by (cases ys) (simp_all add: nth_append)
    qed
    have adj: "lmb_regions_adjacent r1 j (j + 1) = lmb_addrs_adjacent (pr_base p') (pr_size p') (pr_base (hd ys)) (pr_size (hd ys))"
      if "j < lr_cnt r - 1"
      using nx [OF that] j r(1,3) by (simp add: lmb_regions_adjacent_def Let_def r1_def) (metis list.sel(1))
    show ?thesis
    proof (cases "regs_ok (xs @ p' # ys)")
      case True
      have "\<not> ?both"
      proof
        assume b: ?both
        then have y: "hd ys \<in> set ys" using nx by (metis list.set_sel(1) list.distinct(1))
        then have "hi p' < lo (hd ys)" "hi p' < 2 ^ 64" "hi (hd ys) < 2 ^ 64"
          using True regs_okD [of ys "hd ys"] by (auto simp: regs_ok_append regs_ok_Cons)
        then have "lmb_addrs_adjacent (pr_base p') (pr_size p') (pr_base (hd ys)) (pr_size (hd ys)) = 0"
          using adjacent_iff [of "pr_base p'" "pr_size p'" "hd ys"] by auto
        then show False using b adj by auto
      qed
      then have "lmb_add_region r b s = (1, r1)" using e by auto
      then show ?thesis using True sets r1 r(2,3) st by (simp add: rg_wf_def rg_set_def)
    next
      case False
      then have p: "unat b = hi p" "p' = p\<lparr>pr_size := pr_size p + s\<rparr>" using ad jn(1) [OF nab, of p'] by blast+
      have q: "regs_ok (xs @ [p'])" "\<forall>y \<in> set ys. hi p' \<le> lo y" using jn(2) [OF nab p] by blast+
      have oy: "regs_ok (xs @ p # ys)" using r(4) ps(1) by simp
      obtain y zs where y: "ys = y # zs" "hi p' = lo y"
      proof -
        have "\<exists>y zs. ys = y # zs \<and> hi p' = lo y"
        proof (rule ccontr)
          assume n: "\<not> (\<exists>y zs. ys = y # zs \<and> hi p' = lo y)"
          have "\<forall>y \<in> set ys. hi p' < lo y"
          proof (cases ys)
            case (Cons y zs)
            then have "hi p' < lo y" using n q(2) by force
            then show ?thesis using oy Cons by (force simp: regs_ok_append regs_ok_Cons)
          qed simp
          then have "regs_ok (xs @ p' # ys)" using q(1) oy by (auto simp: regs_ok_append regs_ok_Cons)
          then show False using False by simp
        qed
        then show ?thesis using that by blast
      qed
      have jc: "j < lr_cnt r - 1" using y(1) len ps by simp
      have yk: "lr_region r1 ! (j + 1) = y" "0 < unat (pr_size y)" "hi y < 2 ^ 64" "hi p' < 2 ^ 64"
        using nx [OF jc] y(1) oy q(1) by (auto simp: regs_ok_append regs_ok_Cons)
      have both: ?both using jc adj [OF jc] y adjacent_iff [OF yk(4,3)] by simp
      define q' where "q' = p'\<lparr>pr_size := pr_size p' + pr_size y\<rparr>"
      define r2 where "r2 = r1\<lparr>lr_region := (lr_region r1)[j := q']\<rparr>"
      have co: "lmb_coalesce_regions r1 j (j + 1) = lmb_remove_region r2 (j + 1)"
        using yk(1) j r(1,3) by (simp add: lmb_coalesce_regions_def Let_def r2_def q'_def) (simp add: r1_def)
      have r2: "rg_list r2 = xs @ q' # ys" "length (lr_region r2) = 129" "lr_cnt r2 = lr_cnt r"
        using r1 ps(2) by (simp_all add: r2_def list_update_append)
      have rm: "rg_list (lmb_remove_region r2 (j + 1)) = xs @ q' # zs"
        "length (lr_region (lmb_remove_region r2 (j + 1))) = 129" "lr_cnt (lmb_remove_region r2 (j + 1)) = lr_cnt r - 1"
        using rg_list_remove [of r2 "j + 1"] r2 jc r(3) y(1) ps(2) by simp_all
      have hq: "lo q' = lo p'" "hi q' = hi y"
        using unat_add_u64 [of "pr_size p'" "pr_size y"] yk(3) y(2) by (simp_all add: q'_def)
      have "regs_ok (xs @ q' # zs)" using q(1) oy y yk hq by (auto simp: regs_ok_append regs_ok_Cons)
      moreover have "regs_set (xs @ q' # zs) = regs_set (xs @ p' # ys)" using hq y yk by (auto simp: regs_set_def)
      ultimately show ?thesis using e both co rm sets st jc r(3) by (simp add: rg_wf_def rg_set_def)
    qed
  qed
qed

end
