(* ===== verification/Lmb_Props.thy ===== *)
theory Lmb_Props
  imports Lmb_Tables
begin

text \<open>
  What the allocator of \<open>Lmb\<close> returns and what removing memory does, on every branch.
\<close>

section \<open>Allocation\<close>






section \<open>Removal\<close>





section \<open>Properties\<close>

definition lmb_start :: lmb where
  "lmb_start = lmb_init \<lparr>rmo_size = 0,
     lmb_memory = \<lparr>lr_cnt = 0, lr_size = 0, lr_region = replicate 129 (prop_of 0 0)\<rparr>,
     lmb_reserved = \<lparr>lr_cnt = 0, lr_size = 0, lr_region = replicate 129 (prop_of 0 0)\<rparr>\<rparr>"

definition lmb_example :: lmb where
  "lmb_example = snd (lmb_add lmb_start 0x1000 0x10000)"

lemma rg_wf_single:
  "lr_cnt r = 1 \<Longrightarrow> length (lr_region r) = 129 \<Longrightarrow> lr_region r ! 0 = p \<Longrightarrow> 0 < unat (pr_size p) \<Longrightarrow> hi p < 2 ^ 64 \<Longrightarrow>
   rg_wf r \<and> rg_list r = [p] \<and> \<not> rg_dummy r"
  by (cases "lr_region r") (auto simp: rg_wf_def rg_list_def rg_dummy_def regs_ok_Cons)

lemma lmb_example_tables:
  "rg_wf (lmb_memory lmb_example)" "rg_list (lmb_memory lmb_example) = [prop_of 0x1000 0x10000]"
  "\<not> rg_dummy (lmb_memory lmb_example)" "rg_wf (lmb_reserved lmb_example)" "rg_set (lmb_reserved lmb_example) = {}"
proof -
  have m: "lr_cnt (lmb_memory lmb_example) = 1" "length (lr_region (lmb_memory lmb_example)) = 129"
    "lr_region (lmb_memory lmb_example) ! 0 = prop_of 0x1000 0x10000" by code_simp+
  have r: "lr_cnt (lmb_reserved lmb_example) = 1" "length (lr_region (lmb_reserved lmb_example)) = 129"
    "pr_size (lr_region (lmb_reserved lmb_example) ! 0) = 0" by code_simp+
  show "rg_wf (lmb_memory lmb_example)" "rg_list (lmb_memory lmb_example) = [prop_of 0x1000 0x10000]"
    "\<not> rg_dummy (lmb_memory lmb_example)" using rg_wf_single [OF m] by simp_all
  show "rg_wf (lmb_reserved lmb_example)" "rg_set (lmb_reserved lmb_example) = {}"
    using r rg_dummy_set by (simp_all add: rg_wf_def rg_dummy_def)
qed

text \<open>
  C8: adding a range that misses a well-formed table makes the table's addresses the union, whether
  the range is joined to one neighbour, to both, or inserted in order, and keeps the table sorted
  with gaps between its regions; only a full table refuses it, unchanged.
\<close>

theorem lmb_add_region_refines:
  assumes "rg_wf r" and "0 < unat s" and "unat b + unat s < 2 ^ 64"
    and "{unat b..<unat b + unat s} \<inter> rg_set r = {}" and "lmb_add_region r b s = (res, r')"
  shows "if res < 0 then res = -1 \<and> r' = r \<and> lr_cnt r = 128
    else rg_wf r' \<and> rg_set r' = rg_set r \<union> {unat b..<unat b + unat s}"
  using lmb_add_region_spec [OF assms(1-4)] assms(5) by (simp split: if_splits)

theorem lmb_add_region_witness:
  "rg_set (lmb_memory (snd (lmb_add lmb_example 0x11000 0x1000))) = {0x1000..<0x12000}"
proof -
  let ?m = "lmb_memory lmb_example"
  have e: "fst (lmb_add_region ?m 0x11000 0x1000) = 1" by code_simp
  have s: "rg_set ?m = {0x1000..<0x11000}" by (simp add: rg_set_def lmb_example_tables)
  obtain res r' where ar: "lmb_add_region ?m 0x11000 0x1000 = (res, r')" by fastforce
  have "rg_set r' = rg_set ?m \<union> {unat (0x11000::u64)..<unat (0x11000::u64) + unat (0x1000::u64)}"
    using lmb_add_region_refines [OF lmb_example_tables(1) _ _ _ ar] e ar s by simp
  then show ?thesis using ar s by (auto simp: lmb_add_def Let_def)
qed






text \<open>
  After the last region has been removed, \<open>lmb_add\<close> does not store the region it is given but
  brings the removed one back: the table is empty, so \<open>cnt - 1\<close> and the first entry are not what
  the insertion expects.
\<close>

theorem lmb_add_after_last_removed:
  "let (r, l) = lmb_remove lmb_example 0x1000 0x10000; (r', l') = lmb_add l 0x50000 0x1000
   in r = 0 \<and> lr_cnt (lmb_memory l) = 0 \<and> r' = 0 \<and> rg_list (lmb_memory l') = [prop_of 0x1000 0x10000]"
  by code_simp

end
