(* ===== verification/Ashmem.thy ===== *)
theory Ashmem
  imports KPrelude
begin

text \<open>
  Anonymous shared memory, \<open>mm/ashmem.c\<close>: each area keeps a list of its unpinned page ranges,
  highest pages first; the ranges that have not been purged are also on one global LRU list,
  from which the shrinker takes pages away. A range is known by its area and a number of its own,
  which stands for its address. The truncations that the shrinker asks the backing files for are
  recorded in the state.
\<close>

section \<open>State\<close>

record ashmem_range =
  ar_id :: nat
  pgstart :: ulong
  pgend :: ulong
  purged :: u32

record ashmem_area =
  aa_name :: "u8 list"
  unpinned :: "ashmem_range list"
  aa_file :: "nat option"
  aa_size :: ulong
  prot_mask :: ulong

record ashmem =
  areas :: "nat \<Rightarrow> ashmem_area option"
  lru_list :: "(nat \<times> nat) list"
  lru_count :: ulong
  truncated :: "(nat \<times> u64 \<times> u64) list"

definition ASHMEM_NAME_LEN :: nat where "ASHMEM_NAME_LEN = 256"

text \<open>The prefix "dev/ashmem/", the default name "dev/ashmem" with its NUL, and their lengths.\<close>

definition ASHMEM_NAME_PREFIX :: "u8 list" where
  "ASHMEM_NAME_PREFIX = [0x64, 0x65, 0x76, 0x2F, 0x61, 0x73, 0x68, 0x6D, 0x65, 0x6D, 0x2F]"

definition ASHMEM_NAME_DEF :: "u8 list" where
  "ASHMEM_NAME_DEF = [0x64, 0x65, 0x76, 0x2F, 0x61, 0x73, 0x68, 0x6D, 0x65, 0x6D, 0]"

definition ASHMEM_FULL_NAME_LEN :: nat where
  "ASHMEM_FULL_NAME_LEN = ASHMEM_NAME_LEN + length ASHMEM_NAME_PREFIX"

definition PROT_MASK :: ulong where "PROT_MASK = 7"

definition range_size :: "ashmem_range \<Rightarrow> ulong" where
  "range_size r = pgend r - pgstart r + 1"

definition range_on_lru :: "ashmem_range \<Rightarrow> bool" where
  "range_on_lru r \<longleftrightarrow> purged r = 0"

definition page_range_subsumes_range :: "ashmem_range \<Rightarrow> ulong \<Rightarrow> ulong \<Rightarrow> bool" where
  "page_range_subsumes_range r start en \<longleftrightarrow> pgstart r \<ge> start \<and> pgend r \<le> en"

definition page_range_subsumed_by_range :: "ashmem_range \<Rightarrow> ulong \<Rightarrow> ulong \<Rightarrow> bool" where
  "page_range_subsumed_by_range r start en \<longleftrightarrow> pgstart r \<le> start \<and> pgend r \<ge> en"

definition page_in_range :: "ashmem_range \<Rightarrow> ulong \<Rightarrow> bool" where
  "page_in_range r page \<longleftrightarrow> pgstart r \<le> page \<and> pgend r \<ge> page"

definition page_range_in_range :: "ashmem_range \<Rightarrow> ulong \<Rightarrow> ulong \<Rightarrow> bool" where
  "page_range_in_range r start en \<longleftrightarrow>
     page_in_range r start \<or> page_in_range r en \<or> page_range_subsumes_range r start en"

definition range_before_page :: "ashmem_range \<Rightarrow> ulong \<Rightarrow> bool" where
  "range_before_page r page \<longleftrightarrow> pgend r < page"

section \<open>Ranges and the LRU list\<close>

definition lru_add :: "nat \<Rightarrow> ashmem_range \<Rightarrow> ashmem \<Rightarrow> ashmem" where
  "lru_add a r st = st\<lparr>lru_list := lru_list st @ [(a, ar_id r)], lru_count := lru_count st + range_size r\<rparr>"

definition lru_del :: "nat \<Rightarrow> ashmem_range \<Rightarrow> ashmem \<Rightarrow> ashmem" where
  "lru_del a r st = st\<lparr>lru_list := remove1 (a, ar_id r) (lru_list st), lru_count := lru_count st - range_size r\<rparr>"

text \<open>
  The place of a range in its area's list is the caller's; \<open>kmem\<close> is the result of the allocation,
  the number of the new range.
\<close>

definition range_alloc :: "nat \<Rightarrow> nat option \<Rightarrow> u32 \<Rightarrow> ulong \<Rightarrow> ulong \<Rightarrow> ashmem \<Rightarrow> ashmem \<times> ashmem_range option" where
  "range_alloc a kmem prg start en st =
     (case kmem of
        None \<Rightarrow> (st, None)
      | Some i \<Rightarrow>
          (let r = \<lparr>ar_id = i, pgstart = start, pgend = en, purged = prg\<rparr>
           in (if range_on_lru r then lru_add a r st else st, Some r)))"

definition range_del :: "nat \<Rightarrow> ashmem_range \<Rightarrow> ashmem \<Rightarrow> ashmem" where
  "range_del a r st = (if range_on_lru r then lru_del a r st else st)"

definition range_shrink :: "ashmem_range \<Rightarrow> ulong \<Rightarrow> ulong \<Rightarrow> ashmem \<Rightarrow> ashmem \<times> ashmem_range" where
  "range_shrink r start en st =
     (let pre = range_size r; r' = r\<lparr>pgstart := start, pgend := en\<rparr>
      in (if range_on_lru r' then st\<lparr>lru_count := lru_count st - (pre - range_size r')\<rparr> else st, r'))"

section \<open>Opening, mapping and closing\<close>

definition ashmem_open :: "nat option \<Rightarrow> ashmem \<Rightarrow> ashmem \<times> unit kres" where
  "ashmem_open kmem st =
     (case kmem of
        None \<Rightarrow> (st, Err ENOMEM)
      | Some a \<Rightarrow>
          (st\<lparr>areas := (areas st)(a \<mapsto>
             \<lparr>aa_name = ASHMEM_NAME_PREFIX @ replicate ASHMEM_NAME_LEN 0, unpinned = [], aa_file = None,
              aa_size = 0, prot_mask = PROT_MASK\<rparr>)\<rparr>, Ok ()))"

definition ashmem_release :: "nat \<Rightarrow> ashmem_area \<Rightarrow> ashmem \<Rightarrow> ashmem" where
  "ashmem_release a asma st =
     (fold (range_del a) (unpinned asma) st)\<lparr>areas := (areas st)(a := None)\<rparr>"

text \<open>
  \<open>shmem\<close> is the result of \<open>shmem_file_setup\<close>; the value of the call is the file the mapping gets.
\<close>

definition ashmem_mmap :: "nat \<Rightarrow> ashmem_area \<Rightarrow> ulong \<Rightarrow> nat kres \<Rightarrow> ashmem \<Rightarrow> ashmem \<times> nat kres" where
  "ashmem_mmap a asma vm_flags shmem st =
     (if aa_size asma = 0 then (st, Err EINVAL)
      else if (vm_flags AND NOT (prot_mask asma)) AND PROT_MASK \<noteq> 0 then (st, Err EPERM)
      else case aa_file asma of
             Some f \<Rightarrow> (st, Ok f)
           | None \<Rightarrow>
               (case shmem of
                  Ok f \<Rightarrow> (st\<lparr>areas := (areas st)(a \<mapsto> asma\<lparr>aa_file := Some f\<rparr>)\<rparr>, Ok f)
                | e \<Rightarrow> (st, e)))"

section \<open>The shrinker\<close>

text \<open>
  Following a pointer of the LRU list to a range, and from there to the area's file; \<open>None\<close> would be
  a stale or null pointer.
\<close>

definition lru_deref :: "ashmem \<Rightarrow> nat \<times> nat \<Rightarrow> (ashmem_area \<times> ashmem_range \<times> nat) option" where
  "lru_deref st x =
     (case areas st (fst x) of
        None \<Rightarrow> None
      | Some asma \<Rightarrow>
          (case find (\<lambda>r. ar_id r = snd x) (unpinned asma) of
             None \<Rightarrow> None
           | Some r \<Rightarrow> map_option (\<lambda>f. (asma, r, f)) (aa_file asma)))"

definition PAGE_SIZE :: ulong where "PAGE_SIZE = 0x1000"

definition shrink_one :: "nat \<times> nat \<Rightarrow> ashmem_area \<times> ashmem_range \<times> nat \<Rightarrow> ashmem \<Rightarrow> ashmem" where
  "shrink_one x d st =
     (case d of (asma, r, f) \<Rightarrow>
        (let start = pgstart r * PAGE_SIZE; en = (pgend r + 1) * PAGE_SIZE - 1;
             us = map (\<lambda>q. if ar_id q = snd x then q\<lparr>purged := 1\<rparr> else q) (unpinned asma)
         in lru_del (fst x) r
              (st\<lparr>truncated := truncated st @ [(f, ucast start, ucast en)],
                  areas := (areas st)(fst x \<mapsto> asma\<lparr>unpinned := us\<rparr>)\<rparr>)))"

fun shrink_loop :: "ulong \<Rightarrow> (nat \<times> nat) list \<Rightarrow> ashmem \<Rightarrow> ashmem kres" where
  "shrink_loop nr [] st = Ok st"
| "shrink_loop nr (x # rest) st =
     (case lru_deref st x of
        None \<Rightarrow> Bug
      | Some (asma, r, f) \<Rightarrow>
          (let st = shrink_one x (asma, r, f) st; nr = nr - range_size r
           in if sint nr \<le> 0 then Ok st else shrink_loop nr rest st))"

text \<open>\<open>gfp_fs\<close> is \<^verbatim>\<open>gfp_mask & __GFP_FS\<close>; \<open>None\<close> is the result -1.\<close>

definition ashmem_shrink :: "ulong \<Rightarrow> bool \<Rightarrow> ashmem \<Rightarrow> (ashmem \<times> ulong option) kres" where
  "ashmem_shrink nr_to_scan gfp_fs st =
     (if nr_to_scan \<noteq> 0 \<and> \<not> gfp_fs then Ok (st, None)
      else if nr_to_scan = 0 then Ok (st, Some (lru_count st))
      else case shrink_loop nr_to_scan (lru_list st) st of
             Ok st' \<Rightarrow> Ok (st', Some (lru_count st'))
           | Err e \<Rightarrow> Err e
           | Bug \<Rightarrow> Bug)"

section \<open>Protection mask and name\<close>

definition set_prot_mask :: "nat \<Rightarrow> ashmem_area \<Rightarrow> ulong \<Rightarrow> bool \<Rightarrow> ashmem \<Rightarrow> ashmem \<times> unit kres" where
  "set_prot_mask a asma prot read_implies_exec st =
     (if prot_mask asma AND prot \<noteq> prot then (st, Err EINVAL)
      else let prot = (if prot AND 1 \<noteq> 0 \<and> read_implies_exec then prot OR 4 else prot)
           in (st\<lparr>areas := (areas st)(a \<mapsto> asma\<lparr>prot_mask := prot\<rparr>)\<rparr>, Ok ()))"

definition set_name :: "nat \<Rightarrow> ashmem_area \<Rightarrow> u8 list \<Rightarrow> ashmem \<Rightarrow> ashmem \<times> unit kres" where
  "set_name a asma ubuf st =
     (if aa_file asma \<noteq> None then (st, Err EINVAL)
      else let (bytes, fault) = copy_from_user ubuf ASHMEM_NAME_LEN;
               name = (mem_write (aa_name asma) (length ASHMEM_NAME_PREFIX) bytes)[ASHMEM_FULL_NAME_LEN - 1 := 0]
           in (st\<lparr>areas := (areas st)(a \<mapsto> asma\<lparr>aa_name := name\<rparr>)\<rparr>, if fault then Err EFAULT else Ok ()))"

text \<open>The bytes that \<open>get_name\<close> copies to the user.\<close>

definition get_name :: "ashmem_area \<Rightarrow> u8 list" where
  "get_name asma =
     (let s = drop (length ASHMEM_NAME_PREFIX) (aa_name asma)
      in if s ! 0 \<noteq> 0 then take (length (takeWhile (\<lambda>c. c \<noteq> 0) s) + 1) s else ASHMEM_NAME_DEF)"

section \<open>Pinning\<close>

fun pin_walk :: "nat \<Rightarrow> nat option \<Rightarrow> ulong \<Rightarrow> ulong \<Rightarrow> ashmem_range list \<Rightarrow> ashmem \<Rightarrow> ashmem \<times> u32 \<times> ashmem_range list" where
  "pin_walk a kmem ps pe [] st = (st, 0, [])"
| "pin_walk a kmem ps pe (r # rest) st =
     (if range_before_page r ps then (st, 0, r # rest)
      else if \<not> page_range_in_range r ps pe
      then (let (st, ret, rest) = pin_walk a kmem ps pe rest st in (st, ret, r # rest))
      else if page_range_subsumes_range r ps pe
      then (let (st, ret, rest) = pin_walk a kmem ps pe rest (range_del a r st) in (st, purged r OR ret, rest))
      else if pgstart r \<ge> ps
      then (let (st, r') = range_shrink r (pe + 1) (pgend r) st; (st, ret, rest) = pin_walk a kmem ps pe rest st
            in (st, purged r OR ret, r' # rest))
      else if pgend r \<le> pe
      then (let (st, r') = range_shrink r (pgstart r) (ps - 1) st; (st, ret, rest) = pin_walk a kmem ps pe rest st
            in (st, purged r OR ret, r' # rest))
      else (let (st, new) = range_alloc a kmem (purged r) (pe + 1) (pgend r) st;
                (st, r') = range_shrink r (pgstart r) (ps - 1) st
            in (st, purged r, (case new of None \<Rightarrow> [] | Some q \<Rightarrow> [q]) @ r' # rest)))"

definition ashmem_pin :: "nat \<Rightarrow> ashmem_area \<Rightarrow> nat option \<Rightarrow> ulong \<Rightarrow> ulong \<Rightarrow> ashmem \<Rightarrow> ashmem \<times> u32" where
  "ashmem_pin a asma kmem ps pe st =
     (let (st, ret, us) = pin_walk a kmem ps pe (unpinned asma) st
      in (st\<lparr>areas := (areas st)(a \<mapsto> asma\<lparr>unpinned := us\<rparr>)\<rparr>, ret))"

text \<open>
  One pass over the list: where to insert, or that a range has all the pages already, or the position
  of a range that overlaps.
\<close>

datatype unpin_scan = Insert_at nat | Has_all | Overlap_at nat

fun scan_walk :: "ulong \<Rightarrow> ulong \<Rightarrow> nat \<Rightarrow> ashmem_range list \<Rightarrow> unpin_scan" where
  "scan_walk ps pe n [] = Insert_at n"
| "scan_walk ps pe n (r # rest) =
     (if range_before_page r ps then Insert_at n
      else if page_range_subsumed_by_range r ps pe then Has_all
      else if page_range_in_range r ps pe then Overlap_at n
      else scan_walk ps pe (Suc n) rest)"

lemma scan_walk_bound: "scan_walk ps pe n rs = Overlap_at m \<Longrightarrow> n \<le> m \<and> m < n + length rs"
  by (induction rs arbitrary: n) (auto split: if_splits, fastforce+)

function unpin_loop :: "nat \<Rightarrow> nat option \<Rightarrow> ulong \<Rightarrow> ulong \<Rightarrow> u32 \<Rightarrow> ashmem_range list \<Rightarrow> ashmem
    \<Rightarrow> ashmem \<times> unit kres \<times> ashmem_range list" where
  "unpin_loop a kmem ps pe prg rs st =
     (case scan_walk ps pe 0 rs of
        Has_all \<Rightarrow> (st, Ok (), rs)
      | Overlap_at n \<Rightarrow>
          (let r = rs ! n
           in unpin_loop a kmem (min (pgstart r) ps) (max (pgend r) pe) (prg OR purged r)
                (take n rs @ drop (Suc n) rs) (range_del a r st))
      | Insert_at n \<Rightarrow>
          (case range_alloc a kmem prg ps pe st of
             (st, Some q) \<Rightarrow> (st, Ok (), take n rs @ q # drop n rs)
           | (st, None) \<Rightarrow> (st, Err ENOMEM, rs)))"
  by auto
termination
  by (relation "measure (\<lambda>(_, _, _, _, _, rs, _). length rs)") (auto dest!: scan_walk_bound)

declare unpin_loop.simps [simp del]

definition ashmem_unpin :: "nat \<Rightarrow> ashmem_area \<Rightarrow> nat option \<Rightarrow> ulong \<Rightarrow> ulong \<Rightarrow> ashmem \<Rightarrow> ashmem \<times> unit kres" where
  "ashmem_unpin a asma kmem ps pe st =
     (let (st, ret, us) = unpin_loop a kmem ps pe 0 (unpinned asma) st
      in (st\<lparr>areas := (areas st)(a \<mapsto> asma\<lparr>unpinned := us\<rparr>)\<rparr>, ret))"

text \<open>Whether any page of the interval is unpinned.\<close>

fun pin_status_walk :: "ulong \<Rightarrow> ulong \<Rightarrow> ashmem_range list \<Rightarrow> bool" where
  "pin_status_walk ps pe [] = False"
| "pin_status_walk ps pe (r # rest) =
     (if range_before_page r ps then False
      else if page_range_in_range r ps pe then True
      else pin_status_walk ps pe rest)"

definition ashmem_get_pin_status :: "ashmem_area \<Rightarrow> ulong \<Rightarrow> ulong \<Rightarrow> u32" where
  "ashmem_get_pin_status asma ps pe = (if pin_status_walk ps pe (unpinned asma) then 0 else 1)"

section \<open>The ioctl\<close>

definition PAGE_ALIGN :: "ulong \<Rightarrow> ulong" where
  "PAGE_ALIGN x = (x + (PAGE_SIZE - 1)) AND NOT (PAGE_SIZE - 1)"

datatype pin_cmd = ASHMEM_PIN | ASHMEM_UNPIN | ASHMEM_GET_PIN_STATUS

text \<open>The page interval of a request, or the error.\<close>

definition pin_interval :: "ashmem_area \<Rightarrow> (u32 \<times> u32) option \<Rightarrow> (ulong \<times> ulong) kres" where
  "pin_interval asma pin =
     (if aa_file asma = None then Err EINVAL
      else case pin of
             None \<Rightarrow> Err EFAULT
           | Some (offset, len) \<Rightarrow>
               (let len = (if len = 0 then PAGE_ALIGN (aa_size asma) - offset else len)
                in if (offset OR len) AND (PAGE_SIZE - 1) \<noteq> 0 then Err EINVAL
                   else if - 1 - offset < len then Err EINVAL
                   else if PAGE_ALIGN (aa_size asma) < offset + len then Err EINVAL
                   else let ps = offset div PAGE_SIZE in Ok (ps, ps + len div PAGE_SIZE - 1)))"

definition ashmem_pin_unpin :: "nat \<Rightarrow> ashmem_area \<Rightarrow> pin_cmd \<Rightarrow> (u32 \<times> u32) option \<Rightarrow> nat option \<Rightarrow> ashmem \<Rightarrow> ashmem \<times> u32 kres" where
  "ashmem_pin_unpin a asma cmd pin kmem st =
     (case pin_interval asma pin of
        Ok (ps, pe) \<Rightarrow>
          (case cmd of
             ASHMEM_PIN \<Rightarrow> (let (st, ret) = ashmem_pin a asma kmem ps pe st in (st, Ok ret))
           | ASHMEM_UNPIN \<Rightarrow>
               (let (st, ret) = ashmem_unpin a asma kmem ps pe st
                in (st, case ret of Ok _ \<Rightarrow> Ok 0 | Err e \<Rightarrow> Err e | Bug \<Rightarrow> Bug))
           | ASHMEM_GET_PIN_STATUS \<Rightarrow> (st, Ok (ashmem_get_pin_status asma ps pe)))
      | Err e \<Rightarrow> (st, Err e)
      | Bug \<Rightarrow> (st, Bug))"

datatype ashmem_cmd = ASHMEM_SET_NAME "u8 list" | ASHMEM_GET_NAME | ASHMEM_SET_SIZE ulong | ASHMEM_GET_SIZE
  | ASHMEM_SET_PROT_MASK ulong | ASHMEM_GET_PROT_MASK | ASHMEM_PINNING pin_cmd "(u32 \<times> u32) option"
  | ASHMEM_PURGE_ALL_CACHES | ASHMEM_OTHER

text \<open>
  \<open>admin\<close> is \<open>capable(CAP_SYS_ADMIN)\<close>, \<open>rie\<close> the \<open>READ_IMPLIES_EXEC\<close> personality and \<open>to_user\<close> whether
  the user's buffer can be written. The value 0 of a call that only reports success is \<open>Ok 0\<close>.
\<close>

definition ashmem_ioctl :: "nat \<Rightarrow> ashmem_area \<Rightarrow> ashmem_cmd \<Rightarrow> bool \<Rightarrow> bool \<Rightarrow> bool \<Rightarrow> nat option \<Rightarrow> ashmem
    \<Rightarrow> ashmem \<times> ulong kres" where
  "ashmem_ioctl a asma cmd admin rie to_user kmem st =
     (case cmd of
        ASHMEM_SET_NAME ubuf \<Rightarrow>
          (let (st, ret) = set_name a asma ubuf st in (st, case ret of Ok _ \<Rightarrow> Ok 0 | Err e \<Rightarrow> Err e | Bug \<Rightarrow> Bug))
      | ASHMEM_GET_NAME \<Rightarrow> (st, if to_user then Ok 0 else Err EFAULT)
      | ASHMEM_SET_SIZE arg \<Rightarrow>
          (if aa_file asma = None then (st\<lparr>areas := (areas st)(a \<mapsto> asma\<lparr>aa_size := arg\<rparr>)\<rparr>, Ok 0) else (st, Err EINVAL))
      | ASHMEM_GET_SIZE \<Rightarrow> (st, Ok (aa_size asma))
      | ASHMEM_SET_PROT_MASK prot \<Rightarrow>
          (let (st, ret) = set_prot_mask a asma prot rie st in (st, case ret of Ok _ \<Rightarrow> Ok 0 | Err e \<Rightarrow> Err e | Bug \<Rightarrow> Bug))
      | ASHMEM_GET_PROT_MASK \<Rightarrow> (st, Ok (prot_mask asma))
      | ASHMEM_PINNING c pin \<Rightarrow> ashmem_pin_unpin a asma c pin kmem st
      | ASHMEM_PURGE_ALL_CACHES \<Rightarrow>
          (if admin
           then (case ashmem_shrink 0 True st of
                   Ok (st1, Some ret) \<Rightarrow>
                     (case ashmem_shrink ret True st1 of
                        Ok (st2, _) \<Rightarrow> (st2, Ok ret) | Err e \<Rightarrow> (st1, Err e) | Bug \<Rightarrow> (st1, Bug))
                 | _ \<Rightarrow> (st, Bug))
           else (st, Err EPERM))
      | ASHMEM_OTHER \<Rightarrow> (st, Err ENOTTY))"

end
