(* ===== verification/Ashmem_Pages.thy ===== *)
theory Ashmem_Pages
  imports Ashmem
begin

text \<open>
  Pinning and unpinning as set operations on the pages of an area.
\<close>

section \<open>Pages of a list of ranges\<close>

definition rpages :: "ashmem_range \<Rightarrow> nat set" where
  "rpages r = {unat (pgstart r)..unat (pgend r)}"

definition upages :: "ashmem_range list \<Rightarrow> nat set" where
  "upages rs = (\<Union>r \<in> set rs. rpages r)"

definition ranges_ok :: "ashmem_range list \<Rightarrow> bool" where
  "ranges_ok rs \<longleftrightarrow> (\<forall>r \<in> set rs. pgstart r \<le> pgend r) \<and> sorted_wrt (\<lambda>r q. pgend q < pgstart r) rs"

lemma upages_simps [simp]:
  "upages [] = {}" "upages (r # rs) = rpages r \<union> upages rs" "upages (xs @ ys) = upages xs \<union> upages ys"
  by (simp_all add: upages_def)

lemma ranges_ok_Cons:
  "ranges_ok (r # rs) \<longleftrightarrow> pgstart r \<le> pgend r \<and> ranges_ok rs \<and> (\<forall>q \<in> set rs. pgend q < pgstart r)"
  by (auto simp: ranges_ok_def)

lemma ranges_ok_append:
  "ranges_ok (xs @ ys) \<longleftrightarrow> ranges_ok xs \<and> ranges_ok ys \<and> (\<forall>x \<in> set xs. \<forall>y \<in> set ys. pgend y < pgstart x)"
  by (auto simp: ranges_ok_def sorted_wrt_append)

lemma ranges_ok_Nil [simp]: "ranges_ok []"
  by (simp add: ranges_ok_def)

lemma ranges_ok_below: "ranges_ok (r # rs) \<Longrightarrow> q \<in> set rs \<Longrightarrow> pgend q < pgend r"
  by (auto simp: ranges_ok_Cons)

text \<open>The overlap test of the code, for a well-formed range and interval.\<close>

lemma in_range_iff:
  assumes "pgstart r \<le> pgend r" and "ps \<le> pe"
  shows "page_range_in_range r ps pe \<longleftrightarrow> pgstart r \<le> pe \<and> ps \<le> pgend r"
  using assms by (auto simp: page_range_in_range_def page_in_range_def page_range_subsumes_range_def)

lemma in_range_pages:
  assumes "pgstart r \<le> pgend r" and "ps \<le> pe"
  shows "page_range_in_range r ps pe \<longleftrightarrow> rpages r \<inter> {unat ps..unat pe} \<noteq> {}"
  using assms by (auto simp: in_range_iff rpages_def word_le_nat_alt)

text \<open>Ranges that lie before the interval, as everything behind a range that does.\<close>

lemma before_pages:
  assumes "ranges_ok (r # rs)" and "range_before_page r ps"
  shows "upages (r # rs) \<inter> {unat ps..} = {}"
proof -
  have "unat (pgend q) < unat ps" if "q \<in> set (r # rs)" for q
    using that assms ranges_ok_below [OF assms(1)] by (auto simp: range_before_page_def word_less_nat_alt intro: less_trans)
  then show ?thesis by (force simp: upages_def rpages_def)
qed

section \<open>Pin status, pin and unpin on the pages\<close>

lemma pin_status_iff:
  assumes "ranges_ok rs" and "ps \<le> pe"
  shows "pin_status_walk ps pe rs \<longleftrightarrow> upages rs \<inter> {unat ps..unat pe} \<noteq> {}"
  using assms(1)
proof (induction rs)
  case (Cons r rs)
  show ?case
  proof (cases "range_before_page r ps")
    case True
    then show ?thesis using before_pages [OF Cons.prems True] by auto
  next
    case False
    then show ?thesis using Cons in_range_pages [of r ps pe] assms(2) by (auto simp: ranges_ok_Cons)
  qed
qed simp

definition any_purged :: "ulong \<Rightarrow> ulong \<Rightarrow> ashmem_range list \<Rightarrow> bool" where
  "any_purged ps pe rs \<longleftrightarrow> (\<exists>r \<in> set rs. rpages r \<inter> {unat ps..unat pe} \<noteq> {} \<and> purged r \<noteq> 0)"

lemma or_bit_0: "purged r \<in> {0, 1} \<Longrightarrow> b \<in> {0, 1} \<Longrightarrow> purged r OR b \<in> {0, 1} \<and> (purged r OR b \<noteq> 0 \<longleftrightarrow> purged r \<noteq> 0 \<or> b \<noteq> 0)"
  by auto

lemma shrink_pages:
  assumes "pgstart r \<le> pgend r"
  shows "pgstart r \<le> pe \<Longrightarrow> pe < pgend r \<Longrightarrow>
      rpages (r\<lparr>pgstart := pe + 1, pgend := e'\<rparr>) = {unat pe<..unat e'} \<and> pe + 1 \<le> pgend r"
    and "pgstart r < ps \<Longrightarrow> rpages (r\<lparr>pgend := ps - 1\<rparr>) = {unat (pgstart r)..<unat ps} \<and> pgstart r \<le> ps - 1"
proof -
  show "rpages (r\<lparr>pgstart := pe + 1, pgend := e'\<rparr>) = {unat pe<..unat e'} \<and> pe + 1 \<le> pgend r" if "pe < pgend r"
  proof -
    have "unat (pe + 1) = unat pe + 1" using word_succ_le [OF that] that unat_u32 [of "pgend r"]
      by (simp add: unat_word_ariths word_less_nat_alt)
    then show ?thesis using word_succ_le [OF that] by (auto simp: rpages_def)
  qed
  show "rpages (r\<lparr>pgend := ps - 1\<rparr>) = {unat (pgstart r)..<unat ps} \<and> pgstart r \<le> ps - 1" if "pgstart r < ps"
  proof -
    have "ps \<noteq> 0" using that by auto
    then have "unat (ps - 1) = unat ps - 1" "0 < unat ps" by (simp_all add: unat_minus_one unat_gt_0)
    then show ?thesis using word_pred_less [OF that] by (auto simp: rpages_def)
  qed
qed

text \<open>What pinning promises of the list it leaves; an upper bound on its ranges keeps it sorted.\<close>

definition pin_promise :: "bool \<Rightarrow> ulong \<Rightarrow> ulong \<Rightarrow> ashmem_range list \<Rightarrow> u32 \<Rightarrow> ashmem_range list \<Rightarrow> bool" where
  "pin_promise mem ps pe rs ret rs' \<longleftrightarrow>
     ranges_ok rs' \<and> (\<forall>q \<in> set rs'. purged q \<in> {0, 1} \<and> (\<exists>r \<in> set rs. pgend q \<le> pgend r))
     \<and> upages rs' \<subseteq> upages rs - {unat ps..unat pe} \<and> (mem \<longrightarrow> upages rs' = upages rs - {unat ps..unat pe})
     \<and> ret \<in> {0, 1} \<and> (ret \<noteq> 0 \<longleftrightarrow> any_purged ps pe rs)"

lemma pin_promise_put:
  assumes pp: "pin_promise mem ps pe rs ret rs'" and ok: "ranges_ok (r # rs)" and pr: "purged r \<in> {0, 1}"
    and qs: "set qs \<subseteq> {q}" "ranges_ok qs" "upages qs = rpages r - {unat ps..unat pe}"
    and q: "purged q = purged r" "pgend q \<le> pgend r" "qs = [] \<or> pgstart r \<le> pgstart q"
    and ret: "ret' \<in> {0, 1}" "ret' \<noteq> 0 \<longleftrightarrow> any_purged ps pe (r # rs)"
  shows "pin_promise mem ps pe (r # rs) ret' (qs @ rs')"
proof -
  have rs': "ranges_ok rs'" "\<forall>q \<in> set rs'. purged q \<in> {0, 1} \<and> (\<exists>r \<in> set rs. pgend q \<le> pgend r)"
    "upages rs' \<subseteq> upages rs - {unat ps..unat pe}" "mem \<longrightarrow> upages rs' = upages rs - {unat ps..unat pe}"
    using pp unfolding pin_promise_def by blast+
  have "pgend y < pgstart x" if x: "x \<in> set qs" and y: "y \<in> set rs'" for x y
  proof -
    obtain y0 where "y0 \<in> set rs" "pgend y \<le> pgend y0" using rs'(2) y by blast
    then have "pgend y < pgstart r" using ok by (auto simp: ranges_ok_Cons intro: le_less_trans)
    moreover have "pgstart r \<le> pgstart x" using qs(1) q(3) x by auto
    ultimately show ?thesis by (rule less_le_trans)
  qed
  then have oks: "ranges_ok (qs @ rs')" using rs'(1) qs(2) by (simp add: ranges_ok_append)
  have pur: "\<forall>x \<in> set (qs @ rs'). purged x \<in> {0, 1} \<and> (\<exists>y \<in> set (r # rs). pgend x \<le> pgend y)"
    using rs'(2) pr qs(1) q(1,2) by fastforce
  have sub: "upages (qs @ rs') \<subseteq> upages (r # rs) - {unat ps..unat pe}" using rs'(3) qs(3) by auto
  have eq: "mem \<longrightarrow> upages (qs @ rs') = upages (r # rs) - {unat ps..unat pe}" using rs'(4) qs(3) by auto
  show ?thesis using oks ret pur sub eq unfolding pin_promise_def by blast
qed

lemma pin_promise_Cons:
  assumes pp: "pin_promise mem ps pe rs ret rs'" and ok: "ranges_ok (r # rs)" and pr: "purged r \<in> {0, 1}"
    and dj: "rpages r \<inter> {unat ps..unat pe} = {}"
  shows "pin_promise mem ps pe (r # rs) ret (r # rs')"
proof -
  have "any_purged ps pe (r # rs) \<longleftrightarrow> any_purged ps pe rs" using dj by (auto simp: any_purged_def)
  then have "ret \<in> {0, 1}" "ret \<noteq> 0 \<longleftrightarrow> any_purged ps pe (r # rs)" using pp by (auto simp: pin_promise_def)
  then have "pin_promise mem ps pe (r # rs) ret ([r] @ rs')"
    using pin_promise_put [OF pp ok pr, of "[r]" r ret] dj ok by (auto simp: ranges_ok_Cons)
  then show ?thesis by simp
qed

lemma pin_promise_replace:
  assumes pp: "pin_promise mem ps pe rs ret rs'" and ok: "ranges_ok (r # rs)" and pr: "purged r \<in> {0, 1}"
    and ov: "rpages r \<inter> {unat ps..unat pe} \<noteq> {}"
    and qs: "set qs \<subseteq> {q}" "ranges_ok qs" "upages qs = rpages r - {unat ps..unat pe}"
    and q: "purged q = purged r" "pgend q \<le> pgend r" "qs = [] \<or> pgstart r \<le> pgstart q"
  shows "pin_promise mem ps pe (r # rs) (purged r OR ret) (qs @ rs')"
proof (rule pin_promise_put [OF pp ok pr qs q])
  have "any_purged ps pe (r # rs) \<longleftrightarrow> purged r \<noteq> 0 \<or> any_purged ps pe rs" using ov by (auto simp: any_purged_def)
  moreover have "ret \<in> {0, 1}" "ret \<noteq> 0 \<longleftrightarrow> any_purged ps pe rs" using pp by (auto simp: pin_promise_def)
  ultimately show "purged r OR ret \<in> {0, 1}" "purged r OR ret \<noteq> 0 \<longleftrightarrow> any_purged ps pe (r # rs)"
    using or_bit_0 [OF pr, of ret] by blast+
qed

lemma pin_walk_spec:
  assumes "ranges_ok rs" and "ps \<le> pe" and "\<forall>r \<in> set rs. purged r \<in> {0, 1}"
  shows "case pin_walk a kmem ps pe rs st of (st', ret, rs') \<Rightarrow> pin_promise (kmem \<noteq> None) ps pe rs ret rs'"
  using assms(1,3)
proof (induction rs arbitrary: st)
  case Nil
  then show ?case by (simp add: pin_promise_def any_purged_def)
next
  case (Cons r rs)
  have ok: "ranges_ok rs" "pgstart r \<le> pgend r" using Cons.prems(1) by (auto simp: ranges_ok_Cons)
  have pr: "purged r \<in> {0, 1}" "\<forall>r \<in> set rs. purged r \<in> {0, 1}" using Cons.prems(2) by auto
  have IH: "\<exists>st' ret rs'. pin_walk a kmem ps pe rs st1 = (st', ret, rs') \<and> pin_promise (kmem \<noteq> None) ps pe rs ret rs'" for st1
    using Cons.IH [OF ok(1) pr(2), of st1] by (cases "pin_walk a kmem ps pe rs st1") auto
  note ov = in_range_pages [OF ok(2) assms(2)] and lt = in_range_iff [OF ok(2) assms(2)]
  note rep = pin_promise_replace [OF _ Cons.prems(1) pr(1)]
  consider (before) "range_before_page r ps"
    | (out) "\<not> range_before_page r ps" "\<not> page_range_in_range r ps pe"
    | (all) "\<not> range_before_page r ps" "page_range_in_range r ps pe" "ps \<le> pgstart r" "pgend r \<le> pe"
    | (low) "\<not> range_before_page r ps" "page_range_in_range r ps pe" "ps \<le> pgstart r" "pe < pgend r"
    | (high) "\<not> range_before_page r ps" "page_range_in_range r ps pe" "pgstart r < ps" "pgend r \<le> pe"
    | (mid) "\<not> range_before_page r ps" "page_range_in_range r ps pe" "pgstart r < ps" "pe < pgend r"
    by (meson not_le)
  then show ?case
  proof cases
    case before
    have "upages (r # rs) \<inter> {unat ps..} = {}" by (rule before_pages [OF Cons.prems(1) before])
    then have "upages (r # rs) \<inter> {unat ps..unat pe} = {}" by auto
    then have "pin_promise (kmem \<noteq> None) ps pe (r # rs) 0 (r # rs)"
      using Cons.prems by (fastforce simp: pin_promise_def any_purged_def upages_def)
    then show ?thesis using before by simp
  next
    case out
    then have dj: "rpages r \<inter> {unat ps..unat pe} = {}" using ov by simp
    show ?thesis using out IH [of st] pin_promise_Cons [OF _ Cons.prems(1) pr(1) dj] by auto
  next
    case all
    have "rpages r - {unat ps..unat pe} = {}" using all(3,4) by (auto simp: rpages_def word_le_nat_alt)
    then have pp: "pin_promise m ps pe (r # rs) (purged r OR ret) rs'" if "pin_promise m ps pe rs ret rs'" for m ret rs'
      using rep [OF that, where qs = "[]" and q = r] all(2) ov by simp
    obtain st' ret rs' where w: "pin_walk a kmem ps pe rs (range_del a r st) = (st', ret, rs')"
      "pin_promise (kmem \<noteq> None) ps pe rs ret rs'" using IH by blast
    have "pin_walk a kmem ps pe (r # rs) st = (st', purged r OR ret, rs')"
      using all w(1) by (simp add: page_range_subsumes_range_def)
    then show ?thesis using pp [OF w(2)] by simp
  next
    case low
    let ?q = "r\<lparr>pgstart := pe + 1, pgend := pgend r\<rparr>"
    have le: "pgstart r \<le> pe" using low(2) lt by simp
    note sp = shrink_pages(1) [OF ok(2) le low(4), of "pgend r"]
    have n: "unat ps \<le> unat (pgstart r)" "unat pe < unat (pgend r)" "unat (pgstart r) \<le> unat pe"
      using low(3,4) le by (simp_all add: word_le_nat_alt word_less_nat_alt)
    have "{unat pe<..unat (pgend r)} = rpages r - {unat ps..unat pe}" unfolding rpages_def using n by auto
    then have "rpages ?q = rpages r - {unat ps..unat pe}" using sp by blast
    moreover have "pgstart r \<le> pgstart ?q"
      using le less_imp_le [OF conjunct1 [OF word_succ_le [OF low(4)]]] by simp
    ultimately have pp: "pin_promise m ps pe (r # rs) (purged r OR ret) (?q # rs')" if "pin_promise m ps pe rs ret rs'" for m ret rs'
      using rep [OF that, where qs = "[?q]" and q = ?q] low(2) ov sp by (simp add: ranges_ok_Cons)
    obtain st' ret rs' where w: "pin_walk a kmem ps pe rs (fst (range_shrink r (pe + 1) (pgend r) st)) = (st', ret, rs')"
      "pin_promise (kmem \<noteq> None) ps pe rs ret rs'" using IH by blast
    have "pin_walk a kmem ps pe (r # rs) st = (st', purged r OR ret, ?q # rs')"
      using low(1-3) low(4) [unfolded not_le [symmetric]] w(1)
      by (simp add: page_range_subsumes_range_def range_shrink_def Let_def)
    then show ?thesis using pp [OF w(2)] by simp
  next
    case high
    let ?q = "r\<lparr>pgstart := pgstart r, pgend := ps - 1\<rparr>"
    have le: "ps \<le> pgend r" using high(2) lt by simp
    have sp: "rpages ?q = {unat (pgstart r)..<unat ps} \<and> pgstart r \<le> ps - 1"
      using shrink_pages(2) [OF ok(2) high(3)] by (simp add: rpages_def)
    have n: "unat (pgstart r) < unat ps" "unat (pgend r) \<le> unat pe" "unat ps \<le> unat (pgend r)"
      using high(3,4) le by (simp_all add: word_le_nat_alt word_less_nat_alt)
    have "{unat (pgstart r)..<unat ps} = rpages r - {unat ps..unat pe}" unfolding rpages_def using n by auto
    then have "rpages ?q = rpages r - {unat ps..unat pe}" using sp by blast
    moreover have "pgend ?q \<le> pgend r"
      using le less_imp_le [OF conjunct2 [OF word_pred_less [OF high(3)]]] by simp
    ultimately have pp: "pin_promise m ps pe (r # rs) (purged r OR ret) (?q # rs')" if "pin_promise m ps pe rs ret rs'" for m ret rs'
      using rep [OF that, where qs = "[?q]" and q = ?q] high(2) ov sp by (simp add: ranges_ok_Cons)
    obtain st' ret rs' where w: "pin_walk a kmem ps pe rs (fst (range_shrink r (pgstart r) (ps - 1) st)) = (st', ret, rs')"
      "pin_promise (kmem \<noteq> None) ps pe rs ret rs'" using IH by blast
    have "pin_walk a kmem ps pe (r # rs) st = (st', purged r OR ret, ?q # rs')"
      using high(1,2,4) high(3) [unfolded not_le [symmetric]] w(1)
      by (simp add: page_range_subsumes_range_def range_shrink_def Let_def)
    then show ?thesis using pp [OF w(2)] by simp
  next
    case mid
    let ?q = "r\<lparr>pgstart := pgstart r, pgend := ps - 1\<rparr>"
    define new where "new = (case kmem of None \<Rightarrow> [] | Some i \<Rightarrow> [\<lparr>ar_id = i, pgstart = pe + 1, pgend = pgend r, purged = purged r\<rparr>])"
    have le: "pgstart r \<le> pe" "ps \<le> pgend r" using mid(2) lt by simp_all
    have sp: "rpages ?q = {unat (pgstart r)..<unat ps} \<and> pgstart r \<le> ps - 1"
      using shrink_pages(2) [OF ok(2) mid(3)] by (simp add: rpages_def)
    have "unat (pe + 1) = unat pe + 1" using mid(4) unat_u32 [of "pgend r"] by (simp add: unat_word_ariths word_less_nat_alt)
    then have nw: "\<forall>x \<in> set new. rpages x = {unat pe<..unat (pgend r)} \<and> pgstart x = pe + 1 \<and> pgend x = pgend r \<and> purged x = purged r"
      by (cases kmem) (auto simp: new_def rpages_def)
    have "ps - 1 < ps" "pe < pe + 1" using word_pred_less [OF mid(3)] word_succ_le [OF mid(4)] by blast+
    then have "ps - 1 < pe + 1" using assms(2) less_le_trans [of "ps - 1" ps pe] less_trans [of "ps - 1" pe "pe + 1"] by blast
    moreover have below: "pgend q < pgstart r" if "q \<in> set rs" for q
      using that Cons.prems(1) by (simp add: ranges_ok_Cons)
    moreover have "pgend q < ps - 1" if "q \<in> set rs" for q
      using below [OF that] sp by (meson less_le_trans)
    ultimately have "\<forall>y \<in> set (?q # rs). pgend y < pe + 1" by (auto intro: less_trans)
    moreover have "ranges_ok (?q # rs)" using ok(1) sp below by (simp add: ranges_ok_Cons)
    moreover have "ranges_ok new" using word_succ_le [OF mid(4)] by (cases kmem) (simp_all add: new_def ranges_ok_Cons)
    ultimately have o: "ranges_ok (new @ ?q # rs)" using nw by (simp add: ranges_ok_append)
    have rest: "rpages x \<inter> {unat ps..unat pe} = {}" if "x \<in> set rs" for x
    proof -
      have "unat (pgend x) < unat ps" using less_trans [OF below [OF that] mid(3)] by (simp add: word_less_nat_alt)
      then show ?thesis by (auto simp: rpages_def)
    qed
    have u: "upages rs \<inter> {unat ps..unat pe} = {}" unfolding upages_def using rest by blast
    have pg: "upages new = (if kmem = None then {} else {unat pe<..unat (pgend r)})"
      using nw by (cases kmem) (simp_all add: new_def)
    have n: "unat (pgstart r) < unat ps" "unat pe < unat (pgend r)" "unat ps \<le> unat pe"
      using mid(3,4) assms(2) by (simp_all add: word_le_nat_alt word_less_nat_alt)
    have rp: "rpages r - {unat ps..unat pe} = {unat (pgstart r)..<unat ps} \<union> {unat pe<..unat (pgend r)}"
      unfolding rpages_def using n by auto
    have ap: "any_purged ps pe (r # rs) \<longleftrightarrow> purged r \<noteq> 0" using rest ov mid(2) by (auto simp: any_purged_def)
    have qe: "pgend ?q \<le> pgend r"
      using le(2) less_imp_le [OF conjunct2 [OF word_pred_less [OF mid(3)]]] by simp
    have pur: "\<forall>x \<in> set (new @ ?q # rs). purged x \<in> {0, 1} \<and> (\<exists>y \<in> set (r # rs). pgend x \<le> pgend y)"
      using nw pr qe by auto
    have "upages (new @ ?q # rs) = upages new \<union> ({unat (pgstart r)..<unat ps} \<union> upages rs)" using sp by simp
    moreover have "upages (r # rs) - {unat ps..unat pe} = {unat (pgstart r)..<unat ps} \<union> {unat pe<..unat (pgend r)} \<union> upages rs"
      using rp u by auto
    ultimately have pp: "pin_promise (kmem \<noteq> None) ps pe (r # rs) (purged r) (new @ ?q # rs)"
      using o pur pr(1) ap pg unfolding pin_promise_def by auto
    have "\<exists>st'. pin_walk a kmem ps pe (r # rs) st = (st', purged r, new @ ?q # rs)"
      using mid(1,2) mid(3,4) [unfolded not_le [symmetric]]
      by (cases kmem) (simp_all add: page_range_subsumes_range_def range_shrink_def range_alloc_def Let_def new_def)
    then show ?thesis using pp by auto
  qed
qed

lemma scan_insert:
  assumes "ranges_ok rs" and "ps \<le> pe" and "scan_walk ps pe n rs = Insert_at m"
  shows "\<exists>xs ys. rs = xs @ ys \<and> m = n + length xs \<and> (\<forall>x \<in> set xs. pe < pgstart x) \<and> (\<forall>y \<in> set ys. pgend y < ps)"
  using assms(1,3)
proof (induction rs arbitrary: n)
  case (Cons r rs)
  show ?case
  proof (cases "range_before_page r ps")
    case True
    then have "\<forall>y \<in> set (r # rs). pgend y < ps"
      using ranges_ok_below [OF Cons.prems(1)] by (auto simp: range_before_page_def intro: less_trans)
    then show ?thesis using True Cons.prems(2) by (intro exI [of _ "[]"] exI [of _ "r # rs"]) simp
  next
    case False
    then have w: "scan_walk ps pe (Suc n) rs = Insert_at m" and no: "\<not> page_range_in_range r ps pe"
      using Cons.prems(2) by (auto split: if_splits)
    have "pe < pgstart r"
      using no False in_range_iff [OF _ assms(2), of r] Cons.prems(1) by (auto simp: ranges_ok_Cons range_before_page_def)
    moreover obtain xs ys where "rs = xs @ ys" "m = Suc n + length xs" "\<forall>x \<in> set xs. pe < pgstart x" "\<forall>y \<in> set ys. pgend y < ps"
      using Cons.IH [OF _ w] Cons.prems(1) by (auto simp: ranges_ok_Cons)
    ultimately show ?thesis by (intro exI [of _ "r # xs"] exI [of _ ys]) simp
  qed
qed auto

lemma scan_overlap:
  "scan_walk ps pe n rs = Overlap_at m \<Longrightarrow>
   \<exists>xs r ys. rs = xs @ r # ys \<and> m = n + length xs \<and> page_range_in_range r ps pe"
proof (induction rs arbitrary: n)
  case (Cons r rs)
  show ?case
  proof (cases "page_range_in_range r ps pe")
    case True
    then show ?thesis using Cons.prems by (intro exI [of _ "[]"] exI [of _ r] exI [of _ rs]) (auto split: if_splits)
  next
    case False
    then have "scan_walk ps pe (Suc n) rs = Overlap_at m" using Cons.prems by (auto split: if_splits)
    then obtain xs q ys where "rs = xs @ q # ys" "m = Suc n + length xs" "page_range_in_range q ps pe" using Cons.IH by blast
    then show ?thesis by (intro exI [of _ "r # xs"] exI [of _ q] exI [of _ ys]) simp
  qed
qed simp

lemma scan_has_all: "scan_walk ps pe n rs = Has_all \<Longrightarrow> \<exists>r \<in> set rs. pgstart r \<le> ps \<and> pe \<le> pgend r"
  by (induction rs arbitrary: n) (auto simp: page_range_subsumed_by_range_def split: if_splits)

text \<open>What unpinning promises.\<close>

definition unpin_promise :: "bool \<Rightarrow> ulong \<Rightarrow> ulong \<Rightarrow> ashmem_range list \<Rightarrow> unit kres \<Rightarrow> ashmem_range list \<Rightarrow> bool" where
  "unpin_promise mem ps pe rs res rs' \<longleftrightarrow>
     ranges_ok rs' \<and> (\<forall>q \<in> set rs'. purged q \<in> {0, 1})
     \<and> (res = Ok () \<and> upages rs' = upages rs \<union> {unat ps..unat pe}
        \<or> res = Err ENOMEM \<and> \<not> mem \<and> upages rs' \<subseteq> upages rs)"

lemma unpin_loop_spec:
  assumes "ranges_ok rs" and "ps \<le> pe" and "\<forall>r \<in> set rs. purged r \<in> {0, 1}" and "prg \<in> {0, 1}"
  shows "case unpin_loop a kmem ps pe prg rs st of (st', res, rs') \<Rightarrow> unpin_promise (kmem \<noteq> None) ps pe rs res rs'"
  using assms
proof (induction a kmem ps pe prg rs st rule: unpin_loop.induct)
  case (1 a kmem ps pe prg rs st)
  show ?case
  proof (cases "scan_walk ps pe 0 rs")
    case Has_all
    obtain r where r: "r \<in> set rs" "pgstart r \<le> ps" "pe \<le> pgend r" using scan_has_all [OF Has_all] by blast
    have "{unat ps..unat pe} \<subseteq> rpages r" using r(2,3) by (simp add: rpages_def word_le_nat_alt)
    then have "upages rs = upages rs \<union> {unat ps..unat pe}" using r(1) by (auto simp: upages_def)
    then show ?thesis using Has_all "1.prems" by (simp add: unpin_loop.simps [of a kmem ps pe prg rs st] unpin_promise_def)
  next
    case (Insert_at n)
    obtain xs ys where xy: "rs = xs @ ys" "n = length xs" "\<forall>x \<in> set xs. pe < pgstart x" "\<forall>y \<in> set ys. pgend y < ps"
      using scan_insert [OF "1.prems"(1,2) Insert_at] by auto
    show ?thesis
    proof (cases kmem)
      case None
      then show ?thesis unfolding unpin_loop.simps [of a kmem ps pe prg rs st]
        using Insert_at "1.prems" by (simp add: range_alloc_def unpin_promise_def)
    next
      case (Some i)
      let ?q = "\<lparr>ar_id = i, pgstart = ps, pgend = pe, purged = prg\<rparr>"
      have "ranges_ok (xs @ ?q # ys)" using "1.prems"(1,2) xy by (auto simp: ranges_ok_append ranges_ok_Cons)
      moreover have "upages (xs @ ?q # ys) = upages rs \<union> {unat ps..unat pe}" using xy(1) by (auto simp: rpages_def)
      ultimately show ?thesis unfolding unpin_loop.simps [of a kmem ps pe prg rs st]
        using Insert_at Some "1.prems"(3,4) xy(1,2) by (auto simp: range_alloc_def unpin_promise_def Let_def)
    qed
  next
    case (Overlap_at n)
    obtain xs r ys where xy: "rs = xs @ r # ys" "n = length xs" "page_range_in_range r ps pe"
      using scan_overlap [OF Overlap_at] by auto
    let ?ps = "min (pgstart r) ps" and ?pe = "max (pgend r) pe"
    have rw: "pgstart r \<le> pgend r" using "1.prems"(1) xy(1) by (simp add: ranges_ok_append ranges_ok_Cons)
    have ov: "pgstart r \<le> pe" "ps \<le> pgend r" using in_range_iff [OF rw "1.prems"(2)] xy(3) by simp_all
    have nth: "rs ! n = r" "take n rs @ drop (Suc n) rs = xs @ ys" using xy by simp_all
    have eq: "unpin_loop a kmem ps pe prg rs st = unpin_loop a kmem ?ps ?pe (prg OR purged r) (xs @ ys) (range_del a r st)"
      using Overlap_at nth by (simp add: unpin_loop.simps [of a kmem ps pe prg rs st] Let_def)
    have "ranges_ok (xs @ ys)" using "1.prems"(1) xy(1) by (auto simp: ranges_ok_append ranges_ok_Cons)
    moreover have "?ps \<le> ?pe" using rw by (meson max.cobounded1 min.cobounded1 order.trans)
    moreover have "prg OR purged r \<in> {0, 1}" using "1.prems"(3,4) xy(1) by auto
    ultimately have IH: "case unpin_loop a kmem ?ps ?pe (prg OR purged r) (xs @ ys) (range_del a r st) of
        (st', res, rs') \<Rightarrow> unpin_promise (kmem \<noteq> None) ?ps ?pe (xs @ ys) res rs'"
      using "1.IH" [OF Overlap_at refl, unfolded nth] "1.prems"(3) xy(1) by simp
    have n: "unat (pgstart r) \<le> unat pe" "unat ps \<le> unat (pgend r)" "unat ps \<le> unat pe" "unat (pgstart r) \<le> unat (pgend r)"
      using ov rw "1.prems"(2) by (simp_all add: word_le_nat_alt)
    have "unat ?ps = min (unat (pgstart r)) (unat ps)" "unat ?pe = max (unat (pgend r)) (unat pe)"
      by (simp_all add: min_def max_def word_le_nat_alt)
    then have "{unat ?ps..unat ?pe} = rpages r \<union> {unat ps..unat pe}" unfolding rpages_def using n by auto
    then have "upages (xs @ ys) \<union> {unat ?ps..unat ?pe} = upages rs \<union> {unat ps..unat pe}" "upages (xs @ ys) \<subseteq> upages rs"
      using xy(1) by auto
    then show ?thesis using IH unfolding eq unpin_promise_def by (auto split: prod.splits)
  qed
qed

end
