(* ===== verification/Ashmem_Props.thy ===== *)
theory Ashmem_Props
  imports Ashmem_Pages
begin

text \<open>
  The LRU list of \<open>Ashmem\<close> holds exactly the ranges that are not purged, its count is their size, and
  the shrinker never follows a stale pointer: the invariant of every reachable state.
\<close>

section \<open>The LRU list against a map of the ranges\<close>

definition lru_sum :: "('k \<Rightarrow> ashmem_range option) \<Rightarrow> 'k list \<Rightarrow> ulong" where
  "lru_sum F L = sum_list (map (\<lambda>x. range_size (the (F x))) L)"

lemma lru_sum_cong: "(\<And>x. x \<in> set L \<Longrightarrow> F x = G x) \<Longrightarrow> lru_sum F L = lru_sum G L"
  unfolding lru_sum_def by (intro arg_cong [where f = sum_list] map_cong) auto

lemma lru_sum_remove: "x \<in> set L \<Longrightarrow> lru_sum F L = range_size (the (F x)) + lru_sum F (remove1 x L)"
  unfolding lru_sum_def by (rule sum_list_map_remove1)

lemma lru_sum_append: "lru_sum F (L @ [x]) = lru_sum F L + range_size (the (F x))"
  by (simp add: lru_sum_def)

definition lru_ok :: "('k \<Rightarrow> ashmem_range option) \<Rightarrow> 'k list \<Rightarrow> ulong \<Rightarrow> bool" where
  "lru_ok F L c \<longleftrightarrow> distinct L \<and> (\<forall>x. x \<in> set L \<longleftrightarrow> (\<exists>r. F x = Some r \<and> range_on_lru r)) \<and> c = lru_sum F L"

lemma lru_ok_iff: "lru_ok F L c \<Longrightarrow> x \<in> set L \<longleftrightarrow> (\<exists>r. F x = Some r \<and> range_on_lru r)"
  by (simp add: lru_ok_def)

lemma lru_ok_del_on:
  assumes "lru_ok F L c" and "F x = Some r" and "range_on_lru r"
  shows "lru_ok (F(x := None)) (remove1 x L) (c - range_size r)"
proof -
  have L: "distinct L" "\<And>x. x \<in> set L \<longleftrightarrow> (\<exists>r. F x = Some r \<and> range_on_lru r)" "c = lru_sum F L"
    using assms(1) by (auto simp: lru_ok_def)
  have "c = range_size r + lru_sum F (remove1 x L)"
    using lru_sum_remove [of x L F] L(2) [of x] assms(2,3) L(3) by simp
  moreover have "lru_sum (F(x := None)) (remove1 x L) = lru_sum F (remove1 x L)"
    using L(1) by (intro lru_sum_cong) auto
  moreover have "y \<in> set (remove1 x L) \<longleftrightarrow> (\<exists>r. (F(x := None)) y = Some r \<and> range_on_lru r)" for y
    using L(1) L(2) [of y] by auto
  ultimately show ?thesis using L(1) by (simp add: lru_ok_def)
qed

lemma lru_ok_cong:
  assumes "lru_ok F L c" and "\<And>x. x \<in> set L \<Longrightarrow> G x = F x" and "\<And>x. x \<notin> set L \<Longrightarrow> \<not> (\<exists>r. G x = Some r \<and> range_on_lru r)"
  shows "lru_ok G L c"
proof -
  have F: "x \<in> set L \<longleftrightarrow> (\<exists>r. F x = Some r \<and> range_on_lru r)" for x using assms(1) by (simp add: lru_ok_def)
  have "x \<in> set L \<longleftrightarrow> (\<exists>r. G x = Some r \<and> range_on_lru r)" for x
    using F [of x] assms(2,3) [of x] by (cases "x \<in> set L") simp_all
  moreover have "lru_sum G L = lru_sum F L" by (rule lru_sum_cong) (rule assms(2))
  ultimately show ?thesis using assms(1) unfolding lru_ok_def by metis
qed

lemma lru_ok_notin: "lru_ok F L c \<Longrightarrow> \<not> (\<exists>r. F x = Some r \<and> range_on_lru r) \<Longrightarrow> x \<notin> set L"
  by (simp add: lru_ok_def)

lemma lru_ok_upd_off:
  assumes "lru_ok F L c" and "\<not> (\<exists>r. F x = Some r \<and> range_on_lru r)" and "\<not> (\<exists>r. v = Some r \<and> range_on_lru r)"
  shows "lru_ok (F(x := v)) L c"
proof (rule lru_ok_cong [OF assms(1)])
  show "(F(x := v)) y = F y" if "y \<in> set L" for y using that lru_ok_notin [OF assms(1,2)] by auto
  show "\<not> (\<exists>r. (F(x := v)) y = Some r \<and> range_on_lru r)" if "y \<notin> set L" for y
    using that assms(1,3) by (cases "y = x") (simp_all add: lru_ok_def)
qed

lemma lru_ok_ins:
  assumes "lru_ok F L c" and "F x = None" and "range_on_lru r"
  shows "lru_ok (F(x \<mapsto> r)) (L @ [x]) (c + range_size r)"
proof -
  have x: "x \<notin> set L" using assms(1,2) by (simp add: lru_ok_def)
  have "lru_sum (F(x \<mapsto> r)) L = lru_sum F L" using x by (intro lru_sum_cong) auto
  moreover have "y \<in> set (L @ [x]) \<longleftrightarrow> (\<exists>q. (F(x \<mapsto> r)) y = Some q \<and> range_on_lru q)" for y
    using assms by (cases "y = x") (simp_all add: lru_ok_def)
  ultimately show ?thesis using assms(1) x by (simp add: lru_ok_def lru_sum_append)
qed

lemma lru_ok_upd:
  assumes "lru_ok F L c" and "F x = Some r" and "purged r' = purged r"
  shows "lru_ok (F(x \<mapsto> r')) L (if range_on_lru r' then c - (range_size r - range_size r') else c)"
proof (cases "range_on_lru r")
  case True
  then have on: "range_on_lru r'" using assms(3) by (simp add: range_on_lru_def)
  have x: "x \<in> set L" using assms(1,2) True by (simp add: lru_ok_def)
  have "lru_sum (F(x \<mapsto> r')) (remove1 x L) = lru_sum F (remove1 x L)"
    using assms(1) by (intro lru_sum_cong) (auto simp: lru_ok_def)
  then have "lru_sum (F(x \<mapsto> r')) L = lru_sum F L - (range_size r - range_size r')"
    using lru_sum_remove [OF x, of F] lru_sum_remove [OF x, of "F(x \<mapsto> r')"] assms(2) by simp
  moreover have "y \<in> set L \<longleftrightarrow> (\<exists>q. (F(x \<mapsto> r')) y = Some q \<and> range_on_lru q)" for y
    using assms(1) x on by (cases "y = x") (simp_all add: lru_ok_def)
  ultimately show ?thesis using assms(1) on by (simp add: lru_ok_def)
next
  case False
  then have "\<not> range_on_lru r'" using assms(3) by (simp add: range_on_lru_def)
  then show ?thesis using lru_ok_upd_off [OF assms(1), of x "Some r'"] assms(2) False by simp
qed

lemma lru_ok_purge:
  assumes "lru_ok F L c" and "F x = Some r" and "range_on_lru r" and "\<not> range_on_lru q"
  shows "lru_ok (F(x \<mapsto> q)) (remove1 x L) (c - range_size r)"
proof -
  have "lru_ok ((F(x := None))(x \<mapsto> q)) (remove1 x L) (c - range_size r)"
    by (rule lru_ok_upd_off [OF lru_ok_del_on [OF assms(1-3)]]) (simp_all add: assms(4))
  then show ?thesis by simp
qed

section \<open>One area's list in the map\<close>

definition rof :: "ashmem_range list \<Rightarrow> nat \<Rightarrow> ashmem_range option" where
  "rof rs = map_of (map (\<lambda>r. (ar_id r, r)) rs)"

definition Fof :: "(nat \<times> nat \<Rightarrow> ashmem_range option) \<Rightarrow> nat \<Rightarrow> ashmem_range list \<Rightarrow> nat \<times> nat \<Rightarrow> ashmem_range option" where
  "Fof A a rs = (\<lambda>(b, i). if b = a then rof rs i else A (b, i))"

lemma rof_append: "rof (xs @ ys) = rof ys ++ rof xs"
  by (simp add: rof_def)

lemma rof_None: "rof rs i = None \<longleftrightarrow> i \<notin> ar_id ` set rs"
  by (auto simp: rof_def map_of_eq_None_iff image_image)

lemma rof_in: "distinct (map ar_id (xs @ r # ys)) \<Longrightarrow> rof (xs @ r # ys) (ar_id r) = Some r"
  by (auto simp: rof_append map_add_def rof_None [THEN iffD2] split: option.splits) (simp add: rof_def)

lemma rof_replace:
  assumes "distinct (map ar_id (xs @ r # ys))"
  shows "rof (xs @ ys) = (rof (xs @ r # ys))(ar_id r := None)"
    and "ar_id r' = ar_id r \<Longrightarrow> rof (xs @ r' # ys) = (rof (xs @ r # ys))(ar_id r \<mapsto> r')"
proof -
  have n: "ar_id r \<notin> ar_id ` set xs" "ar_id r \<notin> ar_id ` set ys" using assms by auto
  have c: "rof (q # ys) = (rof ys)(ar_id q \<mapsto> q)" for q by (simp add: rof_def)
  show "rof (xs @ ys) = (rof (xs @ r # ys))(ar_id r := None)"
    using n by (auto simp: rof_append c map_add_def fun_eq_iff rof_None [THEN iffD2] split: option.splits)
  show "rof (xs @ r' # ys) = (rof (xs @ r # ys))(ar_id r \<mapsto> r')" if "ar_id r' = ar_id r"
    using n that by (auto simp: rof_append c map_add_def fun_eq_iff rof_None [THEN iffD2] split: option.splits)
qed

lemma rof_insert:
  assumes "ar_id q \<notin> ar_id ` set (xs @ ys)"
  shows "rof (xs @ q # ys) = (rof (xs @ ys))(ar_id q \<mapsto> q)"
proof -
  have n: "ar_id q \<notin> ar_id ` set xs" using assms by auto
  have c: "rof (q # ys) = (rof ys)(ar_id q \<mapsto> q)" by (simp add: rof_def)
  show ?thesis using n by (auto simp: rof_append c map_add_def fun_eq_iff rof_None [THEN iffD2] split: option.splits)
qed

lemma Fof_upd:
  "rof rs' = (rof rs)(i := v) \<Longrightarrow> Fof A a rs' = (Fof A a rs)((a, i) := v)"
  by (auto simp: Fof_def fun_eq_iff)


definition st_lru :: "(nat \<times> nat \<Rightarrow> ashmem_range option) \<Rightarrow> nat \<Rightarrow> ashmem_range list \<Rightarrow> ashmem \<Rightarrow> bool" where
  "st_lru A a rs st \<longleftrightarrow> distinct (map ar_id rs) \<and> lru_ok (Fof A a rs) (lru_list st) (lru_count st)"

lemma range_del_lru:
  assumes "st_lru A a (xs @ r # ys) st"
  shows "st_lru A a (xs @ ys) (range_del a r st)"
proof -
  have d: "distinct (map ar_id (xs @ r # ys))" and l: "lru_ok (Fof A a (xs @ r # ys)) (lru_list st) (lru_count st)"
    using assms by (auto simp: st_lru_def)
  have F: "Fof A a (xs @ r # ys) (a, ar_id r) = Some r" using rof_in [OF d] by (simp add: Fof_def)
  have "Fof A a (xs @ ys) = (Fof A a (xs @ r # ys))((a, ar_id r) := None)" by (rule Fof_upd [OF rof_replace(1) [OF d]])
  then show ?thesis using d lru_ok_del_on [OF l F] lru_ok_upd_off [OF l, of "(a, ar_id r)" None] F
    by (simp add: st_lru_def range_del_def lru_del_def)
qed

lemma range_shrink_lru:
  assumes "st_lru A a (xs @ r # ys) st"
  shows "st_lru A a (xs @ r\<lparr>pgstart := s, pgend := e\<rparr> # ys) (fst (range_shrink r s e st))"
proof -
  have d: "distinct (map ar_id (xs @ r # ys))" and l: "lru_ok (Fof A a (xs @ r # ys)) (lru_list st) (lru_count st)"
    using assms by (auto simp: st_lru_def)
  have F: "Fof A a (xs @ r # ys) (a, ar_id r) = Some r" using rof_in [OF d] by (simp add: Fof_def)
  let ?r = "r\<lparr>pgstart := s, pgend := e\<rparr>"
  have "Fof A a (xs @ ?r # ys) = (Fof A a (xs @ r # ys))((a, ar_id r) \<mapsto> ?r)" by (rule Fof_upd [OF rof_replace(2) [OF d]]) simp
  then show ?thesis using d lru_ok_upd [OF l F, of ?r] by (auto simp: st_lru_def range_shrink_def Let_def)
qed

lemma range_alloc_lru:
  assumes "st_lru A a (xs @ ys) st" and "i \<notin> ar_id ` set (xs @ ys)"
  shows "st_lru A a (xs @ \<lparr>ar_id = i, pgstart = s, pgend = e, purged = p\<rparr> # ys) (fst (range_alloc a (Some i) p s e st))"
proof -
  have d: "distinct (map ar_id (xs @ ys))" and l: "lru_ok (Fof A a (xs @ ys)) (lru_list st) (lru_count st)"
    using assms by (auto simp: st_lru_def)
  let ?r = "\<lparr>ar_id = i, pgstart = s, pgend = e, purged = p\<rparr>"
  have F: "Fof A a (xs @ ys) (a, i) = None" using assms(2) by (simp add: Fof_def rof_None)
  have "Fof A a (xs @ ?r # ys) = (Fof A a (xs @ ys))((a, i) \<mapsto> ?r)" using Fof_upd [OF rof_insert [of ?r xs ys]] assms(2) by simp
  moreover have "distinct (map ar_id (xs @ ?r # ys))" using d assms(2) by auto
  ultimately show ?thesis using lru_ok_ins [OF l F, of ?r] lru_ok_upd_off [OF l, of "(a, i)" "Some ?r"] F
    by (simp add: st_lru_def range_alloc_def Let_def lru_add_def)
qed

lemma frame_simps [simp]:
  "areas (lru_add a r st) = areas st" "truncated (lru_add a r st) = truncated st"
  "areas (lru_del a r st) = areas st" "truncated (lru_del a r st) = truncated st"
  "areas (range_del a r st) = areas st" "truncated (range_del a r st) = truncated st"
  "areas (fst (range_shrink r s e st)) = areas st" "truncated (fst (range_shrink r s e st)) = truncated st"
  "areas (fst (range_alloc a k p s e st)) = areas st" "truncated (fst (range_alloc a k p s e st)) = truncated st"
  by (simp_all add: lru_add_def lru_del_def range_del_def range_shrink_def range_alloc_def Let_def split: option.split)

lemma st_lru_areas [simp]: "st_lru A a rs (st\<lparr>areas := m\<rparr>) = st_lru A a rs st"
  by (simp add: st_lru_def)

definition walk_keeps :: "(nat \<times> nat \<Rightarrow> ashmem_range option) \<Rightarrow> nat \<Rightarrow> ashmem_range list \<Rightarrow> ashmem \<Rightarrow> ashmem \<Rightarrow> bool" where
  "walk_keeps A a rs st st' \<longleftrightarrow> st_lru A a rs st' \<and> areas st' = areas st \<and> truncated st' = truncated st"

lemma pin_walk_lru:
  assumes "st_lru A a (xs @ rs) st" and "\<And>i. kmem = Some i \<Longrightarrow> i \<notin> ar_id ` set (xs @ rs)"
  shows "case pin_walk a kmem ps pe rs st of (st', ret, rs') \<Rightarrow> walk_keeps A a (xs @ rs') st st'"
  using assms
proof (induction rs arbitrary: xs st)
  case Nil
  then show ?case by (simp add: walk_keeps_def)
next
  case (Cons r rs)
  have st_0: "st_lru A a ((xs @ [r]) @ rs) st" using Cons.prems(1) by simp
  have keep: "\<exists>st' ret rs'. pin_walk a kmem ps pe rs st1 = (st', ret, rs') \<and> walk_keeps A a (xs @ q # rs') st1 st'"
    if "st_lru A a (xs @ q # rs) st1" "ar_id q = ar_id r" for q st1
    using Cons.IH [of "xs @ [q]" st1] that Cons.prems(2) by (cases "pin_walk a kmem ps pe rs st1") auto
  have drop: "\<exists>st' ret rs'. pin_walk a kmem ps pe rs st1 = (st', ret, rs') \<and> walk_keeps A a (xs @ rs') st1 st'"
    if "st_lru A a (xs @ rs) st1" for st1
    using Cons.IH [of xs st1] that Cons.prems(2) by (cases "pin_walk a kmem ps pe rs st1") auto
  consider (before) "range_before_page r ps"
    | (out) "\<not> range_before_page r ps" "\<not> page_range_in_range r ps pe"
    | (all) "\<not> range_before_page r ps" "page_range_in_range r ps pe" "page_range_subsumes_range r ps pe"
    | (low) "\<not> range_before_page r ps" "page_range_in_range r ps pe" "\<not> page_range_subsumes_range r ps pe" "ps \<le> pgstart r"
    | (high) "\<not> range_before_page r ps" "page_range_in_range r ps pe" "\<not> page_range_subsumes_range r ps pe" "\<not> ps \<le> pgstart r" "pgend r \<le> pe"
    | (mid) "\<not> range_before_page r ps" "page_range_in_range r ps pe" "\<not> page_range_subsumes_range r ps pe" "\<not> ps \<le> pgstart r" "\<not> pgend r \<le> pe"
    by blast
  then show ?case
  proof cases
    case before
    then show ?thesis using Cons.prems(1) by (simp add: walk_keeps_def)
  next
    case out
    then show ?thesis using keep [OF Cons.prems(1) refl] by auto
  next
    case all
    then show ?thesis using drop [OF range_del_lru [OF Cons.prems(1)]] by (auto simp: walk_keeps_def)
  next
    case low
    obtain st1 where st1: "range_shrink r (pe + 1) (pgend r) st = (st1, r\<lparr>pgstart := pe + 1, pgend := pgend r\<rparr>)"
      by (simp add: range_shrink_def Let_def)
    show ?thesis using keep [OF range_shrink_lru [OF Cons.prems(1), where s = "pe + 1" and e = "pgend r"]] low st1
        frame_simps(7,8) [of r "pe + 1" "pgend r" st] by (auto simp: walk_keeps_def)
  next
    case high
    obtain st1 where st1: "range_shrink r (pgstart r) (ps - 1) st = (st1, r\<lparr>pgstart := pgstart r, pgend := ps - 1\<rparr>)"
      by (simp add: range_shrink_def Let_def)
    show ?thesis using keep [OF range_shrink_lru [OF Cons.prems(1), where s = "pgstart r" and e = "ps - 1"]] high st1
        frame_simps(7,8) [of r "pgstart r" "ps - 1" st] by (auto simp: walk_keeps_def)
  next
    case mid
    let ?q = "r\<lparr>pgstart := pgstart r, pgend := ps - 1\<rparr>"
    show ?thesis
    proof (cases kmem)
      case None
      then show ?thesis using mid range_shrink_lru [OF Cons.prems(1), where s = "pgstart r" and e = "ps - 1"]
          frame_simps(7,8) [of r "pgstart r" "ps - 1" st]
        by (auto simp: walk_keeps_def range_alloc_def range_shrink_def Let_def)
    next
      case (Some i)
      let ?n = "\<lparr>ar_id = i, pgstart = pe + 1, pgend = pgend r, purged = purged r\<rparr>"
      let ?s = "fst (range_alloc a kmem (purged r) (pe + 1) (pgend r) st)"
      have "st_lru A a (xs @ ?n # r # rs) ?s" using range_alloc_lru [OF Cons.prems(1)] Cons.prems(2) Some by simp
      then have "st_lru A a ((xs @ [?n]) @ ?q # rs) (fst (range_shrink r (pgstart r) (ps - 1) ?s))"
        by (intro range_shrink_lru) simp
      then have w: "walk_keeps A a (xs @ ?n # ?q # rs) st (fst (range_shrink r (pgstart r) (ps - 1) ?s))" by (simp add: walk_keeps_def)
      have "pin_walk a kmem ps pe (r # rs) st = (fst (range_shrink r (pgstart r) (ps - 1) ?s), purged r, ?n # ?q # rs)"
        using mid Some by (simp add: range_alloc_def range_shrink_def Let_def)
      then show ?thesis using w by simp
    qed
  qed
qed

lemma unpin_loop_lru:
  assumes "st_lru A a rs st" and "\<And>i. kmem = Some i \<Longrightarrow> i \<notin> ar_id ` set rs"
  shows "case unpin_loop a kmem ps pe prg rs st of (st', res, rs') \<Rightarrow> walk_keeps A a rs' st st'"
  using assms
proof (induction a kmem ps pe prg rs st rule: unpin_loop.induct)
  case (1 a kmem ps pe prg rs st)
  show ?case
  proof (cases "scan_walk ps pe 0 rs")
    case (Insert_at n)
    show ?thesis
    proof (cases kmem)
      case None
      then show ?thesis using 1(2) Insert_at unfolding unpin_loop.simps [of a kmem ps pe prg rs st]
        by (simp add: range_alloc_def walk_keeps_def)
    next
      case (Some i)
      have "st_lru A a (take n rs @ \<lparr>ar_id = i, pgstart = ps, pgend = pe, purged = prg\<rparr> # drop n rs) (fst (range_alloc a kmem prg ps pe st))"
        using range_alloc_lru [of A a "take n rs" "drop n rs"] 1(2,3) Some by simp
      then show ?thesis using Insert_at Some frame_simps(9,10) [of a kmem prg ps pe st]
        unfolding unpin_loop.simps [of a kmem ps pe prg rs st] by (auto simp: range_alloc_def Let_def walk_keeps_def)
    qed
  next
    case Has_all
    then show ?thesis using 1(2) unfolding unpin_loop.simps [of a kmem ps pe prg rs st] by (simp add: walk_keeps_def)
  next
    case (Overlap_at n)
    then have n: "n < length rs" using scan_walk_bound [of ps pe 0 rs n] by simp
    have "st_lru A a (take n rs @ rs ! n # drop (Suc n) rs) st" using 1(2) id_take_nth_drop [OF n] by simp
    then have d: "st_lru A a (take n rs @ drop (Suc n) rs) (range_del a (rs ! n) st)" by (rule range_del_lru)
    have "i \<notin> ar_id ` set (take n rs @ drop (Suc n) rs)" if "kmem = Some i" for i
      using 1(3) [OF that] set_take_subset [of n rs] set_drop_subset [of "Suc n" rs] by auto
    from 1(1) [OF Overlap_at refl d this] show ?thesis using Overlap_at
      unfolding unpin_loop.simps [of a kmem ps pe prg rs st] by (simp add: Let_def walk_keeps_def split: prod.splits)
  qed
qed

lemma range_del_all_lru:
  "st_lru A a rs st \<Longrightarrow> walk_keeps A a [] st (fold (range_del a) rs st)"
proof (induction rs arbitrary: st)
  case Nil
  then show ?case by (simp add: walk_keeps_def)
next
  case (Cons r rs)
  then show ?case using range_del_lru [of A a "[]" r rs st] by (simp add: walk_keeps_def)
qed

section \<open>The invariant of the driver\<close>

definition rmap :: "ashmem \<Rightarrow> nat \<times> nat \<Rightarrow> ashmem_range option" where
  "rmap st x = (case areas st (fst x) of None \<Rightarrow> None | Some asma \<Rightarrow> rof (unpinned asma) (snd x))"

lemma Fof_rmap: "areas st a = Some asma \<Longrightarrow> Fof (rmap st) a (unpinned asma) = rmap st"
  by (auto simp: Fof_def rmap_def fun_eq_iff)

lemma rmap_put: "rmap (st'\<lparr>areas := (areas st)(a \<mapsto> asma)\<rparr>) = Fof (rmap st) a (unpinned asma)"
  by (auto simp: Fof_def rmap_def fun_eq_iff)

lemma rmap_drop: "rmap (st'\<lparr>areas := (areas st)(a := None)\<rparr>) = Fof (rmap st) a []"
  by (auto simp: Fof_def rmap_def rof_def fun_eq_iff)

definition area_ok :: "ashmem_area \<Rightarrow> bool" where
  "area_ok asma \<longleftrightarrow> ranges_ok (unpinned asma) \<and> (\<forall>r \<in> set (unpinned asma). purged r \<in> {0, 1})
     \<and> distinct (map ar_id (unpinned asma)) \<and> (unpinned asma \<noteq> [] \<longrightarrow> aa_file asma \<noteq> None)"

definition ashmem_inv :: "ashmem \<Rightarrow> bool" where
  "ashmem_inv st \<longleftrightarrow> (\<forall>a asma. areas st a = Some asma \<longrightarrow> area_ok asma) \<and> lru_ok (rmap st) (lru_list st) (lru_count st)"

lemma inv_st_lru: "ashmem_inv st \<Longrightarrow> areas st a = Some asma \<Longrightarrow> st_lru (rmap st) a (unpinned asma) st \<and> area_ok asma"
  by (auto simp: ashmem_inv_def st_lru_def Fof_rmap area_ok_def)

lemma inv_put:
  assumes "ashmem_inv st" and "area_ok asma" and "st_lru (rmap st) a (unpinned asma) st'"
  shows "ashmem_inv (st'\<lparr>areas := (areas st)(a \<mapsto> asma)\<rparr>)"
  using assms by (simp add: ashmem_inv_def rmap_put st_lru_def)

lemma inv_drop:
  assumes "ashmem_inv st" and "st_lru (rmap st) a [] st'"
  shows "ashmem_inv (st'\<lparr>areas := (areas st)(a := None)\<rparr>)"
  using assms by (simp add: ashmem_inv_def rmap_drop st_lru_def)

lemma inv_set:
  assumes "ashmem_inv st" and "areas st a = Some asma" and "unpinned asma' = unpinned asma" and "aa_file asma \<noteq> None \<Longrightarrow> aa_file asma' \<noteq> None"
  shows "ashmem_inv (st\<lparr>areas := (areas st)(a \<mapsto> asma')\<rparr>)"
  using inv_put [OF assms(1), of asma' a st] inv_st_lru [OF assms(1,2)] assms(3,4) by (auto simp: area_ok_def)

lemma inv_pin:
  assumes "ashmem_inv st" and "areas st a = Some asma" and "aa_file asma \<noteq> None" and "ps \<le> pe"
    and "\<And>i. kmem = Some i \<Longrightarrow> i \<notin> ar_id ` set (unpinned asma)"
  shows "ashmem_inv (fst (ashmem_pin a asma kmem ps pe st))"
proof -
  obtain st' ret us where w: "pin_walk a kmem ps pe (unpinned asma) st = (st', ret, us)" by (metis prod_cases3)
  have i: "st_lru (rmap st) a (unpinned asma) st" "area_ok asma" using inv_st_lru [OF assms(1,2)] by auto
  have k: "walk_keeps (rmap st) a us st st'"
    using pin_walk_lru [of "rmap st" a "[]" "unpinned asma" st kmem ps pe] i(1) assms(5) w by simp
  have "pin_promise (kmem \<noteq> None) ps pe (unpinned asma) ret us"
    using pin_walk_spec [OF _ assms(4), where rs = "unpinned asma" and a = a and kmem = kmem and st = st] i(2) w by (simp add: area_ok_def)
  then have "area_ok (asma\<lparr>unpinned := us\<rparr>)" using k assms(3) by (auto simp: area_ok_def pin_promise_def walk_keeps_def st_lru_def)
  then show ?thesis using inv_put [OF assms(1), of "asma\<lparr>unpinned := us\<rparr>" a st'] k w by (simp add: ashmem_pin_def walk_keeps_def)
qed

lemma inv_unpin:
  assumes "ashmem_inv st" and "areas st a = Some asma" and "aa_file asma \<noteq> None" and "ps \<le> pe"
    and "\<And>i. kmem = Some i \<Longrightarrow> i \<notin> ar_id ` set (unpinned asma)"
  shows "ashmem_inv (fst (ashmem_unpin a asma kmem ps pe st))"
proof -
  obtain st' ret us where w: "unpin_loop a kmem ps pe 0 (unpinned asma) st = (st', ret, us)" by (metis prod_cases3)
  have i: "st_lru (rmap st) a (unpinned asma) st" "area_ok asma" using inv_st_lru [OF assms(1,2)] by auto
  have k: "walk_keeps (rmap st) a us st st'"
    using unpin_loop_lru [OF i(1), of kmem ps pe 0] assms(5) w by simp
  have "unpin_promise (kmem \<noteq> None) ps pe (unpinned asma) ret us"
    using unpin_loop_spec [OF _ assms(4), where rs = "unpinned asma" and prg = 0 and a = a and kmem = kmem and st = st] i(2) w by (simp add: area_ok_def)
  then have "area_ok (asma\<lparr>unpinned := us\<rparr>)" using k assms(3) by (auto simp: area_ok_def unpin_promise_def walk_keeps_def st_lru_def)
  then show ?thesis using inv_put [OF assms(1), of "asma\<lparr>unpinned := us\<rparr>" a st'] k w by (simp add: ashmem_unpin_def walk_keeps_def)
qed

section \<open>The shrinker\<close>

lemma rof_find: "rof rs i = find (\<lambda>r. ar_id r = i) rs"
  by (induction rs) (auto simp: rof_def)

lemma inv_deref:
  assumes "ashmem_inv st" and "x \<in> set (lru_list st)"
  obtains asma r f where "areas st (fst x) = Some asma" and "rof (unpinned asma) (snd x) = Some r" and "range_on_lru r"
    and "lru_deref st x = Some (asma, r, f)"
proof -
  obtain r where r: "rmap st x = Some r" "range_on_lru r" using assms lru_ok_iff [of "rmap st" _ _ x] by (auto simp: ashmem_inv_def)
  then obtain asma where asma: "areas st (fst x) = Some asma" "rof (unpinned asma) (snd x) = Some r"
    by (auto simp: rmap_def split: option.splits)
  then have "unpinned asma \<noteq> []" by (auto simp: rof_def)
  then obtain f where "aa_file asma = Some f" using inv_st_lru [OF assms(1) asma(1)] by (auto simp: area_ok_def)
  then show ?thesis using that asma r by (simp add: lru_deref_def rof_find)
qed

lemma rof_purge:
  "rof (map (\<lambda>q. if ar_id q = i then q\<lparr>purged := 1\<rparr> else q) rs) j
     = (if j = i then map_option (\<lambda>q. q\<lparr>purged := 1\<rparr>) (rof rs j) else rof rs j)"
  by (induction rs) (auto simp: rof_def)

lemma ranges_ok_map:
  assumes "\<And>r. pgstart (g r) = pgstart r \<and> pgend (g r) = pgend r"
  shows "ranges_ok (map g rs) = ranges_ok rs"
  by (induction rs) (simp_all add: ranges_ok_Cons assms)

lemma shrink_one_inv:
  fixes f :: nat
  assumes inv: "ashmem_inv st" and asma: "areas st (fst x) = Some asma" and r: "rof (unpinned asma) (snd x) = Some r" "range_on_lru r"
  defines "st' \<equiv> shrink_one x (asma, r, f) st"
  shows "ashmem_inv st'" and "lru_list st' = remove1 x (lru_list st)" and "rmap st' = (rmap st)(x \<mapsto> r\<lparr>purged := 1\<rparr>)"
    and "length (truncated st') = Suc (length (truncated st))"
proof -
  let ?g = "\<lambda>q. if ar_id q = snd x then q\<lparr>purged := 1\<rparr> else q"
  let ?us = "map ?g (unpinned asma)"
  have id: "(fst x, ar_id r) = x" using r(1) by (auto simp: rof_find find_Some_iff prod_eq_iff)
  have st': "st' = (lru_del (fst x) r st)\<lparr>truncated := truncated st @ [(f, ucast (pgstart r * PAGE_SIZE), ucast ((pgend r + 1) * PAGE_SIZE - 1))],
      areas := (areas st)(fst x \<mapsto> asma\<lparr>unpinned := ?us\<rparr>)\<rparr>"
    by (simp add: st'_def shrink_one_def Let_def lru_del_def)
  show "lru_list st' = remove1 x (lru_list st)" using id by (simp add: st' lru_del_def)
  show "length (truncated st') = Suc (length (truncated st))" by (simp add: st')
  have F: "Fof (rmap st) (fst x) ?us = (rmap st)(x \<mapsto> r\<lparr>purged := 1\<rparr>)"
    using Fof_upd [of ?us "unpinned asma" "snd x" "Some (r\<lparr>purged := 1\<rparr>)" "rmap st" "fst x"] r(1) Fof_rmap [OF asma]
    by (simp add: fun_eq_iff rof_purge)
  show m: "rmap st' = (rmap st)(x \<mapsto> r\<lparr>purged := 1\<rparr>)" unfolding st' rmap_put using F by simp
  have x: "rmap st x = Some r" using asma r(1) by (simp add: rmap_def)
  have l: "lru_ok (rmap st) (lru_list st) (lru_count st)" using inv by (simp add: ashmem_inv_def)
  have "lru_ok (rmap st') (lru_list st') (lru_count st')"
    using lru_ok_purge [OF l x r(2), of "r\<lparr>purged := 1\<rparr>"] id m by (simp add: st' lru_del_def range_on_lru_def)
  moreover have "map ar_id ?us = map ar_id (unpinned asma)" by simp
  then have "area_ok (asma\<lparr>unpinned := ?us\<rparr>)" using inv_st_lru [OF inv asma] ranges_ok_map [of ?g "unpinned asma"]
    by (auto simp: area_ok_def simp del: map_map)
  then have "\<forall>a q. areas st' a = Some q \<longrightarrow> area_ok q" using inv by (simp add: st' ashmem_inv_def)
  ultimately show "ashmem_inv st'" by (simp add: ashmem_inv_def)
qed

lemma lru_sum_Cons: "lru_sum F (x # L) = range_size (the (F x)) + lru_sum F L"
  by (simp add: lru_sum_def)

lemma lru_sum_same:
  assumes "x \<notin> set L"
  shows "lru_sum (F(x := v)) (take j L) = lru_sum F (take j L)"
  using assms set_take_subset [of j L] by (intro lru_sum_cong) auto

text \<open>
  How far the shrinker goes: it purges the least recently unpinned ranges, a prefix of the list, up to
  the first at which \<open>nr\<close> pages are freed.
\<close>

definition shrinks_to :: "ulong \<Rightarrow> (nat \<times> nat \<Rightarrow> ashmem_range option) \<Rightarrow> (nat \<times> nat) list \<Rightarrow> nat \<Rightarrow> bool" where
  "shrinks_to nr F L k \<longleftrightarrow> k \<le> length L \<and> (k < length L \<longrightarrow> 0 < k \<and> sint (nr - lru_sum F (take k L)) \<le> 0)
     \<and> (\<forall>j. 0 < j \<and> j < k \<longrightarrow> 0 < sint (nr - lru_sum F (take j L)))"

lemma shrinks_to_one: "sint (nr - range_size (the (F x))) \<le> 0 \<Longrightarrow> shrinks_to nr F (x # L) 1"
  by (auto simp: shrinks_to_def lru_sum_def)

lemma shrinks_to_Suc:
  assumes "0 < sint (nr - range_size (the (F x)))" and "shrinks_to (nr - range_size (the (F x))) F L k"
  shows "shrinks_to nr F (x # L) (Suc k)"
proof -
  have "0 < sint (nr - lru_sum F (take j (x # L)))" if "0 < j" "j < Suc k" for j
    using assms that by (cases "j = 1") (auto simp: shrinks_to_def lru_sum_Cons lru_sum_def take_Cons' diff_diff_eq gr0_conv_Suc)
  then show ?thesis using assms by (auto simp: shrinks_to_def lru_sum_Cons diff_diff_eq)
qed

lemma shrink_loop_inv:
  assumes "ashmem_inv st" and "lru_list st = L"
  shows "\<exists>st' k. shrink_loop nr L st = Ok st' \<and> ashmem_inv st' \<and> lru_list st' = drop k L
    \<and> length (truncated st') = length (truncated st) + k \<and> shrinks_to nr (rmap st) L k"
  using assms
proof (induction L arbitrary: st nr)
  case Nil
  then show ?case by (auto simp: shrinks_to_def)
next
  case (Cons x L)
  have x: "x \<in> set (lru_list st)" "x \<notin> set L" using Cons.prems by (auto simp: ashmem_inv_def lru_ok_def)
  obtain asma r f where d: "areas st (fst x) = Some asma" "rof (unpinned asma) (snd x) = Some r" "range_on_lru r"
    "lru_deref st x = Some (asma, r, f)" using inv_deref [OF Cons.prems(1) x(1)] by blast
  let ?st = "shrink_one x (asma, r, f) st" and ?nr = "nr - range_size r"
  note one = shrink_one_inv [OF Cons.prems(1) d(1-3), of f]
  have r: "the (rmap st x) = r" using d by (simp add: rmap_def)
  have l: "lru_list ?st = L" using one(2) Cons.prems(2) by simp
  show ?case
  proof (cases "sint ?nr \<le> 0")
    case True
    then have "shrinks_to nr (rmap st) (x # L) 1" using shrinks_to_one [of nr "rmap st" x L] r by simp
    moreover have "shrink_loop nr (x # L) st = Ok ?st" using d(4) True by (simp add: Let_def)
    ultimately show ?thesis using one(1,4) l by (intro exI [of _ ?st] exI [of _ 1]) (simp del: shrink_loop.simps)
  next
    case False
    obtain st' k where k: "shrink_loop ?nr L ?st = Ok st'" "ashmem_inv st'" "lru_list st' = drop k L"
      "length (truncated st') = length (truncated ?st) + k" "shrinks_to ?nr (rmap ?st) L k" using Cons.IH [OF one(1) l] by blast
    have "shrinks_to ?nr (rmap st) L k" using k(5) one(3) lru_sum_same [OF x(2)] by (simp add: shrinks_to_def)
    then have "shrinks_to nr (rmap st) (x # L) (Suc k)" using shrinks_to_Suc [of nr "rmap st" x L k] r False by simp
    moreover have "shrink_loop nr (x # L) st = Ok st'" using d(4) False k(1) by (simp add: Let_def)
    ultimately show ?thesis using k(2-4) one(4) by (intro exI [of _ st'] exI [of _ "Suc k"]) (simp del: shrink_loop.simps)
  qed
qed

lemma ashmem_shrink_inv:
  assumes "ashmem_inv st"
  shows "\<exists>st' ret. ashmem_shrink nr fs st = Ok (st', ret) \<and> ashmem_inv st'"
  using shrink_loop_inv [OF assms refl, of nr] assms by (auto simp: ashmem_shrink_def)

section \<open>Reachable states\<close>

definition ashmem_init :: "ashmem \<Rightarrow> bool" where
  "ashmem_init st \<longleftrightarrow> areas st = Map.empty \<and> lru_list st = [] \<and> lru_count st = 0"

text \<open>
  One call of a file operation or of the shrinker. An area is passed as it is in the state (the mutex
  is held for the call), an allocation gives a number that is not in use. A pin request names at least
  one page: \<open>pin_empty\<close> below is the case this leaves out.
\<close>

fun names_page :: "ashmem_area \<Rightarrow> ashmem_cmd \<Rightarrow> bool" where
  "names_page asma (ASHMEM_PINNING c pin) = (case pin_interval asma pin of Ok (ps, pe) \<Rightarrow> ps \<le> pe | _ \<Rightarrow> True)"
| "names_page asma cmd = True"

inductive ashmem_step :: "ashmem \<Rightarrow> ashmem \<Rightarrow> bool" where
  "areas st a = None \<Longrightarrow> ashmem_step st (fst (ashmem_open (Some a) st))"
| "areas st a = Some asma \<Longrightarrow> ashmem_step st (ashmem_release a asma st)"
| "areas st a = Some asma \<Longrightarrow> ashmem_step st (fst (ashmem_mmap a asma vm_flags shmem st))"
| "areas st a = Some asma \<Longrightarrow> (\<And>i. kmem = Some i \<Longrightarrow> i \<notin> ar_id ` set (unpinned asma)) \<Longrightarrow> names_page asma cmd
     \<Longrightarrow> ashmem_step st (fst (ashmem_ioctl a asma cmd admin rie to_user kmem st))"
| "ashmem_shrink nr fs st = Ok (st', ret) \<Longrightarrow> ashmem_step st st'"

lemma inv_open: "ashmem_inv st \<Longrightarrow> areas st a = None \<Longrightarrow> ashmem_inv (fst (ashmem_open (Some a) st))"
proof -
  assume i: "ashmem_inv st" and a: "areas st a = None"
  have "Fof (rmap st) a [] = rmap st" using a by (auto simp: Fof_def rmap_def rof_def fun_eq_iff)
  then have "st_lru (rmap st) a [] st" using i by (simp add: st_lru_def ashmem_inv_def)
  then show ?thesis unfolding ashmem_open_def option.case fst_conv by (intro inv_put [OF i]) (simp_all add: area_ok_def)
qed

lemma inv_release: "ashmem_inv st \<Longrightarrow> areas st a = Some asma \<Longrightarrow> ashmem_inv (ashmem_release a asma st)"
  using range_del_all_lru [of "rmap st" a "unpinned asma" st] inv_st_lru [of st a asma] inv_drop [of st a]
  by (simp add: ashmem_release_def walk_keeps_def)

lemma inv_mmap: "ashmem_inv st \<Longrightarrow> areas st a = Some asma \<Longrightarrow> ashmem_inv (fst (ashmem_mmap a asma vm_flags shmem st))"
  by (auto simp: ashmem_mmap_def intro: inv_set split: option.splits kres.splits)

lemma pin_interval_file: "pin_interval asma pin = Ok v \<Longrightarrow> aa_file asma \<noteq> None"
  by (cases "aa_file asma = None") (simp_all add: pin_interval_def)

lemma inv_pin_unpin:
  assumes "ashmem_inv st" and "areas st a = Some asma" and "\<And>i. kmem = Some i \<Longrightarrow> i \<notin> ar_id ` set (unpinned asma)"
    and "names_page asma (ASHMEM_PINNING c pin)"
  shows "ashmem_inv (fst (ashmem_pin_unpin a asma c pin kmem st))"
proof (cases "pin_interval asma pin")
  case (Ok v)
  obtain ps pe where v: "v = (ps, pe)" by (cases v)
  have f: "aa_file asma \<noteq> None" "ps \<le> pe" using Ok v pin_interval_file [OF Ok] assms(4) by auto
  have "ashmem_inv (fst (ashmem_pin a asma kmem ps pe st))" "ashmem_inv (fst (ashmem_unpin a asma kmem ps pe st))"
    by (rule inv_pin [OF assms(1,2) f], erule assms(3), rule inv_unpin [OF assms(1,2) f], erule assms(3))
  then show ?thesis using Ok v assms(1)
    by (cases c) (auto simp: ashmem_pin_unpin_def split: prod.splits)
qed (use assms(1) in \<open>simp_all add: ashmem_pin_unpin_def\<close>)

lemma inv_purge_all:
  assumes "ashmem_inv st"
  shows "ashmem_inv (fst (ashmem_ioctl a asma ASHMEM_PURGE_ALL_CACHES admin rie to_user kmem st))"
proof -
  have z: "ashmem_shrink 0 True st = Ok (st, Some (lru_count st))" by (simp add: ashmem_shrink_def)
  obtain st' ret where "ashmem_shrink (lru_count st) True st = Ok (st', ret)" "ashmem_inv st'"
    using ashmem_shrink_inv [OF assms] by blast
  then show ?thesis using z assms by (simp add: ashmem_ioctl_def)
qed

lemma inv_ioctl:
  assumes "ashmem_inv st" and "areas st a = Some asma" and "\<And>i. kmem = Some i \<Longrightarrow> i \<notin> ar_id ` set (unpinned asma)"
    and "names_page asma cmd"
  shows "ashmem_inv (fst (ashmem_ioctl a asma cmd admin rie to_user kmem st))"
proof (cases cmd)
  case (ASHMEM_PINNING c pin)
  then show ?thesis using inv_pin_unpin [OF assms(1,2), where c = c and pin = pin and kmem = kmem] assms(3,4) by (simp add: ashmem_ioctl_def)
next
  case ASHMEM_PURGE_ALL_CACHES
  then show ?thesis using inv_purge_all [OF assms(1)] by simp
qed (use assms(1,2) in \<open>auto simp: ashmem_ioctl_def set_name_def set_prot_mask_def Let_def intro: inv_set split: prod.splits\<close>)

interpretation ashmem: invariant_machine ashmem_init ashmem_step ashmem_inv
proof
  show "ashmem_inv st" if "ashmem_init st" for st
    using that by (auto simp: ashmem_init_def ashmem_inv_def lru_ok_def rmap_def lru_sum_def)
  show "ashmem_inv st'" if "ashmem_inv st" "ashmem_step st st'" for st st'
    using that(2,1)
  proof cases
    case (5 nr fs ret)
    then show ?thesis using ashmem_shrink_inv [OF that(1), of nr fs] by auto
  qed (auto intro: inv_open inv_release inv_mmap inv_ioctl)
qed

text \<open>A run: an area of four pages is opened, sized, mapped, and its two inner pages are unpinned.\<close>

definition ash0 :: ashmem where
  "ash0 = \<lparr>areas = Map.empty, lru_list = [], lru_count = 0, truncated = []\<rparr>"

definition ash1 :: ashmem where
  "ash1 = fst (ashmem_open (Some 0) ash0)"

definition ash2 :: ashmem where
  "ash2 = fst (ashmem_ioctl 0 (the (areas ash1 0)) (ASHMEM_SET_SIZE 0x3456) False False True None ash1)"

definition ash3 :: ashmem where
  "ash3 = fst (ashmem_mmap 0 (the (areas ash2 0)) 3 (Ok 5) ash2)"

definition ash4 :: ashmem where
  "ash4 = fst (ashmem_ioctl 0 (the (areas ash3 0)) (ASHMEM_PINNING ASHMEM_UNPIN (Some (0x1000, 0x2000))) False False True (Some 7) ash3)"

lemma ash_reach: "reach ashmem_init ashmem_step ash4"
proof -
  have "ashmem_init ash0" by (simp add: ashmem_init_def ash0_def)
  then have r0: "reach ashmem_init ashmem_step ash0" by (rule reach_init)
  have "areas ash0 0 = None" by code_simp
  then have r1: "reach ashmem_init ashmem_step ash1" unfolding ash1_def by (intro reach_step [OF r0] ashmem_step.intros(1))
  have "areas ash1 0 = Some (the (areas ash1 0))" by code_simp
  then have r2: "reach ashmem_init ashmem_step ash2" unfolding ash2_def by (intro reach_step [OF r1] ashmem_step.intros(4)) auto
  have "areas ash2 0 = Some (the (areas ash2 0))" by code_simp
  then have r3: "reach ashmem_init ashmem_step ash3" unfolding ash3_def by (intro reach_step [OF r2] ashmem_step.intros(3))
  have "areas ash3 0 = Some (the (areas ash3 0))" "unpinned (the (areas ash3 0)) = []"
    "names_page (the (areas ash3 0)) (ASHMEM_PINNING ASHMEM_UNPIN (Some (0x1000, 0x2000)))" by code_simp+
  then show ?thesis unfolding ash4_def by (intro reach_step [OF r3] ashmem_step.intros(4)) auto
qed

lemma ash_inv: "ashmem_inv ash4"
  by (rule ashmem.reach_inv [OF ash_reach])

definition ash_area :: ashmem_area where
  "ash_area = the (areas ash4 0)"

lemma ash3_area: "pin_interval (the (areas ash3 0)) (Some (0x1000, 0x2000)) = Ok (1, 2)" "unpinned (the (areas ash3 0)) = []"
  by code_simp+

lemma ash3_lru: "lru_list ash3 = []" "lru_count ash3 = 0"
  by (auto simp: ash3_def ashmem_mmap_def ash2_def ashmem_ioctl_def ash1_def ashmem_open_def ash0_def split: option.split)

lemma ash_unpin: "unpin_loop a (Some i) 1 2 0 [] st = (lru_add a \<lparr>ar_id = i, pgstart = 1, pgend = 2, purged = 0\<rparr> st, Ok (), [\<lparr>ar_id = i, pgstart = 1, pgend = 2, purged = 0\<rparr>])"
  by (simp add: unpin_loop.simps range_alloc_def Let_def range_on_lru_def)

lemma ash4_eq:
  "ash4 = (lru_add 0 \<lparr>ar_id = 7, pgstart = 1, pgend = 2, purged = 0\<rparr> ash3)
     \<lparr>areas := (areas ash3)(0 \<mapsto> (the (areas ash3 0))\<lparr>unpinned := [\<lparr>ar_id = 7, pgstart = 1, pgend = 2, purged = 0\<rparr>]\<rparr>)\<rparr>"
  by (simp add: ash4_def ashmem_ioctl_def ashmem_pin_unpin_def ash3_area ashmem_unpin_def ash_unpin)

lemma ash4_area: "areas ash4 0 = Some ash_area" "unpinned ash_area = [\<lparr>ar_id = 7, pgstart = 1, pgend = 2, purged = 0\<rparr>]"
  "lru_list ash4 = [(0, 7)]" "lru_count ash4 = 2" "aa_size ash_area = 0x3456" "aa_file ash_area = Some 5"
proof -
  have "aa_size (the (areas ash3 0)) = 0x3456" "aa_file (the (areas ash3 0)) = Some 5" by code_simp+
  then show "areas ash4 0 = Some ash_area" "unpinned ash_area = [\<lparr>ar_id = 7, pgstart = 1, pgend = 2, purged = 0\<rparr>]"
    "lru_list ash4 = [(0, 7)]" "lru_count ash4 = 2" "aa_size ash_area = 0x3456" "aa_file ash_area = Some 5"
    by (simp_all add: ash_area_def ash4_eq lru_add_def ash3_lru range_size_def)
qed

section \<open>Properties\<close>

lemma unat_PAGE_SIZE [simp]: "unat PAGE_SIZE = 4096"
  by (simp add: PAGE_SIZE_def)

lemma page_aligned: "w AND (PAGE_SIZE - 1) = 0 \<longleftrightarrow> unat w mod 4096 = 0"
  using unat_and_pow2_minus1 [of PAGE_SIZE 12 w] by (simp add: PAGE_SIZE_def word_unat_eq_iff)

lemma or_aligned: "(v OR w) AND m = 0 \<longleftrightarrow> v AND m = 0 \<and> w AND m = 0" for v w m :: "'a::len word"
  by (auto simp: bit_eq_iff bit_simps)

lemma pin_interval_pages_len:
  assumes "(offset OR l) AND (PAGE_SIZE - 1) = 0" and "\<not> - 1 - offset < l" and "l \<noteq> 0" and "ps = offset div PAGE_SIZE"
  shows "unat ps * 4096 = unat offset \<and> (unat (ps + l div PAGE_SIZE - 1) + 1) * 4096 = unat offset + unat l
    \<and> unat (offset + l) = unat offset + unat l \<and> ps \<le> ps + l div PAGE_SIZE - 1"
proof -
  have al: "unat offset mod 4096 = 0" "unat l mod 4096 = 0" using assms(1) [unfolded or_aligned] page_aligned by blast+
  have "unat l \<le> unat (- 1 - offset)" using assms(2) by (simp add: word_less_nat_alt)
  also have "unat (- 1 - offset) = 2 ^ 32 - 1 - unat offset" by (subst unat_sub) (simp_all add: unsigned_minus_1_eq_mask mask_eq_exp_minus_1)
  finally have b: "unat offset + unat l < 2 ^ 32" using unat_u32 [of offset] by simp
  have o: "unat ps = unat offset div 4096" "unat (l div PAGE_SIZE) = unat l div 4096" using assms(4) by (simp_all add: unat_div)
  have l: "unat l \<noteq> 0" using assms(3) by (simp add: unat_eq_0)
  then have "0 < unat l div 4096" using al(2) by (auto simp: mod_eq_0_iff_dvd div_greater_zero_iff dest: dvd_imp_le)
  moreover have "unat (ps + l div PAGE_SIZE) = unat offset div 4096 + unat l div 4096"
    using o b by (simp add: unat_word_ariths)
  ultimately have e: "unat (ps + l div PAGE_SIZE - 1) = unat offset div 4096 + unat l div 4096 - 1"
    by (subst unat_sub) (simp_all add: word_le_nat_alt)
  moreover have "unat (offset + l) = unat offset + unat l" using b by (simp add: unat_word_ariths)
  ultimately show ?thesis using al o \<open>0 < unat l div 4096\<close> by (auto simp: word_le_nat_alt)
qed

text \<open>
  C16: unpinning an interval makes exactly its pages unpinned besides those that were; the call fails only
  when there is no memory for the new range.
\<close>

theorem ashmem_unpin_pages:
  assumes "ashmem_inv st" and "areas st a = Some asma" and "ps \<le> pe"
    and "\<forall>i. kmem = Some i \<longrightarrow> i \<notin> ar_id ` set (unpinned asma)"
  shows "\<exists>us. areas (fst (ashmem_unpin a asma kmem ps pe st)) = (areas st)(a \<mapsto> asma\<lparr>unpinned := us\<rparr>) \<and> ranges_ok us
    \<and> (snd (ashmem_unpin a asma kmem ps pe st) = Ok () \<and> upages us = upages (unpinned asma) \<union> {unat ps..unat pe}
       \<or> snd (ashmem_unpin a asma kmem ps pe st) = Err ENOMEM \<and> kmem = None \<and> upages us \<subseteq> upages (unpinned asma))"
proof -
  obtain st' ret us where w: "unpin_loop a kmem ps pe 0 (unpinned asma) st = (st', ret, us)" by (metis prod_cases3)
  have i: "st_lru (rmap st) a (unpinned asma) st" "area_ok asma" using inv_st_lru [OF assms(1,2)] by auto
  have "areas st' = areas st" using unpin_loop_lru [OF i(1), of kmem ps pe 0] assms(4) w by (simp add: walk_keeps_def)
  moreover have "unpin_promise (kmem \<noteq> None) ps pe (unpinned asma) ret us"
    using unpin_loop_spec [OF _ assms(3), where rs = "unpinned asma" and prg = 0 and a = a and kmem = kmem and st = st] i(2) w
    by (simp add: area_ok_def)
  ultimately show ?thesis using w by (auto simp: ashmem_unpin_def unpin_promise_def)
qed

theorem ashmem_unpin_pages_witness:
  "\<exists>us. areas (fst (ashmem_unpin 0 ash_area (Some 8) 2 3 ash4)) = (areas ash4)(0 \<mapsto> ash_area\<lparr>unpinned := us\<rparr>)
    \<and> snd (ashmem_unpin 0 ash_area (Some 8) 2 3 ash4) = Ok () \<and> upages us = upages (unpinned ash_area) \<union> {2..3}"
  using ashmem_unpin_pages [OF ash_inv ash4_area(1), of 2 3 "Some 8"] by (auto simp: ash4_area(2))











text \<open>
  A pin request that is accepted names whole pages inside the page-aligned size: \<open>pgstart\<close> and
  \<open>pgend\<close> are the first and the last page of the bytes asked for. The one exception is a request
  without length at the very end of the area: it is accepted with \<open>pgend = pgstart - 1\<close>.
\<close>

theorem pin_interval_pages:
  assumes "pin_interval asma (Some (offset, len)) = Ok (ps, pe)"
  shows "(if len = 0 \<and> offset = PAGE_ALIGN (aa_size asma) then pe = ps - 1
          else ps \<le> pe \<and> unat ps * 4096 = unat offset \<and> (unat pe + 1) * 4096 \<le> unat (PAGE_ALIGN (aa_size asma))
            \<and> (unat pe + 1) * 4096 = unat offset + unat (if len = 0 then PAGE_ALIGN (aa_size asma) - offset else len))"
proof -
  let ?l = "if len = 0 then PAGE_ALIGN (aa_size asma) - offset else len"
  have f: "aa_file asma \<noteq> None" by (rule pin_interval_file [OF assms])
  have c: "(offset OR ?l) AND (PAGE_SIZE - 1) = 0" "\<not> - 1 - offset < ?l" "\<not> PAGE_ALIGN (aa_size asma) < offset + ?l"
    "ps = offset div PAGE_SIZE" "pe = ps + ?l div PAGE_SIZE - 1"
    using assms f unfolding pin_interval_def Let_def by (simp_all only: if_False option.case prod.case split: if_splits) (simp_all, auto)
  show ?thesis
  proof (cases "?l = 0")
    case True
    then have "len = 0 \<and> offset = PAGE_ALIGN (aa_size asma)" by (simp split: if_splits)
    then show ?thesis using c(5) by simp
  next
    case False
    then have "\<not> (len = 0 \<and> offset = PAGE_ALIGN (aa_size asma))" by auto
    then show ?thesis using pin_interval_pages_len [OF c(1,2) False c(4)] c(3,5) by (simp add: not_less word_le_nat_alt)
  qed
qed

theorem pin_interval_pages_witness:
  "pin_interval ash_area (Some (0x1000, 0)) = Ok (1, 3) \<and> (1::ulong) \<le> 3 \<and> pin_interval ash_area (Some (0x4000, 0)) = Ok (4, 3)"
proof -
  have "pin_interval ash_area (Some (0x1000, 0)) = Ok (1, 3)" "pin_interval ash_area (Some (0x4000, 0)) = Ok (4, 3)"
    "PAGE_ALIGN (aa_size ash_area) = 0x4000"
    by (simp_all add: pin_interval_def ash4_area(5,6) PAGE_ALIGN_def PAGE_SIZE_def)
  then show ?thesis using pin_interval_pages [of ash_area "0x1000" 0 1 3] by simp
qed

end
