(* ===== verification/Semaphore.thy ===== *)
theory Semaphore
  imports KPrelude
begin

text \<open>
  Counting semaphores, \<open>kernel/semaphore.c\<close>. A task that has to wait puts a waiter, a variable of its
  stack frame, on the semaphore's list and sleeps with the lock released; the model keeps the frame of
  a sleeping call beside the semaphore. Each operation up to the point where it sleeps or returns runs
  under the spinlock and is one step. What a task sees of the scheduler (pending signals, the timeout
  that is left) is an argument.
\<close>

section \<open>State\<close>

text \<open>\<open>w_up\<close> is the field of \<open>struct semaphore_waiter\<close>, the rest are the locals of \<open>__down_common\<close>.\<close>

record semaphore_waiter =
  w_up :: u32
  w_state :: ulong
  w_timeout :: ulong

record semaphore =
  sem_count :: u32
  wait_list :: "nat list"
  waiters :: "nat \<Rightarrow> semaphore_waiter option"

datatype down_result = Sleeps | Returns "unit kres"

definition TASK_INTERRUPTIBLE :: ulong where "TASK_INTERRUPTIBLE = 1"
definition TASK_UNINTERRUPTIBLE :: ulong where "TASK_UNINTERRUPTIBLE = 2"
definition TASK_WAKEKILL :: ulong where "TASK_WAKEKILL = 128"
definition TASK_KILLABLE :: ulong where "TASK_KILLABLE = TASK_WAKEKILL OR TASK_UNINTERRUPTIBLE"
definition MAX_SCHEDULE_TIMEOUT :: ulong where "MAX_SCHEDULE_TIMEOUT = 0x7FFFFFFF"

text \<open>\<open>pending\<close> and \<open>fatal\<close> are \<open>signal_pending\<close> and \<open>__fatal_signal_pending\<close> of the task.\<close>

record signals =
  pending :: bool
  fatal :: bool

definition signal_pending_state :: "ulong \<Rightarrow> signals \<Rightarrow> bool" where
  "signal_pending_state state sig =
     (if state AND (TASK_INTERRUPTIBLE OR TASK_WAKEKILL) = 0 then False
      else if \<not> pending sig then False
      else state AND TASK_INTERRUPTIBLE \<noteq> 0 \<or> fatal sig)"

section \<open>Operations\<close>

definition sema_init :: "u32 \<Rightarrow> semaphore" where
  "sema_init val = \<lparr>sem_count = val, wait_list = [], waiters = Map.empty\<rparr>"

text \<open>From the head of the loop in \<open>__down_common\<close> until the task sleeps or gives up.\<close>

definition down_loop :: "nat \<Rightarrow> semaphore_waiter \<Rightarrow> signals \<Rightarrow> semaphore \<Rightarrow> semaphore \<times> down_result" where
  "down_loop t w sig s =
     (if signal_pending_state (w_state w) sig
      then (s\<lparr>wait_list := remove1 t (wait_list s), waiters := (waiters s)(t := None)\<rparr>, Returns (Err EINTR))
      else if sint (w_timeout w) \<le> 0
      then (s\<lparr>wait_list := remove1 t (wait_list s), waiters := (waiters s)(t := None)\<rparr>, Returns (Err ETIME))
      else (s\<lparr>waiters := (waiters s)(t \<mapsto> w)\<rparr>, Sleeps))"

definition u_down_common :: "nat \<Rightarrow> ulong \<Rightarrow> ulong \<Rightarrow> signals \<Rightarrow> semaphore \<Rightarrow> semaphore \<times> down_result" where
  "u_down_common t state timeout sig s =
     down_loop t \<lparr>w_up = 0, w_state = state, w_timeout = timeout\<rparr> sig (s\<lparr>wait_list := wait_list s @ [t]\<rparr>)"

text \<open>
  \<open>schedule_timeout\<close> returns \<open>timeout\<close> and the lock is taken again: \<open>w\<close> is the frame of the call.
\<close>

definition down_resume :: "nat \<Rightarrow> semaphore_waiter \<Rightarrow> ulong \<Rightarrow> signals \<Rightarrow> semaphore \<Rightarrow> semaphore \<times> down_result" where
  "down_resume t w timeout sig s =
     (if w_up w \<noteq> 0 then (s\<lparr>waiters := (waiters s)(t := None)\<rparr>, Returns (Ok ()))
      else down_loop t (w\<lparr>w_timeout := timeout\<rparr>) sig s)"

definition u_down :: "nat \<Rightarrow> signals \<Rightarrow> semaphore \<Rightarrow> semaphore \<times> down_result" where
  "u_down t sig s = u_down_common t TASK_UNINTERRUPTIBLE MAX_SCHEDULE_TIMEOUT sig s"

definition u_down_interruptible :: "nat \<Rightarrow> signals \<Rightarrow> semaphore \<Rightarrow> semaphore \<times> down_result" where
  "u_down_interruptible t sig s = u_down_common t TASK_INTERRUPTIBLE MAX_SCHEDULE_TIMEOUT sig s"

definition u_down_killable :: "nat \<Rightarrow> signals \<Rightarrow> semaphore \<Rightarrow> semaphore \<times> down_result" where
  "u_down_killable t sig s = u_down_common t TASK_KILLABLE MAX_SCHEDULE_TIMEOUT sig s"

definition u_down_timeout :: "nat \<Rightarrow> ulong \<Rightarrow> signals \<Rightarrow> semaphore \<Rightarrow> semaphore \<times> down_result" where
  "u_down_timeout t jiffies sig s = u_down_common t TASK_UNINTERRUPTIBLE jiffies sig s"

definition down :: "nat \<Rightarrow> signals \<Rightarrow> semaphore \<Rightarrow> semaphore \<times> down_result" where
  "down t sig s =
     (if sem_count s > 0 then (s\<lparr>sem_count := sem_count s - 1\<rparr>, Returns (Ok ())) else u_down t sig s)"

definition down_interruptible :: "nat \<Rightarrow> signals \<Rightarrow> semaphore \<Rightarrow> semaphore \<times> down_result" where
  "down_interruptible t sig s =
     (if sem_count s > 0 then (s\<lparr>sem_count := sem_count s - 1\<rparr>, Returns (Ok ())) else u_down_interruptible t sig s)"

definition down_killable :: "nat \<Rightarrow> signals \<Rightarrow> semaphore \<Rightarrow> semaphore \<times> down_result" where
  "down_killable t sig s =
     (if sem_count s > 0 then (s\<lparr>sem_count := sem_count s - 1\<rparr>, Returns (Ok ())) else u_down_killable t sig s)"

definition down_timeout :: "nat \<Rightarrow> ulong \<Rightarrow> signals \<Rightarrow> semaphore \<Rightarrow> semaphore \<times> down_result" where
  "down_timeout t jiffies sig s =
     (if sem_count s > 0 then (s\<lparr>sem_count := sem_count s - 1\<rparr>, Returns (Ok ())) else u_down_timeout t jiffies sig s)"

text \<open>The difference is computed as \<open>unsigned\<close> and then read as \<open>int\<close>; the result is 0 for success.\<close>

definition down_trylock :: "semaphore \<Rightarrow> semaphore \<times> u32" where
  "down_trylock s =
     (let count = sem_count s - 1
      in (if sint count \<ge> 0 then s\<lparr>sem_count := count\<rparr> else s, if sint count < 0 then 1 else 0))"

definition u_up :: "semaphore \<Rightarrow> semaphore" where
  "u_up s =
     (let t = hd (wait_list s)
      in s\<lparr>wait_list := tl (wait_list s),
           waiters := (waiters s)(t := map_option (\<lambda>w. w\<lparr>w_up := 1\<rparr>) (waiters s t))\<rparr>)"

definition up :: "semaphore \<Rightarrow> semaphore" where
  "up s = (if wait_list s = [] then s\<lparr>sem_count := sem_count s + 1\<rparr> else u_up s)"

section \<open>Steps of the tasks\<close>

text \<open>
  A state with the number of acquisitions that have returned and the number of calls of \<open>up\<close>.
\<close>

type_synonym sem_run = "semaphore \<times> nat \<times> nat"

fun acquired :: "down_result \<Rightarrow> nat" where
  "acquired (Returns (Ok _)) = 1"
| "acquired r = 0"

inductive sem_step :: "sem_run \<Rightarrow> sem_run \<Rightarrow> bool" where
  step_down: "waiters s t = None \<Longrightarrow> down t sig s = (s', r) \<Longrightarrow> sem_step (s, a, u) (s', a + acquired r, u)"
| step_interruptible: "waiters s t = None \<Longrightarrow> down_interruptible t sig s = (s', r) \<Longrightarrow> sem_step (s, a, u) (s', a + acquired r, u)"
| step_killable: "waiters s t = None \<Longrightarrow> down_killable t sig s = (s', r) \<Longrightarrow> sem_step (s, a, u) (s', a + acquired r, u)"
| step_timeout: "waiters s t = None \<Longrightarrow> down_timeout t jiffies sig s = (s', r) \<Longrightarrow> sem_step (s, a, u) (s', a + acquired r, u)"
| step_resume: "waiters s t = Some w \<Longrightarrow> down_resume t w timeout sig s = (s', r) \<Longrightarrow> sem_step (s, a, u) (s', a + acquired r, u)"
| step_trylock: "down_trylock s = (s', r) \<Longrightarrow> sem_step (s, a, u) (s', a + (if r = 0 then 1 else 0), u)"
| step_up: "sem_step (s, a, u) (up s, a, Suc u)"

definition sem_start :: "u32 \<Rightarrow> sem_run \<Rightarrow> bool" where
  "sem_start n r \<longleftrightarrow> r = (sema_init n, 0, 0)"

section \<open>The invariant\<close>

text \<open>The tasks that have been given the semaphore and have not run since.\<close>

definition granted :: "semaphore \<Rightarrow> nat set" where
  "granted s = {t. \<exists>w. waiters s t = Some w \<and> w_up w \<noteq> 0}"

definition sem_wf :: "semaphore \<Rightarrow> bool" where
  "sem_wf s \<longleftrightarrow> distinct (wait_list s) \<and> (\<forall>t. t \<in> set (wait_list s) \<longleftrightarrow> (\<exists>w. waiters s t = Some w \<and> w_up w = 0))
     \<and> (wait_list s \<noteq> [] \<longrightarrow> sem_count s = 0) \<and> finite (granted s)"

definition sem_inv :: "u32 \<Rightarrow> sem_run \<Rightarrow> bool" where
  "sem_inv n = (\<lambda>(s, a, u). sem_wf s \<and> sem_count s + of_nat (a + card (granted s)) = n + of_nat u)"

text \<open>What one step may do to the tokens: those given out and those on the way, against the count.\<close>

definition sem_moves :: "semaphore \<Rightarrow> semaphore \<Rightarrow> nat \<Rightarrow> nat \<Rightarrow> bool" where
  "sem_moves s s' got put \<longleftrightarrow> sem_wf s'
     \<and> sem_count s' + of_nat (got + card (granted s')) = sem_count s + of_nat (put + card (granted s))"

lemma sem_moves_inv:
  assumes "sem_moves s s' got put" and "sem_inv n (s, a, u)"
  shows "sem_inv n (s', a + got, u + put)"
proof -
  have "sem_count s' + of_nat (a + got + card (granted s')) = of_nat a + (sem_count s' + of_nat (got + card (granted s')))"
    by (simp add: algebra_simps)
  also have "\<dots> = of_nat put + (sem_count s + of_nat (a + card (granted s)))"
    using assms(1) by (simp add: sem_moves_def algebra_simps)
  also have "\<dots> = n + of_nat (u + put)" using assms(2) by (simp add: sem_inv_def algebra_simps)
  finally show ?thesis using assms(1) by (simp add: sem_inv_def sem_moves_def)
qed

lemma sem_moves_inv_0: "sem_moves s s' got 0 \<Longrightarrow> sem_inv n (s, a, u) \<Longrightarrow> sem_inv n (s', a + got, u)"
  using sem_moves_inv [of s s' got 0 n a u] by simp

lemma sem_inv_wf: "sem_inv n (s, a, u) \<Longrightarrow> sem_wf s"
  by (simp add: sem_inv_def)

lemma granted_None: "granted (s\<lparr>waiters := (waiters s)(t := None)\<rparr>) = granted s - {t}"
  by (auto simp: granted_def)

lemma granted_simps [simp]:
  "granted (s\<lparr>sem_count := c\<rparr>) = granted s" "granted (s\<lparr>wait_list := l\<rparr>) = granted s"
  by (simp_all add: granted_def)

lemma take_token_moves: "sem_wf s \<Longrightarrow> sem_count s \<noteq> 0 \<Longrightarrow> sem_moves s (s\<lparr>sem_count := sem_count s - 1\<rparr>) 1 0"
  by (auto simp: sem_moves_def sem_wf_def)

text \<open>A waiter that gives up, and one that goes on sleeping.\<close>

lemma down_loop_moves:
  assumes wf: "sem_wf s" and w: "w_up w = 0" "\<forall>v. waiters s t = Some v \<longrightarrow> w_up v = 0"
    and l: "wait_list s' = wait_list s \<and> t \<in> set (wait_list s) \<or> wait_list s' = wait_list s @ [t] \<and> t \<notin> set (wait_list s)"
    and s': "sem_count s' = sem_count s" "waiters s' = waiters s" and z: "sem_count s = 0"
    and d: "down_loop t w sig s' = (s1, r)"
  shows "sem_moves s s1 (acquired r) 0"
proof -
  have wl: "distinct (wait_list s)" "\<And>v. v \<in> set (wait_list s) \<longleftrightarrow> (\<exists>w. waiters s v = Some w \<and> w_up w = 0)" "finite (granted s)"
    using wf by (auto simp: sem_wf_def)
  have g: "granted s1 = granted s" "sem_count s1 = 0" "acquired r = 0"
    using d s' w z by (auto simp: down_loop_def granted_def split: if_splits)
  have rem: "set (remove1 t (wait_list s')) = set (wait_list s) - {t}" "distinct (wait_list s')" "set (wait_list s') = insert t (set (wait_list s))"
    using l wl(1) by (auto simp: remove1_append)
  have "sem_wf s1"
    using d wl s' w(1) z rem g(1) by (auto simp: down_loop_def sem_wf_def split: if_splits)
  then show ?thesis using g z by (simp add: sem_moves_def)
qed

lemma down_common_moves:
  assumes "sem_wf s" and "waiters s t = None" and "sem_count s = 0" and "u_down_common t state timeout sig s = (s', r)"
  shows "sem_moves s s' (acquired r) 0"
proof -
  have "t \<notin> set (wait_list s)" using assms(1,2) by (simp add: sem_wf_def)
  then show ?thesis
    using down_loop_moves [OF assms(1), of "\<lparr>w_up = 0, w_state = state, w_timeout = timeout\<rparr>" t "s\<lparr>wait_list := wait_list s @ [t]\<rparr>" sig s' r]
      assms(2-4) by (simp add: u_down_common_def)
qed

lemmas down_defs = down_def down_interruptible_def down_killable_def down_timeout_def
  u_down_def u_down_interruptible_def u_down_killable_def u_down_timeout_def

lemma down_moves:
  assumes "sem_wf s" and "waiters s t = None"
  shows "down t sig s = (s', r) \<Longrightarrow> sem_moves s s' (acquired r) 0"
    and "down_interruptible t sig s = (s', r) \<Longrightarrow> sem_moves s s' (acquired r) 0"
    and "down_killable t sig s = (s', r) \<Longrightarrow> sem_moves s s' (acquired r) 0"
    and "down_timeout t jiffies sig s = (s', r) \<Longrightarrow> sem_moves s s' (acquired r) 0"
  using down_common_moves [OF assms] take_token_moves [OF assms(1)]
  by (auto simp: down_defs word_greater_zero_iff split: if_splits)

lemma down_resume_moves:
  assumes "sem_wf s" and "waiters s t = Some w" and "down_resume t w timeout sig s = (s', r)"
  shows "sem_moves s s' (acquired r) 0"
proof (cases "w_up w = 0")
  case True
  have "t \<in> set (wait_list s)" using assms(1,2) True by (simp add: sem_wf_def)
  moreover from this have "sem_count s = 0" using assms(1) by (auto simp: sem_wf_def)
  ultimately show ?thesis
    using down_loop_moves [OF assms(1), of "w\<lparr>w_timeout := timeout\<rparr>" t s sig s' r] assms(2,3) True by (simp add: down_resume_def)
next
  case False
  then have t: "t \<in> granted s" "t \<notin> set (wait_list s)" "finite (granted s)" using assms(1,2) by (auto simp: granted_def sem_wf_def)
  have s': "s' = s\<lparr>waiters := (waiters s)(t := None)\<rparr>" "r = Returns (Ok ())" using False assms(3) by (auto simp: down_resume_def)
  have "card (granted s) = Suc (card (granted s - {t}))" using t by (metis card_Suc_Diff1)
  moreover have "sem_wf s'" using assms(1) t s' granted_None [of s t] by (auto simp: sem_wf_def)
  ultimately show ?thesis using s' granted_None [of s t] by (simp add: sem_moves_def)
qed

lemma trylock_moves:
  assumes "sem_wf s" and "down_trylock s = (s', r)"
  shows "sem_moves s s' (if r = 0 then 1 else 0) 0"
proof (cases "0 \<le> sint (sem_count s - 1)")
  case True
  then have "sem_count s \<noteq> 0" by auto
  then show ?thesis using True assms take_token_moves [OF assms(1)] by (auto simp: down_trylock_def Let_def)
next
  case False
  then show ?thesis using assms by (auto simp: down_trylock_def Let_def sem_moves_def)
qed

lemma up_moves:
  assumes "sem_wf s"
  shows "sem_moves s (up s) 0 1"
proof (cases "wait_list s")
  case Nil
  then show ?thesis using assms by (auto simp: up_def sem_moves_def sem_wf_def)
next
  case (Cons t ts)
  have wl: "distinct (t # ts)" "\<And>v. v \<in> set (t # ts) \<longleftrightarrow> (\<exists>w. waiters s v = Some w \<and> w_up w = 0)" "sem_count s = 0" "finite (granted s)"
    using assms Cons by (auto simp: sem_wf_def)
  obtain w where w: "waiters s t = Some w" "w_up w = 0" using wl(2) [of t] by auto
  have s': "up s = s\<lparr>wait_list := ts, waiters := (waiters s)(t \<mapsto> w\<lparr>w_up := 1\<rparr>)\<rparr>" using Cons w by (simp add: up_def u_up_def)
  have g: "granted (up s) = insert t (granted s)" "t \<notin> granted s" using w by (auto simp: s' granted_def)
  have "v \<in> set ts \<longleftrightarrow> (\<exists>w. waiters (up s) v = Some w \<and> w_up w = 0)" for v
    using wl(1) wl(2) [of v] by (cases "v = t") (simp_all add: s')
  then have "sem_wf (up s)" using wl g by (auto simp: sem_wf_def s')
  then show ?thesis using g wl(4) by (simp add: sem_moves_def s')
qed

interpretation sem: invariant_machine "sem_start n" sem_step "sem_inv n" for n
proof
  show "sem_inv n r" if "sem_start n r" for r
    using that by (auto simp: sem_start_def sem_inv_def sem_wf_def sema_init_def granted_def)
  show "sem_inv n r'" if "sem_inv n r" "sem_step r r'" for r r'
    using that(2,1)
  proof induction
    case (step_up s a u)
    then show ?case using sem_moves_inv [OF up_moves, of s n a u] by (simp add: sem_inv_def)
  qed (blast intro: sem_moves_inv_0 down_moves down_resume_moves trylock_moves dest: sem_inv_wf)+
qed

text \<open>A run: a semaphore of one token is taken by task 1, then task 2 has to sleep.\<close>

definition sem_wit :: semaphore where
  "sem_wit = \<lparr>sem_count = 0, wait_list = [2], waiters = [2 \<mapsto> \<lparr>w_up = 0, w_state = TASK_INTERRUPTIBLE, w_timeout = MAX_SCHEDULE_TIMEOUT\<rparr>]\<rparr>"

lemma sem_wit_reach: "reach (sem_start 1) sem_step (sem_wit, 1, 0)"
proof -
  let ?q = "\<lparr>pending = False, fatal = False\<rparr>"
  let ?s = "\<lparr>sem_count = 0, wait_list = [], waiters = Map.empty\<rparr>"
  have "reach (sem_start 1) sem_step (sema_init 1, 0, 0)" by (rule reach_init) (simp add: sem_start_def)
  moreover have "sem_step (sema_init 1, 0, 0) (?s, 0 + acquired (Returns (Ok ())), 0)"
    by (rule step_down [where t = 1 and sig = ?q]) (simp_all add: sema_init_def down_def)
  ultimately have "reach (sem_start 1) sem_step (?s, 1, 0)" by (simp add: reach_step)
  moreover have "sem_step (?s, 1, 0) (sem_wit, 1 + acquired Sleeps, 0)"
    by (rule step_interruptible [where t = 2 and sig = ?q])
      (simp_all add: down_defs u_down_common_def down_loop_def signal_pending_state_def sem_wit_def MAX_SCHEDULE_TIMEOUT_def)
  ultimately show ?thesis by (simp add: reach_step)
qed

section \<open>Properties\<close>

text \<open>
  C20: in every reachable state the tokens balance, \<open>count\<close> and the acquisitions (returned or handed to a
  task that has not run yet) make up the initial value and the calls of \<open>up\<close>, modulo the width of
  \<open>count\<close>; the waiting list has each task once, exactly those that sleep without having been given the
  semaphore; and no task waits while \<open>count\<close> is positive.
\<close>

theorem semaphore_tokens:
  assumes "reach (sem_start n) sem_step (s, a, u)"
  shows "sem_count s + of_nat (a + card (granted s)) = n + of_nat u \<and> distinct (wait_list s)
    \<and> (t \<in> set (wait_list s) \<longleftrightarrow> waiters s t \<noteq> None \<and> t \<notin> granted s)
    \<and> (0 < sem_count s \<longrightarrow> wait_list s = [])"
proof -
  have "sem_inv n (s, a, u)" by (rule sem.reach_inv [OF assms])
  then show ?thesis by (auto simp: sem_inv_def sem_wf_def granted_def)
qed

theorem semaphore_tokens_witness:
  "sem_count sem_wit + of_nat (1 + card (granted sem_wit)) = 1 \<and> 2 \<in> set (wait_list sem_wit) \<and> 2 \<notin> granted sem_wit"
proof -
  have "2 \<in> set (wait_list sem_wit)" by (simp add: sem_wit_def)
  then show ?thesis using semaphore_tokens [OF sem_wit_reach, of 2] by simp
qed

text \<open>
  \<open>up\<close> with waiters hands the semaphore to the first of them, whose call then succeeds whatever
  signals and timeout it meets when it runs again, and takes nothing from the count.
\<close>

theorem semaphore_up_fifo:
  assumes "reach (sem_start n) sem_step (s, a, u)" and "wait_list s = t # ts"
  shows "wait_list (up s) = ts \<and> sem_count (up s) = sem_count s
    \<and> (\<exists>w. waiters (up s) t = Some w \<and> (\<forall>timeout sig. snd (down_resume t w timeout sig (up s)) = Returns (Ok ())))"
proof -
  have "sem_inv n (s, a, u)" by (rule sem.reach_inv [OF assms(1)])
  then obtain w where "waiters s t = Some w" using assms(2) by (auto simp: sem_inv_def sem_wf_def)
  then show ?thesis using assms(2) by (simp add: up_def u_up_def down_resume_def)
qed

theorem semaphore_up_fifo_witness:
  "wait_list (up sem_wit) = [] \<and> (\<exists>w. waiters (up sem_wit) 2 = Some w
     \<and> snd (down_resume 2 w 0 \<lparr>pending = True, fatal = True\<rparr> (up sem_wit)) = Returns (Ok ()))"
proof -
  have "wait_list sem_wit = [2]" by (simp add: sem_wit_def)
  then show ?thesis using semaphore_up_fifo [OF sem_wit_reach, of 2 "[]"] by blast
qed

end
