(* ===== verification/Rwsem.thy ===== *)
theory Rwsem
  imports KPrelude
begin

text \<open>
  Reader/writer semaphores, \<open>lib/rwsem-spinlock.c\<close> with the interface of \<open>kernel/rwsem.c\<close>. Each
  operation runs under the spinlock and is one step; it gives the tasks it wakes, those whose waiter it
  takes off the list and whose \<open>waiter->task\<close> it clears. A task that was not granted the lock
  sleeps until it finds that field cleared.
\<close>

section \<open>State\<close>

definition RWSEM_WAITING_FOR_READ :: u32 where "RWSEM_WAITING_FOR_READ = 1"
definition RWSEM_WAITING_FOR_WRITE :: u32 where "RWSEM_WAITING_FOR_WRITE = 2"

record rwsem_waiter =
  rw_task :: nat
  rw_flags :: u32

text \<open>\<open>activity\<close> is a signed number: -1 for a writer, otherwise the number of readers.\<close>

record rw_semaphore =
  activity :: u32
  rw_wait_list :: "rwsem_waiter list"

section \<open>Operations\<close>

definition u_init_rwsem :: rw_semaphore where
  "u_init_rwsem = \<lparr>activity = 0, rw_wait_list = []\<rparr>"

text \<open>The loop that grants read locks: the tasks it wakes and what is left of the list.\<close>

fun wake_readers :: "rwsem_waiter list \<Rightarrow> nat list \<times> rwsem_waiter list" where
  "wake_readers [] = ([], [])"
| "wake_readers (w # ws) =
     (if rw_flags w AND RWSEM_WAITING_FOR_READ \<noteq> 0
      then (let (ts, rest) = wake_readers ws in (rw_task w # ts, rest))
      else ([], w # ws))"

definition u_rwsem_do_wake :: "rw_semaphore \<Rightarrow> bool \<Rightarrow> rw_semaphore \<times> nat list" where
  "u_rwsem_do_wake sem wakewrite =
     (let w = hd (rw_wait_list sem)
      in if rw_flags w AND RWSEM_WAITING_FOR_WRITE \<noteq> 0
         then if wakewrite
              then (sem\<lparr>activity := - 1, rw_wait_list := tl (rw_wait_list sem)\<rparr>, [rw_task w])
              else (sem, [])
         else let (ts, rest) = wake_readers (rw_wait_list sem)
              in (sem\<lparr>activity := activity sem + of_nat (length ts), rw_wait_list := rest\<rparr>, ts))"

definition u_rwsem_wake_one_writer :: "rw_semaphore \<Rightarrow> rw_semaphore \<times> nat list" where
  "u_rwsem_wake_one_writer sem =
     (sem\<lparr>activity := - 1, rw_wait_list := tl (rw_wait_list sem)\<rparr>, [rw_task (hd (rw_wait_list sem))])"

text \<open>\<open>True\<close> when the lock is granted at once; otherwise the task's waiter is on the list.\<close>

definition u_down_read :: "nat \<Rightarrow> rw_semaphore \<Rightarrow> rw_semaphore \<times> bool" where
  "u_down_read t sem =
     (if sint (activity sem) \<ge> 0 \<and> rw_wait_list sem = [] then (sem\<lparr>activity := activity sem + 1\<rparr>, True)
      else (sem\<lparr>rw_wait_list := rw_wait_list sem @ [\<lparr>rw_task = t, rw_flags = RWSEM_WAITING_FOR_READ\<rparr>]\<rparr>, False))"

definition u_down_read_trylock :: "rw_semaphore \<Rightarrow> rw_semaphore \<times> u32" where
  "u_down_read_trylock sem =
     (if sint (activity sem) \<ge> 0 \<and> rw_wait_list sem = [] then (sem\<lparr>activity := activity sem + 1\<rparr>, 1) else (sem, 0))"

definition u_down_write_nested :: "nat \<Rightarrow> rw_semaphore \<Rightarrow> rw_semaphore \<times> bool" where
  "u_down_write_nested t sem =
     (if activity sem = 0 \<and> rw_wait_list sem = [] then (sem\<lparr>activity := - 1\<rparr>, True)
      else (sem\<lparr>rw_wait_list := rw_wait_list sem @ [\<lparr>rw_task = t, rw_flags = RWSEM_WAITING_FOR_WRITE\<rparr>]\<rparr>, False))"

definition u_down_write :: "nat \<Rightarrow> rw_semaphore \<Rightarrow> rw_semaphore \<times> bool" where
  "u_down_write t sem = u_down_write_nested t sem"

definition u_down_write_trylock :: "rw_semaphore \<Rightarrow> rw_semaphore \<times> u32" where
  "u_down_write_trylock sem =
     (if activity sem = 0 \<and> rw_wait_list sem = [] then (sem\<lparr>activity := - 1\<rparr>, 1) else (sem, 0))"

definition u_up_read :: "rw_semaphore \<Rightarrow> rw_semaphore \<times> nat list" where
  "u_up_read sem =
     (let sem = sem\<lparr>activity := activity sem - 1\<rparr>
      in if activity sem = 0 \<and> rw_wait_list sem \<noteq> [] then u_rwsem_wake_one_writer sem else (sem, []))"

definition u_up_write :: "rw_semaphore \<Rightarrow> rw_semaphore \<times> nat list" where
  "u_up_write sem =
     (let sem = sem\<lparr>activity := 0\<rparr>
      in if rw_wait_list sem \<noteq> [] then u_rwsem_do_wake sem True else (sem, []))"

definition u_downgrade_write :: "rw_semaphore \<Rightarrow> rw_semaphore \<times> nat list" where
  "u_downgrade_write sem =
     (let sem = sem\<lparr>activity := 1\<rparr>
      in if rw_wait_list sem \<noteq> [] then u_rwsem_do_wake sem False else (sem, []))"

text \<open>The interface; without lock statistics \<open>LOCK_CONTENDED\<close> is the plain call.\<close>

definition down_read :: "nat \<Rightarrow> rw_semaphore \<Rightarrow> rw_semaphore \<times> bool" where
  "down_read t sem = u_down_read t sem"

definition down_read_trylock :: "rw_semaphore \<Rightarrow> rw_semaphore \<times> u32" where
  "down_read_trylock sem = u_down_read_trylock sem"

definition down_write :: "nat \<Rightarrow> rw_semaphore \<Rightarrow> rw_semaphore \<times> bool" where
  "down_write t sem = u_down_write t sem"

definition down_write_trylock :: "rw_semaphore \<Rightarrow> rw_semaphore \<times> u32" where
  "down_write_trylock sem = u_down_write_trylock sem"

definition up_read :: "rw_semaphore \<Rightarrow> rw_semaphore \<times> nat list" where
  "up_read sem = u_up_read sem"

definition up_write :: "rw_semaphore \<Rightarrow> rw_semaphore \<times> nat list" where
  "up_write sem = u_up_write sem"

definition downgrade_write :: "rw_semaphore \<Rightarrow> rw_semaphore \<times> nat list" where
  "downgrade_write sem = u_downgrade_write sem"

section \<open>Steps of the tasks\<close>

text \<open>
  Where a task is: a woken task owns the lock and has not run since. There are fewer tasks than
  \<open>PID_MAX_LIMIT\<close>, so the number of readers fits \<open>activity\<close>.
\<close>

datatype rw_place = Idle | Waits_read | Waits_write | Woken_read | Woken_write | Reads | Writes

definition PID_MAX_LIMIT :: nat where "PID_MAX_LIMIT = 0x8000"

fun woken :: "rw_place \<Rightarrow> rw_place" where
  "woken Waits_read = Woken_read"
| "woken Waits_write = Woken_write"
| "woken p = p"

definition wake_up_processes :: "nat list \<Rightarrow> (nat \<Rightarrow> rw_place) \<Rightarrow> nat \<Rightarrow> rw_place" where
  "wake_up_processes ts pc = (\<lambda>t. if t \<in> set ts then woken (pc t) else pc t)"

text \<open>The waiting loop of \<open>__down_read\<close> and \<open>__down_write_nested\<close> when the task runs.\<close>

fun wait_loop :: "rw_place \<Rightarrow> rw_place" where
  "wait_loop Woken_read = Reads"
| "wait_loop Woken_write = Writes"
| "wait_loop p = p"

type_synonym rw_run = "rw_semaphore \<times> (nat \<Rightarrow> rw_place)"

inductive rw_step :: "rw_run \<Rightarrow> rw_run \<Rightarrow> bool" where
  rw_down_read: "pc t = Idle \<Longrightarrow> t < PID_MAX_LIMIT \<Longrightarrow> down_read t sem = (sem', ok)
     \<Longrightarrow> rw_step (sem, pc) (sem', pc(t := if ok then Reads else Waits_read))"
| rw_down_read_trylock: "pc t = Idle \<Longrightarrow> t < PID_MAX_LIMIT \<Longrightarrow> down_read_trylock sem = (sem', ret)
     \<Longrightarrow> rw_step (sem, pc) (sem', pc(t := if ret \<noteq> 0 then Reads else Idle))"
| rw_down_write: "pc t = Idle \<Longrightarrow> t < PID_MAX_LIMIT \<Longrightarrow> down_write t sem = (sem', ok)
     \<Longrightarrow> rw_step (sem, pc) (sem', pc(t := if ok then Writes else Waits_write))"
| rw_down_write_trylock: "pc t = Idle \<Longrightarrow> t < PID_MAX_LIMIT \<Longrightarrow> down_write_trylock sem = (sem', ret)
     \<Longrightarrow> rw_step (sem, pc) (sem', pc(t := if ret \<noteq> 0 then Writes else Idle))"
| rw_up_read: "pc t = Reads \<Longrightarrow> up_read sem = (sem', ts)
     \<Longrightarrow> rw_step (sem, pc) (sem', wake_up_processes ts (pc(t := Idle)))"
| rw_up_write: "pc t = Writes \<Longrightarrow> up_write sem = (sem', ts)
     \<Longrightarrow> rw_step (sem, pc) (sem', wake_up_processes ts (pc(t := Idle)))"
| rw_downgrade: "pc t = Writes \<Longrightarrow> downgrade_write sem = (sem', ts)
     \<Longrightarrow> rw_step (sem, pc) (sem', wake_up_processes ts (pc(t := Reads)))"
| rw_run: "rw_step (sem, pc) (sem, pc(t := wait_loop (pc t)))"

definition rw_start :: "rw_run \<Rightarrow> bool" where
  "rw_start r \<longleftrightarrow> r = (u_init_rwsem, \<lambda>_. Idle)"

section \<open>The invariant\<close>

definition readers :: "(nat \<Rightarrow> rw_place) \<Rightarrow> nat set" where
  "readers pc = {t. pc t \<in> {Woken_read, Reads}}"

definition writers :: "(nat \<Rightarrow> rw_place) \<Rightarrow> nat set" where
  "writers pc = {t. pc t \<in> {Woken_write, Writes}}"

fun waiter_ok :: "(nat \<Rightarrow> rw_place) \<Rightarrow> rwsem_waiter \<Rightarrow> bool" where
  "waiter_ok pc w \<longleftrightarrow> rw_flags w = 1 \<and> pc (rw_task w) = Waits_read \<or> rw_flags w = 2 \<and> pc (rw_task w) = Waits_write"

definition queue_ok :: "rwsem_waiter list \<Rightarrow> (nat \<Rightarrow> rw_place) \<Rightarrow> bool" where
  "queue_ok ws pc \<longleftrightarrow> distinct (map rw_task ws) \<and> (\<forall>w \<in> set ws. waiter_ok pc w)
     \<and> (\<forall>t. pc t \<in> {Waits_read, Waits_write} \<longrightarrow> t \<in> rw_task ` set ws) \<and> (\<forall>t. pc t \<noteq> Idle \<longrightarrow> t < PID_MAX_LIMIT)"

text \<open>Who owns the lock, against \<open>activity\<close>; behind readers a writer is first in the queue.\<close>

definition owner_ok :: "u32 \<Rightarrow> rwsem_waiter list \<Rightarrow> nat set \<Rightarrow> nat set \<Rightarrow> bool" where
  "owner_ok act ws R W \<longleftrightarrow>
     W = {} \<and> act = of_nat (card R) \<and> (ws \<noteq> [] \<longrightarrow> R \<noteq> {} \<and> rw_flags (hd ws) = 2)
     \<or> act = - 1 \<and> R = {} \<and> (\<exists>t. W = {t})"

definition rw_inv :: "rw_run \<Rightarrow> bool" where
  "rw_inv = (\<lambda>(sem, pc). queue_ok (rw_wait_list sem) pc
     \<and> owner_ok (activity sem) (rw_wait_list sem) (readers pc) (writers pc))"

lemma readers_bound: "queue_ok ws pc \<Longrightarrow> finite (readers pc) \<and> card (readers pc) \<le> PID_MAX_LIMIT"
proof -
  assume "queue_ok ws pc"
  then have "readers pc \<subseteq> {..<PID_MAX_LIMIT}" by (auto simp: queue_ok_def readers_def)
  then show ?thesis using card_mono [of "{..<PID_MAX_LIMIT}" "readers pc"] finite_subset by auto
qed

lemma act_small:
  assumes "n \<le> PID_MAX_LIMIT"
  shows "sint (of_nat n :: u32) \<ge> 0" and "(of_nat n :: u32) = 0 \<longleftrightarrow> n = 0" and "(of_nat n :: u32) \<noteq> - 1"
proof -
  have n: "int n < 2 ^ 31" using assms by (simp add: PID_MAX_LIMIT_def)
  have s: "sint (of_nat n :: u32) = int n"
    using signed_take_bit_int_eq_self [of 31 "int n"] n by (simp add: signed_of_nat)
  then show "sint (of_nat n :: u32) \<ge> 0" by simp
  show "(of_nat n :: u32) = 0 \<longleftrightarrow> n = 0"
  proof
    assume "(of_nat n :: u32) = 0"
    then show "n = 0" using s by simp
  qed simp
  show "(of_nat n :: u32) \<noteq> - 1"
  proof
    assume "(of_nat n :: u32) = - 1"
    then show False using s by simp
  qed
qed

lemma wake_readers_eq:
  "wake_readers ws = (map rw_task (takeWhile (\<lambda>w. rw_flags w AND RWSEM_WAITING_FOR_READ \<noteq> 0) ws),
     dropWhile (\<lambda>w. rw_flags w AND RWSEM_WAITING_FOR_READ \<noteq> 0) ws)"
  by (induction ws) auto

lemma read_flag: "rw_flags w = 1 \<or> rw_flags w = 2 \<Longrightarrow> rw_flags w AND RWSEM_WAITING_FOR_READ \<noteq> 0 \<longleftrightarrow> rw_flags w = 1"
  "rw_flags w = 1 \<or> rw_flags w = 2 \<Longrightarrow> rw_flags w AND RWSEM_WAITING_FOR_WRITE \<noteq> 0 \<longleftrightarrow> rw_flags w = 2"
  by (auto simp: RWSEM_WAITING_FOR_READ_def RWSEM_WAITING_FOR_WRITE_def)

lemma waiter_flags: "queue_ok ws pc \<Longrightarrow> w \<in> set ws \<Longrightarrow> rw_flags w = 1 \<or> rw_flags w = 2"
  by (auto simp: queue_ok_def)

text \<open>Taking tasks off the queue and waking them, and putting one on it.\<close>

lemma queue_wake:
  assumes "queue_ok (us @ ws) pc" and "ts = map rw_task us"
  shows "queue_ok ws (wake_up_processes ts pc)"
proof -
  have d: "distinct (map rw_task us)" "distinct (map rw_task ws)" "\<And>t. t \<in> rw_task ` set us \<Longrightarrow> t \<notin> rw_task ` set ws"
    using assms(1) by (auto simp: queue_ok_def)
  have w: "waiter_ok pc w" if "w \<in> set us \<union> set ws" for w using assms(1) that by (auto simp: queue_ok_def)
  have "waiter_ok (wake_up_processes ts pc) w" if "w \<in> set ws" for w
    using w [of w] d(3) that assms(2) by (auto simp: wake_up_processes_def)
  moreover have "t \<in> rw_task ` set ws" if "wake_up_processes ts pc t \<in> {Waits_read, Waits_write}" for t
  proof -
    have "t \<notin> set ts" using that by (cases "pc t") (auto simp: wake_up_processes_def)
    then show ?thesis using that assms by (auto simp: wake_up_processes_def queue_ok_def)
  qed
  moreover have "t < PID_MAX_LIMIT" if "wake_up_processes ts pc t \<noteq> Idle" for t
    using that assms(1) by (cases "pc t") (auto simp: wake_up_processes_def queue_ok_def split: if_splits)
  ultimately show ?thesis using d(2) by (simp add: queue_ok_def)
qed

lemma queue_move:
  assumes "queue_ok ws pc" and "p \<notin> {Waits_read, Waits_write}" and "pc t \<notin> {Waits_read, Waits_write}" and "p = Idle \<or> t < PID_MAX_LIMIT"
  shows "queue_ok ws (pc(t := p))"
proof -
  have "rw_task w \<noteq> t" if "w \<in> set ws" for w using assms(1,3) that by (auto simp: queue_ok_def)
  then show ?thesis using assms by (auto simp: queue_ok_def)
qed

lemma queue_enter:
  assumes "queue_ok ws pc" and "pc t = Idle" and "t < PID_MAX_LIMIT" and "p = Waits_read \<and> f = 1 \<or> p = Waits_write \<and> f = 2"
  shows "queue_ok (ws @ [\<lparr>rw_task = t, rw_flags = f\<rparr>]) (pc(t := p))"
proof -
  have "rw_task w \<noteq> t" if "w \<in> set ws" for w using assms(1,2) that by (auto simp: queue_ok_def)
  then show ?thesis using assms by (auto simp: queue_ok_def)
qed

lemma wake_none [simp]: "wake_up_processes [] pc = pc"
  by (simp add: wake_up_processes_def)

text \<open>Who owns the lock after a move.\<close>

lemma readers_upd: "readers (pc(t := p)) = (if p \<in> {Woken_read, Reads} then insert t (readers pc) else readers pc - {t})"
  by (auto simp: readers_def)

lemma writers_upd: "writers (pc(t := p)) = (if p \<in> {Woken_write, Writes} then insert t (writers pc) else writers pc - {t})"
  by (auto simp: writers_def)

lemma readers_wake:
  "(\<And>t. t \<in> set ts \<Longrightarrow> pc t = Waits_read) \<Longrightarrow> readers (wake_up_processes ts pc) = readers pc \<union> set ts \<and> writers (wake_up_processes ts pc) = writers pc"
  by (force simp: readers_def writers_def wake_up_processes_def)

lemma writers_wake:
  "pc t = Waits_write \<Longrightarrow> readers (wake_up_processes [t] pc) = readers pc \<and> writers (wake_up_processes [t] pc) = insert t (writers pc)"
  by (auto simp: readers_def writers_def wake_up_processes_def)

lemma wake_readers_inv:
  assumes q: "queue_ok ws pc" and W: "writers pc = {}" and act: "act = of_nat (card (readers pc))"
    and wk: "wake_readers ws = (ts, rest)" and h: "readers pc \<noteq> {} \<or> ws \<noteq> [] \<and> rw_flags (hd ws) = 1"
  shows "queue_ok rest (wake_up_processes ts pc)
    \<and> owner_ok (act + of_nat (length ts)) rest (readers (wake_up_processes ts pc)) (writers (wake_up_processes ts pc))"
proof -
  let ?P = "\<lambda>w. rw_flags w AND RWSEM_WAITING_FOR_READ \<noteq> 0"
  let ?us = "takeWhile ?P ws"
  have ts: "ts = map rw_task ?us" "rest = dropWhile ?P ws" using wk by (auto simp: wake_readers_eq)
  have q': "queue_ok (?us @ rest) pc" using q by (simp add: ts(2))
  have rd: "pc t = Waits_read" if tt: "t \<in> set ts" for t
  proof -
    obtain w where w: "w \<in> set ?us" "t = rw_task w" using tt ts(1) by auto
    then have "w \<in> set ws" "?P w" by (auto dest: set_takeWhileD)
    then have "waiter_ok pc w" "rw_flags w = 1" using q read_flag(1) [OF waiter_flags [OF q]] by (auto simp: queue_ok_def)
    then show ?thesis using w by auto
  qed
  have "distinct ts" "set ts \<inter> readers pc = {}" using q' ts(1) rd by (auto simp: queue_ok_def readers_def)
  then have c: "card (readers pc \<union> set ts) = card (readers pc) + length ts"
    using readers_bound [OF q] by (simp add: card_Un_disjoint distinct_card Int_commute)
  have "rw_flags (hd rest) = 2" if "rest \<noteq> []"
  proof -
    have "\<not> ?P (hd rest)" "hd rest \<in> set ws" using that ts(2) hd_dropWhile [of ?P ws] set_dropWhileD [of "hd rest" ?P ws] hd_in_set [of rest] by auto
    then show ?thesis using read_flag(1) [OF waiter_flags [OF q]] waiter_flags [OF q] by blast
  qed
  moreover have "readers pc \<union> set ts \<noteq> {}"
    using h read_flag(1) [of "hd ws"] by (cases ws) (auto simp: ts(1))
  ultimately show ?thesis using queue_wake [OF q' ts(1)] readers_wake [of ts pc] rd W act c by (simp add: owner_ok_def)
qed

lemma do_wake_inv:
  assumes q: "queue_ok (rw_wait_list sem) pc" and ne: "rw_wait_list sem \<noteq> []" and W: "writers pc = {}"
    and act: "activity sem = of_nat (card (readers pc))" and ww: "wakewrite \<longleftrightarrow> readers pc = {}"
    and d: "u_rwsem_do_wake sem wakewrite = (sem', ts)"
  shows "rw_inv (sem', wake_up_processes ts pc)"
proof -
  obtain w ws where ws: "rw_wait_list sem = w # ws" using ne by (cases "rw_wait_list sem") auto
  have fl: "rw_flags w = 1 \<or> rw_flags w = 2" using waiter_flags [OF q, of w] ws by simp
  show ?thesis
  proof (cases "rw_flags w = 2")
    case True
    have pw: "pc (rw_task w) = Waits_write" using q ws True by (auto simp: queue_ok_def)
    have q1: "queue_ok ws (wake_up_processes [rw_task w] pc)" using queue_wake [of "[w]" ws pc] q ws by simp
    show ?thesis
    proof (cases wakewrite)
      case True
      then have "sem' = sem\<lparr>activity := - 1, rw_wait_list := ws\<rparr>" "ts = [rw_task w]"
        using d ws \<open>rw_flags w = 2\<close> read_flag(2) [OF fl] by (auto simp: u_rwsem_do_wake_def Let_def)
      then show ?thesis using q1 writers_wake [of pc "rw_task w"] pw W ww True by (simp add: rw_inv_def owner_ok_def)
    next
      case False
      then have "sem' = sem" "ts = []" using d ws \<open>rw_flags w = 2\<close> read_flag(2) [OF fl] by (auto simp: u_rwsem_do_wake_def Let_def)
      then show ?thesis using q ws W act ww False \<open>rw_flags w = 2\<close> by (simp add: rw_inv_def owner_ok_def)
    qed
  next
    case False
    obtain rest where wk: "wake_readers (rw_wait_list sem) = (ts, rest)"
      "sem' = sem\<lparr>activity := activity sem + of_nat (length ts), rw_wait_list := rest\<rparr>"
      using d ws False fl read_flag(2) [OF fl] by (auto simp: u_rwsem_do_wake_def Let_def simp del: wake_readers.simps split: prod.splits)
    show ?thesis using wake_readers_inv [OF q W act wk(1)] ws False fl by (simp add: rw_inv_def wk(2))
  qed
qed

lemma up_read_inv:
  assumes inv: "rw_inv (sem, pc)" and t: "pc t = Reads" and d: "up_read sem = (sem', ts)"
  shows "rw_inv (sem', wake_up_processes ts (pc(t := Idle)))"
proof -
  let ?pc = "pc(t := Idle)"
  have q: "queue_ok (rw_wait_list sem) pc" and o: "owner_ok (activity sem) (rw_wait_list sem) (readers pc) (writers pc)"
    using inv by (auto simp: rw_inv_def)
  have tR: "t \<in> readers pc" using t by (simp add: readers_def)
  then have W: "writers pc = {}" "activity sem = of_nat (card (readers pc))" "rw_wait_list sem \<noteq> [] \<longrightarrow> rw_flags (hd (rw_wait_list sem)) = 2"
    using o by (auto simp: owner_ok_def)
  have q': "queue_ok (rw_wait_list sem) ?pc" by (rule queue_move [OF q]) (simp_all add: t)
  have R': "readers ?pc = readers pc - {t}" "writers ?pc = {}" using W(1) by (auto simp: readers_upd writers_upd)
  have c: "card (readers pc) = Suc (card (readers ?pc))" using tR readers_bound [OF q] R'(1) by (metis card_Suc_Diff1)
  then have a: "activity sem - 1 = of_nat (card (readers ?pc))" using W(2) by simp
  then have z: "activity sem - 1 = 0 \<longleftrightarrow> readers ?pc = {}" using act_small(2) readers_bound [OF q'] by (simp only: card_eq_0_iff) blast
  show ?thesis
  proof (cases "readers ?pc = {} \<and> rw_wait_list sem \<noteq> []")
    case True
    then obtain w ws where ws: "rw_wait_list sem = w # ws" by (cases "rw_wait_list sem") auto
    have e: "sem' = sem\<lparr>activity := - 1, rw_wait_list := ws\<rparr>" "ts = [rw_task w]"
      using d z True ws by (auto simp: up_read_def u_up_read_def Let_def u_rwsem_wake_one_writer_def)
    have pw: "?pc (rw_task w) = Waits_write" using q' ws W(3) by (auto simp: queue_ok_def simp del: fun_upd_apply)
    have "queue_ok ws (wake_up_processes [rw_task w] ?pc)" using queue_wake [of "[w]" ws ?pc] q' ws by simp
    then show ?thesis using writers_wake [of ?pc "rw_task w"] pw R'(2) True by (simp add: rw_inv_def owner_ok_def e del: fun_upd_apply)
  next
    case False
    have e: "sem' = sem\<lparr>activity := activity sem - 1\<rparr>" "ts = []"
      using d z False by (auto simp: up_read_def u_up_read_def Let_def split: if_splits)
    then show ?thesis using q' R'(2) a W(3) False by (auto simp: rw_inv_def owner_ok_def simp del: fun_upd_apply)
  qed
qed

lemma writer_owns:
  assumes "rw_inv (sem, pc)" and "pc t = Writes"
  shows "queue_ok (rw_wait_list sem) pc" and "writers pc = {t}" and "readers pc = {}" and "t < PID_MAX_LIMIT"
proof -
  have "t \<in> writers pc" using assms(2) by (simp add: writers_def)
  then show "writers pc = {t}" "readers pc = {}" using assms(1) by (auto simp: rw_inv_def owner_ok_def)
  show "queue_ok (rw_wait_list sem) pc" "t < PID_MAX_LIMIT" using assms by (auto simp: rw_inv_def queue_ok_def)
qed

lemma up_write_inv:
  assumes inv: "rw_inv (sem, pc)" and t: "pc t = Writes" and d: "up_write sem = (sem', ts)"
  shows "rw_inv (sem', wake_up_processes ts (pc(t := Idle)))"
proof -
  let ?pc = "pc(t := Idle)" and ?sem = "sem\<lparr>activity := 0\<rparr>"
  note own = writer_owns [OF inv t]
  have q: "queue_ok (rw_wait_list ?sem) ?pc" using queue_move [OF own(1), of Idle t] t by simp
  have R: "readers ?pc = {}" "writers ?pc = {}" using own by (auto simp: readers_upd writers_upd)
  show ?thesis
  proof (cases "rw_wait_list sem = []")
    case True
    then show ?thesis using d q R by (auto simp: up_write_def u_up_write_def Let_def rw_inv_def owner_ok_def simp del: fun_upd_apply)
  next
    case False
    then show ?thesis using do_wake_inv [OF q, of True sem' ts] d R by (simp add: up_write_def u_up_write_def Let_def del: fun_upd_apply)
  qed
qed

lemma downgrade_inv:
  assumes inv: "rw_inv (sem, pc)" and t: "pc t = Writes" and d: "downgrade_write sem = (sem', ts)"
  shows "rw_inv (sem', wake_up_processes ts (pc(t := Reads)))"
proof -
  let ?pc = "pc(t := Reads)" and ?sem = "sem\<lparr>activity := 1\<rparr>"
  note own = writer_owns [OF inv t]
  have q: "queue_ok (rw_wait_list ?sem) ?pc" using queue_move [OF own(1), of Reads t] t own(4) by simp
  have R: "readers ?pc = {t}" "writers ?pc = {}" using own by (auto simp: readers_upd writers_upd)
  show ?thesis
  proof (cases "rw_wait_list sem = []")
    case True
    then show ?thesis using d q R by (auto simp: downgrade_write_def u_downgrade_write_def Let_def rw_inv_def owner_ok_def simp del: fun_upd_apply)
  next
    case False
    then show ?thesis using do_wake_inv [OF q, of False sem' ts] d R by (simp add: downgrade_write_def u_downgrade_write_def Let_def del: fun_upd_apply)
  qed
qed

lemma down_read_inv:
  assumes inv: "rw_inv (sem, pc)" and t: "pc t = Idle" "t < PID_MAX_LIMIT" and d: "down_read t sem = (sem', ok)"
  shows "rw_inv (sem', pc(t := if ok then Reads else Waits_read))"
proof -
  have q: "queue_ok (rw_wait_list sem) pc" and o: "owner_ok (activity sem) (rw_wait_list sem) (readers pc) (writers pc)"
    using inv by (auto simp: rw_inv_def)
  have tn: "t \<notin> readers pc" "t \<notin> writers pc" using t(1) by (auto simp: readers_def writers_def)
  show ?thesis
  proof (cases "sint (activity sem) \<ge> 0 \<and> rw_wait_list sem = []")
    case True
    then have W: "writers pc = {}" "activity sem = of_nat (card (readers pc))" using o by (auto simp: owner_ok_def)
    have "queue_ok (rw_wait_list sem) (pc(t := Reads))" by (rule queue_move [OF q]) (simp_all add: t)
    moreover have "activity sem + 1 = of_nat (card (insert t (readers pc)))" using W(2) tn readers_bound [OF q] by simp
    ultimately show ?thesis using d True W
      by (auto simp: down_read_def u_down_read_def rw_inv_def owner_ok_def readers_upd writers_upd simp del: fun_upd_apply)
  next
    case False
    then have "rw_wait_list sem = [] \<Longrightarrow> writers pc \<noteq> {}" using o act_small(1) readers_bound [OF q] by (auto simp: owner_ok_def)
    then have "owner_ok (activity sem) (rw_wait_list sem @ [\<lparr>rw_task = t, rw_flags = 1\<rparr>]) (readers pc) (writers pc)"
      using o by (cases "rw_wait_list sem") (auto simp: owner_ok_def)
    then show ?thesis using d False queue_enter [OF q t, of Waits_read 1] tn
      by (auto simp: down_read_def u_down_read_def rw_inv_def readers_upd writers_upd RWSEM_WAITING_FOR_READ_def simp del: fun_upd_apply)
  qed
qed

lemma down_write_inv:
  assumes inv: "rw_inv (sem, pc)" and t: "pc t = Idle" "t < PID_MAX_LIMIT" and d: "down_write t sem = (sem', ok)"
  shows "rw_inv (sem', pc(t := if ok then Writes else Waits_write))"
proof -
  have q: "queue_ok (rw_wait_list sem) pc" and o: "owner_ok (activity sem) (rw_wait_list sem) (readers pc) (writers pc)"
    using inv by (auto simp: rw_inv_def)
  have tn: "t \<notin> readers pc" "t \<notin> writers pc" using t(1) by (auto simp: readers_def writers_def)
  have z: "(of_nat (card (readers pc)) :: u32) = 0 \<longleftrightarrow> readers pc = {}"
    using act_small(2) [of "card (readers pc)"] readers_bound [OF q] by auto
  show ?thesis
  proof (cases "activity sem = 0 \<and> rw_wait_list sem = []")
    case True
    then have W: "writers pc = {}" "readers pc = {}" using o z by (auto simp: owner_ok_def)
    have "queue_ok (rw_wait_list sem) (pc(t := Writes))" by (rule queue_move [OF q]) (simp_all add: t)
    then show ?thesis using d True W
      by (auto simp: down_write_def u_down_write_def u_down_write_nested_def rw_inv_def owner_ok_def readers_upd writers_upd simp del: fun_upd_apply)
  next
    case False
    then have "owner_ok (activity sem) (rw_wait_list sem @ [\<lparr>rw_task = t, rw_flags = 2\<rparr>]) (readers pc) (writers pc)"
      using o z by (cases "rw_wait_list sem") (auto simp: owner_ok_def)
    then show ?thesis using d False queue_enter [OF q t, of Waits_write 2] tn
      by (auto simp: down_write_def u_down_write_def u_down_write_nested_def rw_inv_def readers_upd writers_upd RWSEM_WAITING_FOR_WRITE_def
          simp del: fun_upd_apply)
  qed
qed

text \<open>A trylock is the fast path of the lock, or does nothing.\<close>

lemma trylock_cases:
  "down_read_trylock sem = (sem', ret) \<Longrightarrow> ret \<noteq> 0 \<and> down_read t sem = (sem', True) \<or> ret = 0 \<and> sem' = sem"
  "down_write_trylock sem = (sem', ret) \<Longrightarrow> ret \<noteq> 0 \<and> down_write t sem = (sem', True) \<or> ret = 0 \<and> sem' = sem"
  by (auto simp: down_read_trylock_def u_down_read_trylock_def down_read_def u_down_read_def
      down_write_trylock_def u_down_write_trylock_def down_write_def u_down_write_def u_down_write_nested_def split: if_splits)

lemma run_inv:
  assumes "rw_inv (sem, pc)"
  shows "rw_inv (sem, pc(t := wait_loop (pc t)))"
proof -
  have q: "queue_ok (rw_wait_list sem) pc" using assms by (simp add: rw_inv_def)
  have R: "readers (pc(t := wait_loop (pc t))) = readers pc" "writers (pc(t := wait_loop (pc t))) = writers pc"
    by (cases "pc t"; auto simp: readers_def writers_def)+
  have "queue_ok (rw_wait_list sem) (pc(t := wait_loop (pc t)))"
  proof (cases "pc t \<in> {Woken_read, Woken_write}")
    case True
    then show ?thesis using q by (intro queue_move) (auto simp: queue_ok_def)
  next
    case False
    then have "pc(t := wait_loop (pc t)) = pc" by (cases "pc t") auto
    then show ?thesis using q by simp
  qed
  then show ?thesis using assms R by (simp add: rw_inv_def)
qed

interpretation rw: invariant_machine rw_start rw_step rw_inv
proof
  show "rw_inv r" if "rw_start r" for r
    using that by (auto simp: rw_start_def rw_inv_def u_init_rwsem_def queue_ok_def owner_ok_def readers_def writers_def)
  show "rw_inv r'" if "rw_inv r" "rw_step r r'" for r r'
    using that(2,1)
  proof induction
    case (rw_down_read_trylock pc t sem sem' ret)
    then show ?case using trylock_cases(1) [of sem sem' ret t] down_read_inv [of sem pc t sem' True] by (auto simp: fun_upd_idem)
  next
    case (rw_down_write_trylock pc t sem sem' ret)
    then show ?case using trylock_cases(2) [of sem sem' ret t] down_write_inv [of sem pc t sem' True] by (auto simp: fun_upd_idem)
  qed (blast intro: down_read_inv down_write_inv up_read_inv up_write_inv downgrade_inv run_inv)+
qed

text \<open>A run: task 1 reads, task 2 has to wait to write and task 3 behind it to read.\<close>

definition rw_wit :: rw_run where
  "rw_wit = (\<lparr>activity = 1, rw_wait_list = [\<lparr>rw_task = 2, rw_flags = 2\<rparr>, \<lparr>rw_task = 3, rw_flags = 1\<rparr>]\<rparr>,
     (\<lambda>_. Idle)(1 := Reads, 2 := Waits_write, 3 := Waits_read))"

lemma rw_wit_reach: "reach rw_start rw_step rw_wit"
proof -
  let ?s1 = "\<lparr>activity = 1, rw_wait_list = []\<rparr>" and ?s2 = "\<lparr>activity = 1, rw_wait_list = [\<lparr>rw_task = 2, rw_flags = 2\<rparr>]\<rparr>"
  have r0: "reach rw_start rw_step (u_init_rwsem, \<lambda>_. Idle)" by (rule reach_init) (simp add: rw_start_def)
  have "rw_step (u_init_rwsem, \<lambda>_. Idle) (?s1, (\<lambda>_. Idle)(1 := if True then Reads else Waits_read))"
    by (rule rw_down_read) (simp_all add: PID_MAX_LIMIT_def down_read_def u_down_read_def u_init_rwsem_def)
  then have r1: "reach rw_start rw_step (?s1, (\<lambda>_. Idle)(1 := Reads))" using reach_step [OF r0] by simp
  have "rw_step (?s1, (\<lambda>_. Idle)(1 := Reads)) (?s2, ((\<lambda>_. Idle)(1 := Reads))(2 := if False then Writes else Waits_write))"
    by (rule rw_down_write)
      (simp_all add: PID_MAX_LIMIT_def down_write_def u_down_write_def u_down_write_nested_def RWSEM_WAITING_FOR_WRITE_def)
  then have r2: "reach rw_start rw_step (?s2, (\<lambda>_. Idle)(1 := Reads, 2 := Waits_write))" using reach_step [OF r1] by simp
  have "rw_step (?s2, (\<lambda>_. Idle)(1 := Reads, 2 := Waits_write)) (fst rw_wit, ((\<lambda>_. Idle)(1 := Reads, 2 := Waits_write))(3 := if False then Reads else Waits_read))"
    by (rule rw_down_read) (simp_all add: PID_MAX_LIMIT_def down_read_def u_down_read_def RWSEM_WAITING_FOR_READ_def rw_wit_def)
  then show ?thesis using reach_step [OF r2] by (simp add: rw_wit_def)
qed

section \<open>Properties\<close>

text \<open>
  C4: in every interleaving a writer that owns the lock, running or just woken, is its only owner, and
  \<open>activity\<close> is -1 exactly then; otherwise \<open>activity\<close> is the number of readers that own it.
\<close>

theorem rwsem_exclusion:
  assumes "reach rw_start rw_step (sem, pc)"
  shows "if activity sem = - 1 then (\<exists>t. writers pc = {t}) \<and> readers pc = {}
    else writers pc = {} \<and> sint (activity sem) = int (card (readers pc))"
proof -
  have "rw_inv (sem, pc)" by (rule rw.reach_inv [OF assms])
  then have q: "queue_ok (rw_wait_list sem) pc" and o: "owner_ok (activity sem) (rw_wait_list sem) (readers pc) (writers pc)"
    by (auto simp: rw_inv_def)
  have b: "card (readers pc) \<le> PID_MAX_LIMIT" using readers_bound [OF q] by simp
  have "sint (of_nat (card (readers pc)) :: u32) = int (card (readers pc))"
    using signed_take_bit_int_eq_self [of 31 "int (card (readers pc))"] b by (simp add: signed_of_nat PID_MAX_LIMIT_def)
  then show ?thesis using o act_small(3) [OF b] by (auto simp: owner_ok_def)
qed

theorem rwsem_exclusion_witness:
  "writers (snd rw_wit) = {} \<and> int (card (readers (snd rw_wit))) = 1"
  using rwsem_exclusion [of "fst rw_wit" "snd rw_wit"] rw_wit_reach by (simp add: rw_wit_def)

text \<open>
  C10: no wakeup is lost. Whenever a task waits, some task owns the lock, so a release is still to come;
  behind readers the first waiter is a writer, so the last reader's release, which wakes the first
  waiter as a writer, is right to; and the waiters are exactly the queue.
\<close>

theorem rwsem_no_lost_wakeup:
  assumes "reach rw_start rw_step (sem, pc)"
  shows "distinct (map rw_task (rw_wait_list sem)) \<and> rw_task ` set (rw_wait_list sem) = {t. pc t \<in> {Waits_read, Waits_write}}
    \<and> (rw_wait_list sem = [] \<or> readers pc \<union> writers pc \<noteq> {})
    \<and> (rw_wait_list sem = [] \<or> readers pc = {} \<or> pc (rw_task (hd (rw_wait_list sem))) = Waits_write)"
proof -
  have "rw_inv (sem, pc)" by (rule rw.reach_inv [OF assms])
  then have q: "queue_ok (rw_wait_list sem) pc" and o: "owner_ok (activity sem) (rw_wait_list sem) (readers pc) (writers pc)"
    by (auto simp: rw_inv_def)
  have w: "waiter_ok pc w" if "w \<in> set (rw_wait_list sem)" for w using q that by (simp add: queue_ok_def)
  have "rw_task ` set (rw_wait_list sem) = {t. pc t \<in> {Waits_read, Waits_write}}" using q by (auto simp: queue_ok_def)
  moreover have "pc (rw_task (hd (rw_wait_list sem))) = Waits_write" if "rw_wait_list sem \<noteq> []" "readers pc \<noteq> {}"
    using w [of "hd (rw_wait_list sem)"] o that by (auto simp: owner_ok_def)
  ultimately show ?thesis using q o by (auto simp: queue_ok_def owner_ok_def)
qed

theorem rwsem_no_lost_wakeup_witness:
  "rw_task ` set (rw_wait_list (fst rw_wit)) = {2, 3} \<and> readers (snd rw_wit) \<union> writers (snd rw_wit) \<noteq> {}"
  using rwsem_no_lost_wakeup [of "fst rw_wit" "snd rw_wit"] rw_wit_reach by (simp add: rw_wit_def)

end
