(* ===== verification/Kstring.thy ===== *)
theory Kstring
  imports KPrelude
begin

text \<open>
  The string and memory routines of \<open>lib/string.c\<close>, with the character classes of \<open>lib/ctype.c\<close>. Memory
  is a list of bytes and a pointer an index into it, so overlapping arguments are covered; an access
  outside of it is a fault, \<open>Bug\<close>, and a loop that misses its terminator ends there. Plain \<open>char\<close> is
  unsigned on this target. Sizes do not wrap in these routines except where it is written out. A routine
  that only returns its first argument gives the memory alone.
\<close>

section \<open>Memory accesses\<close>

fun kbind :: "'a kres \<Rightarrow> ('a \<Rightarrow> 'b kres) \<Rightarrow> 'b kres" where
  "kbind (Ok x) f = f x"
| "kbind (Err e) f = Err e"
| "kbind Bug f = Bug"

lemma kbind_cong [fundef_cong]:
  "x = y \<Longrightarrow> (\<And>a. y = Ok a \<Longrightarrow> f a = g a) \<Longrightarrow> kbind x f = kbind y g"
  by (cases y) auto

definition ld8 :: "u8 list \<Rightarrow> nat \<Rightarrow> u8 kres" where
  "ld8 m p = (if p < length m then Ok (m ! p) else Bug)"

definition st8 :: "u8 list \<Rightarrow> nat \<Rightarrow> u8 \<Rightarrow> u8 list kres" where
  "st8 m p v = (if p < length m then Ok (m[p := v]) else Bug)"

lemma ld8_OkD: "ld8 m p = Ok c \<Longrightarrow> p < length m \<and> c = m ! p"
  by (auto simp: ld8_def split: if_splits)

lemma st8_OkD: "st8 m p v = Ok m' \<Longrightarrow> p < length m \<and> m' = m[p := v]"
  by (auto simp: st8_def split: if_splits)

section \<open>Character classes\<close>

definition C_U :: u8 where "C_U = 0x01"
definition C_L :: u8 where "C_L = 0x02"
definition C_D :: u8 where "C_D = 0x04"
definition C_C :: u8 where "C_C = 0x08"
definition C_P :: u8 where "C_P = 0x10"
definition C_S :: u8 where "C_S = 0x20"
definition C_X :: u8 where "C_X = 0x40"
definition C_SP :: u8 where "C_SP = 0x80"

definition u_ctype :: "u8 list" where
  "u_ctype =
     replicate 8 C_C @ [C_C] @ replicate 5 (C_C OR C_S) @ replicate 2 C_C @ replicate 16 C_C
     @ [C_S OR C_SP] @ replicate 15 C_P @ replicate 10 C_D @ replicate 6 C_P
     @ [C_P] @ replicate 6 (C_U OR C_X) @ replicate 20 C_U @ replicate 5 C_P
     @ [C_P] @ replicate 6 (C_L OR C_X) @ replicate 20 C_L @ replicate 4 C_P @ [C_C]
     @ replicate 32 0
     @ [C_S OR C_SP] @ replicate 31 C_P
     @ replicate 23 C_U @ [C_P] @ replicate 7 C_U @ [C_L]
     @ replicate 23 C_L @ [C_P] @ replicate 8 C_L"

definition u_ismask :: "u8 \<Rightarrow> u8" where "u_ismask x = u_ctype ! unat x"

definition isalnum :: "u8 \<Rightarrow> bool" where "isalnum c \<longleftrightarrow> u_ismask c AND (C_U OR C_L OR C_D) \<noteq> 0"
definition isalpha :: "u8 \<Rightarrow> bool" where "isalpha c \<longleftrightarrow> u_ismask c AND (C_U OR C_L) \<noteq> 0"
definition iscntrl :: "u8 \<Rightarrow> bool" where "iscntrl c \<longleftrightarrow> u_ismask c AND C_C \<noteq> 0"
definition isdigit :: "u8 \<Rightarrow> bool" where "isdigit c \<longleftrightarrow> u_ismask c AND C_D \<noteq> 0"
definition isgraph :: "u8 \<Rightarrow> bool" where "isgraph c \<longleftrightarrow> u_ismask c AND (C_P OR C_U OR C_L OR C_D) \<noteq> 0"
definition islower :: "u8 \<Rightarrow> bool" where "islower c \<longleftrightarrow> u_ismask c AND C_L \<noteq> 0"
definition isprint :: "u8 \<Rightarrow> bool" where "isprint c \<longleftrightarrow> u_ismask c AND (C_P OR C_U OR C_L OR C_D OR C_SP) \<noteq> 0"
definition ispunct :: "u8 \<Rightarrow> bool" where "ispunct c \<longleftrightarrow> u_ismask c AND C_P \<noteq> 0"
definition isspace :: "u8 \<Rightarrow> bool" where "isspace c \<longleftrightarrow> u_ismask c AND C_S \<noteq> 0"
definition isupper :: "u8 \<Rightarrow> bool" where "isupper c \<longleftrightarrow> u_ismask c AND C_U \<noteq> 0"
definition isxdigit :: "u8 \<Rightarrow> bool" where "isxdigit c \<longleftrightarrow> u_ismask c AND (C_D OR C_X) \<noteq> 0"
definition isascii :: "u8 \<Rightarrow> bool" where "isascii c \<longleftrightarrow> c \<le> 0x7F"
definition toascii :: "u8 \<Rightarrow> u8" where "toascii c = c AND 0x7F"

definition tolower :: "u8 \<Rightarrow> u8" where
  "tolower c = (if isupper c then c - (0x41 - 0x61) else c)"

definition toupper :: "u8 \<Rightarrow> u8" where
  "toupper c = (if islower c then c - (0x61 - 0x41) else c)"

section \<open>Comparing\<close>

text \<open>The last pair of characters read; \<open>n\<close> is the value of \<open>len\<close> after its decrement.\<close>

fun strnicmp_loop :: "u8 list \<Rightarrow> nat \<Rightarrow> nat \<Rightarrow> nat \<Rightarrow> (u8 \<times> u8) kres" where
  "strnicmp_loop m s1 s2 n =
     kbind (ld8 m s1) (\<lambda>c1. kbind (ld8 m s2) (\<lambda>c2.
       if c1 = 0 \<or> c2 = 0 then Ok (c1, c2)
       else if c1 \<noteq> c2 \<and> tolower c1 \<noteq> tolower c2 then Ok (tolower c1, tolower c2)
       else case n of
              0 \<Rightarrow> Ok (if c1 = c2 then (c1, c2) else (tolower c1, tolower c2))
            | Suc n \<Rightarrow> strnicmp_loop m (s1 + 1) (s2 + 1) n))"

definition strnicmp :: "u8 list \<Rightarrow> nat \<Rightarrow> nat \<Rightarrow> nat \<Rightarrow> int kres" where
  "strnicmp m s1 s2 len =
     (if len = 0 then Ok 0
      else kbind (strnicmp_loop m s1 s2 (len - 1)) (\<lambda>(c1, c2). Ok (uint c1 - uint c2)))"

function strcasecmp :: "u8 list \<Rightarrow> nat \<Rightarrow> nat \<Rightarrow> int kres" where
  "strcasecmp m s1 s2 =
     kbind (ld8 m s1) (\<lambda>c1. kbind (ld8 m s2) (\<lambda>c2.
       (let c1 = tolower c1; c2 = tolower c2
        in if c1 = c2 \<and> c1 \<noteq> 0 then strcasecmp m (s1 + 1) (s2 + 1) else Ok (uint c1 - uint c2))))"
  by auto
termination
  by (relation "measure (\<lambda>(m, s1, s2). length m - s1)") (auto dest!: ld8_OkD)

text \<open>\<open>--n\<close> of the \<open>size_t\<close> 0 is the largest one.\<close>

function strncasecmp :: "u8 list \<Rightarrow> nat \<Rightarrow> nat \<Rightarrow> ulong \<Rightarrow> int kres" where
  "strncasecmp m s1 s2 n =
     kbind (ld8 m s1) (\<lambda>c1. kbind (ld8 m s2) (\<lambda>c2.
       (let c1 = tolower c1; c2 = tolower c2; n = n - 1
        in if n > 0 \<and> c1 = c2 \<and> c1 \<noteq> 0 then strncasecmp m (s1 + 1) (s2 + 1) n else Ok (uint c1 - uint c2))))"
  by auto
termination
  by (relation "measure (\<lambda>(m, s1, s2, n). length m - s1)") (auto dest!: ld8_OkD)

text \<open>The difference is stored in a \<open>signed char\<close>.\<close>

function strcmp :: "u8 list \<Rightarrow> nat \<Rightarrow> nat \<Rightarrow> int kres" where
  "strcmp m cs ct =
     kbind (ld8 m cs) (\<lambda>c. kbind (ld8 m ct) (\<lambda>d.
       if c - d \<noteq> 0 \<or> c = 0 then Ok (sint (c - d)) else strcmp m (cs + 1) (ct + 1)))"
  by auto
termination
  by (relation "measure (\<lambda>(m, cs, ct). length m - cs)") (auto dest!: ld8_OkD)

fun strncmp :: "u8 list \<Rightarrow> nat \<Rightarrow> nat \<Rightarrow> nat \<Rightarrow> int kres" where
  "strncmp m cs ct 0 = Ok 0"
| "strncmp m cs ct (Suc n) =
     kbind (ld8 m cs) (\<lambda>c. kbind (ld8 m ct) (\<lambda>d.
       if c - d \<noteq> 0 \<or> c = 0 then Ok (sint (c - d)) else strncmp m (cs + 1) (ct + 1) n))"

fun memcmp :: "u8 list \<Rightarrow> nat \<Rightarrow> nat \<Rightarrow> nat \<Rightarrow> int kres" where
  "memcmp m cs ct 0 = Ok 0"
| "memcmp m cs ct (Suc n) =
     kbind (ld8 m cs) (\<lambda>c. kbind (ld8 m ct) (\<lambda>d.
       if uint c - uint d \<noteq> 0 then Ok (uint c - uint d) else memcmp m (cs + 1) (ct + 1) n))"

text \<open>Where the loop over equal characters stops.\<close>

function streq_loop :: "u8 list \<Rightarrow> nat \<Rightarrow> nat \<Rightarrow> (nat \<times> nat) kres" where
  "streq_loop m s1 s2 =
     kbind (ld8 m s1) (\<lambda>c1.
       if c1 = 0 then Ok (s1, s2)
       else kbind (ld8 m s2) (\<lambda>c2. if c1 = c2 then streq_loop m (s1 + 1) (s2 + 1) else Ok (s1, s2)))"
  by auto
termination
  by (relation "measure (\<lambda>(m, s1, s2). length m - s1)") (auto dest!: ld8_OkD)

definition sysfs_streq :: "u8 list \<Rightarrow> nat \<Rightarrow> nat \<Rightarrow> bool kres" where
  "sysfs_streq m s1 s2 =
     kbind (streq_loop m s1 s2) (\<lambda>(s1, s2). kbind (ld8 m s1) (\<lambda>c1. kbind (ld8 m s2) (\<lambda>c2.
       if c1 = c2 then Ok True
       else if c1 = 0 \<and> c2 = 0x0A then kbind (ld8 m (s2 + 1)) (\<lambda>d. Ok (d = 0))
       else if c1 = 0x0A then kbind (ld8 m (s1 + 1)) (\<lambda>d. Ok (d = 0 \<and> c2 = 0))
       else Ok False)))"

declare strnicmp_loop.simps [simp del] strcasecmp.simps [simp del] strncasecmp.simps [simp del] strcmp.simps [simp del]
  streq_loop.simps [simp del]

section \<open>Lengths and searches\<close>

function strlen :: "u8 list \<Rightarrow> nat \<Rightarrow> nat kres" where
  "strlen m s = kbind (ld8 m s) (\<lambda>c. if c = 0 then Ok 0 else kbind (strlen m (s + 1)) (\<lambda>n. Ok (n + 1)))"
  by auto
termination
  by (relation "measure (\<lambda>(m, s). length m - s)") (auto dest!: ld8_OkD)

fun strnlen :: "u8 list \<Rightarrow> nat \<Rightarrow> nat \<Rightarrow> nat kres" where
  "strnlen m s 0 = Ok 0"
| "strnlen m s (Suc n) = kbind (ld8 m s) (\<lambda>c. if c = 0 then Ok 0 else kbind (strnlen m (s + 1) n) (\<lambda>k. Ok (k + 1)))"

text \<open>A character argument is an \<open>int\<close> of which the low byte counts; \<open>None\<close> is \<open>NULL\<close>.\<close>

function strchr :: "u8 list \<Rightarrow> nat \<Rightarrow> u32 \<Rightarrow> nat option kres" where
  "strchr m s c =
     kbind (ld8 m s) (\<lambda>d. if d = ucast c then Ok (Some s) else if d = 0 then Ok None else strchr m (s + 1) c)"
  by auto
termination
  by (relation "measure (\<lambda>(m, s, c). length m - s)") (auto dest!: ld8_OkD)

text \<open>\<open>k\<close> is \<open>p - s\<close>.\<close>

fun strrchr_loop :: "u8 list \<Rightarrow> nat \<Rightarrow> u32 \<Rightarrow> nat \<Rightarrow> nat option kres" where
  "strrchr_loop m s c k =
     kbind (ld8 m (s + k)) (\<lambda>d.
       if d = ucast c then Ok (Some (s + k))
       else case k of 0 \<Rightarrow> Ok None | Suc k \<Rightarrow> strrchr_loop m s c k)"

definition strrchr :: "u8 list \<Rightarrow> nat \<Rightarrow> u32 \<Rightarrow> nat option kres" where
  "strrchr m s c = kbind (strlen m s) (\<lambda>n. strrchr_loop m s c n)"

fun strnchr :: "u8 list \<Rightarrow> nat \<Rightarrow> nat \<Rightarrow> u32 \<Rightarrow> nat option kres" where
  "strnchr m s 0 c = Ok None"
| "strnchr m s (Suc n) c =
     kbind (ld8 m s) (\<lambda>d.
       if d = 0 then Ok None else if d = ucast c then Ok (Some s) else strnchr m (s + 1) n c)"

text \<open>Whether the string at \<open>a\<close> has the character: the inner loop of the three routines below.\<close>

function has_char :: "u8 list \<Rightarrow> nat \<Rightarrow> u8 \<Rightarrow> bool kres" where
  "has_char m a c =
     kbind (ld8 m a) (\<lambda>d. if d = 0 then Ok False else if c = d then Ok True else has_char m (a + 1) c)"
  by auto
termination
  by (relation "measure (\<lambda>(m, a, c). length m - a)") (auto dest!: ld8_OkD)

function strspn :: "u8 list \<Rightarrow> nat \<Rightarrow> nat \<Rightarrow> nat kres" where
  "strspn m p accept =
     kbind (ld8 m p) (\<lambda>c.
       if c = 0 then Ok 0
       else kbind (has_char m accept c) (\<lambda>h.
              if h then kbind (strspn m (p + 1) accept) (\<lambda>n. Ok (n + 1)) else Ok 0))"
  by auto
termination
  by (relation "measure (\<lambda>(m, p, a). length m - p)") (auto dest!: ld8_OkD)

function strcspn :: "u8 list \<Rightarrow> nat \<Rightarrow> nat \<Rightarrow> nat kres" where
  "strcspn m p reject =
     kbind (ld8 m p) (\<lambda>c.
       if c = 0 then Ok 0
       else kbind (has_char m reject c) (\<lambda>h.
              if h then Ok 0 else kbind (strcspn m (p + 1) reject) (\<lambda>n. Ok (n + 1))))"
  by auto
termination
  by (relation "measure (\<lambda>(m, p, a). length m - p)") (auto dest!: ld8_OkD)

function strpbrk :: "u8 list \<Rightarrow> nat \<Rightarrow> nat \<Rightarrow> nat option kres" where
  "strpbrk m cs ct =
     kbind (ld8 m cs) (\<lambda>c.
       if c = 0 then Ok None
       else kbind (has_char m ct c) (\<lambda>h. if h then Ok (Some cs) else strpbrk m (cs + 1) ct))"
  by auto
termination
  by (relation "measure (\<lambda>(m, p, a). length m - p)") (auto dest!: ld8_OkD)

text \<open>\<open>memscan\<close> compares the byte with the whole \<open>int\<close>, \<open>memchr\<close> with its low byte.\<close>

fun memscan :: "u8 list \<Rightarrow> nat \<Rightarrow> u32 \<Rightarrow> nat \<Rightarrow> nat kres" where
  "memscan m p c 0 = Ok p"
| "memscan m p c (Suc n) = kbind (ld8 m p) (\<lambda>d. if ucast d = c then Ok p else memscan m (p + 1) c n)"

fun memchr :: "u8 list \<Rightarrow> nat \<Rightarrow> u32 \<Rightarrow> nat \<Rightarrow> nat option kres" where
  "memchr m p c 0 = Ok None"
| "memchr m p c (Suc n) = kbind (ld8 m p) (\<lambda>d. if ucast c = d then Ok (Some p) else memchr m (p + 1) c n)"

fun strstr_loop :: "u8 list \<Rightarrow> nat \<Rightarrow> nat \<Rightarrow> nat \<Rightarrow> nat \<Rightarrow> nat option kres" where
  "strstr_loop m s1 s2 l2 0 = Ok None"
| "strstr_loop m s1 s2 l2 (Suc l1) =
     (if Suc l1 < l2 then Ok None
      else kbind (memcmp m s1 s2 l2) (\<lambda>r. if r = 0 then Ok (Some s1) else strstr_loop m (s1 + 1) s2 l2 l1))"

definition strstr :: "u8 list \<Rightarrow> nat \<Rightarrow> nat \<Rightarrow> nat option kres" where
  "strstr m s1 s2 =
     kbind (strlen m s2) (\<lambda>l2.
       if l2 = 0 then Ok (Some s1) else kbind (strlen m s1) (\<lambda>l1. strstr_loop m s1 s2 l2 l1))"

declare strlen.simps [simp del] strchr.simps [simp del] strrchr_loop.simps [simp del] has_char.simps [simp del]
  strspn.simps [simp del] strcspn.simps [simp del] strpbrk.simps [simp del]

section \<open>Copying and changing\<close>

fun memset :: "u8 list \<Rightarrow> nat \<Rightarrow> u32 \<Rightarrow> nat \<Rightarrow> u8 list kres" where
  "memset m xs c 0 = Ok m"
| "memset m xs c (Suc n) = kbind (st8 m xs (ucast c)) (\<lambda>m. memset m (xs + 1) c n)"

fun memcpy :: "u8 list \<Rightarrow> nat \<Rightarrow> nat \<Rightarrow> nat \<Rightarrow> u8 list kres" where
  "memcpy m tmp s 0 = Ok m"
| "memcpy m tmp s (Suc n) =
     kbind (ld8 m s) (\<lambda>c. kbind (st8 m tmp c) (\<lambda>m. memcpy m (tmp + 1) (s + 1) n))"

text \<open>The loop from the end: \<open>tmp = dest + n\<close> and \<open>s = src + n\<close>.\<close>

fun memmove_down :: "u8 list \<Rightarrow> nat \<Rightarrow> nat \<Rightarrow> nat \<Rightarrow> u8 list kres" where
  "memmove_down m dest src 0 = Ok m"
| "memmove_down m dest src (Suc n) =
     kbind (ld8 m (src + n)) (\<lambda>c. kbind (st8 m (dest + n) c) (\<lambda>m. memmove_down m dest src n))"

definition memmove :: "u8 list \<Rightarrow> nat \<Rightarrow> nat \<Rightarrow> nat \<Rightarrow> u8 list kres" where
  "memmove m dest src n = (if dest \<le> src then memcpy m dest src n else memmove_down m dest src n)"

function strcpy :: "u8 list \<Rightarrow> nat \<Rightarrow> nat \<Rightarrow> u8 list kres" where
  "strcpy m dest src =
     kbind (ld8 m src) (\<lambda>c. kbind (st8 m dest c) (\<lambda>m'. if c \<noteq> 0 then strcpy m' (dest + 1) (src + 1) else Ok m'))"
  by auto
termination
  by (relation "measure (\<lambda>(m, d, s). length m - s)") (auto dest!: ld8_OkD st8_OkD)

fun strncpy :: "u8 list \<Rightarrow> nat \<Rightarrow> nat \<Rightarrow> nat \<Rightarrow> u8 list kres" where
  "strncpy m tmp src 0 = Ok m"
| "strncpy m tmp src (Suc n) =
     kbind (ld8 m src) (\<lambda>c. kbind (st8 m tmp c) (\<lambda>m. strncpy m (tmp + 1) (if c \<noteq> 0 then src + 1 else src) n))"

definition strlcpy :: "u8 list \<Rightarrow> nat \<Rightarrow> nat \<Rightarrow> nat \<Rightarrow> (u8 list \<times> nat) kres" where
  "strlcpy m dest src siz =
     kbind (strlen m src) (\<lambda>ret.
       if siz \<noteq> 0
       then (let len = (if ret \<ge> siz then siz - 1 else ret)
             in kbind (memcpy m dest src len) (\<lambda>m. kbind (st8 m (dest + len) 0) (\<lambda>m. Ok (m, ret))))
       else Ok (m, ret))"

text \<open>The end of the string, the first loop of \<open>strcat\<close> and \<open>strncat\<close>.\<close>

function str_end :: "u8 list \<Rightarrow> nat \<Rightarrow> nat kres" where
  "str_end m d = kbind (ld8 m d) (\<lambda>c. if c \<noteq> 0 then str_end m (d + 1) else Ok d)"
  by auto
termination
  by (relation "measure (\<lambda>(m, d). length m - d)") (auto dest!: ld8_OkD)

definition strcat :: "u8 list \<Rightarrow> nat \<Rightarrow> nat \<Rightarrow> u8 list kres" where
  "strcat m dest src = kbind (str_end m dest) (\<lambda>d. strcpy m d src)"

text \<open>\<open>n\<close> is \<open>count - 1\<close>.\<close>

fun strncat_loop :: "u8 list \<Rightarrow> nat \<Rightarrow> nat \<Rightarrow> nat \<Rightarrow> u8 list kres" where
  "strncat_loop m dest src n =
     kbind (ld8 m src) (\<lambda>c. kbind (st8 m dest c) (\<lambda>m.
       if c = 0 then Ok m
       else case n of 0 \<Rightarrow> st8 m (dest + 1) 0 | Suc n \<Rightarrow> strncat_loop m (dest + 1) (src + 1) n))"

definition strncat :: "u8 list \<Rightarrow> nat \<Rightarrow> nat \<Rightarrow> nat \<Rightarrow> u8 list kres" where
  "strncat m dest src n =
     (if n \<noteq> 0 then kbind (str_end m dest) (\<lambda>d. strncat_loop m d src (n - 1)) else Ok m)"

definition strlcat :: "u8 list \<Rightarrow> nat \<Rightarrow> nat \<Rightarrow> nat \<Rightarrow> (u8 list \<times> nat) kres" where
  "strlcat m dest src n =
     kbind (strlen m dest) (\<lambda>dsize. kbind (strlen m src) (\<lambda>len.
       (let res = dsize + len
        in if dsize \<ge> n then Bug
           else let d = dest + dsize; n = n - dsize; len = (if len \<ge> n then n - 1 else len)
                in kbind (memcpy m d src len) (\<lambda>m. kbind (st8 m (d + len) 0) (\<lambda>m. Ok (m, res))))))"

text \<open>How many characters are left when trailing white space is dropped; \<open>end = s + k - 1\<close>.\<close>

fun strip_end :: "u8 list \<Rightarrow> nat \<Rightarrow> nat \<Rightarrow> nat kres" where
  "strip_end m s 0 = Ok 0"
| "strip_end m s (Suc k) = kbind (ld8 m (s + k)) (\<lambda>c. if isspace c then strip_end m s k else Ok (Suc k))"

function skip_space :: "u8 list \<Rightarrow> nat \<Rightarrow> nat kres" where
  "skip_space m s = kbind (ld8 m s) (\<lambda>c. if c \<noteq> 0 \<and> isspace c then skip_space m (s + 1) else Ok s)"
  by auto
termination
  by (relation "measure (\<lambda>(m, s). length m - s)") (auto dest!: ld8_OkD)

definition strstrip :: "u8 list \<Rightarrow> nat \<Rightarrow> (u8 list \<times> nat) kres" where
  "strstrip m s =
     kbind (strlen m s) (\<lambda>siz.
       if siz = 0 then Ok (m, s)
       else kbind (strip_end m s siz) (\<lambda>k. kbind (st8 m (s + k) 0) (\<lambda>m.
              kbind (skip_space m s) (\<lambda>s. Ok (m, s)))))"

text \<open>The memory, the rest of the string and the token.\<close>

definition strsep :: "u8 list \<Rightarrow> nat option \<Rightarrow> nat \<Rightarrow> (u8 list \<times> nat option \<times> nat option) kres" where
  "strsep m s ct =
     (case s of
        None \<Rightarrow> Ok (m, None, None)
      | Some sbegin \<Rightarrow>
          kbind (strpbrk m sbegin ct) (\<lambda>e.
            case e of
              None \<Rightarrow> Ok (m, None, Some sbegin)
            | Some e \<Rightarrow> kbind (st8 m e 0) (\<lambda>m. Ok (m, Some (e + 1), Some sbegin))))"

declare strcpy.simps [simp del] str_end.simps [simp del] strncat_loop.simps [simp del] skip_space.simps [simp del]

end
