(* ===== verification/Kstring_Props.thy ===== *)
theory Kstring_Props
  imports Kstring
begin

text \<open>
  What the routines of \<open>Kstring\<close> do on terminated strings, and block moves on overlapping areas.
\<close>

section \<open>Terminated strings\<close>

fun cstr :: "u8 list \<Rightarrow> nat \<Rightarrow> u8 list \<Rightarrow> bool" where
  "cstr m p [] \<longleftrightarrow> p < length m \<and> m ! p = 0"
| "cstr m p (c # s) \<longleftrightarrow> p < length m \<and> m ! p = c \<and> c \<noteq> 0 \<and> cstr m (p + 1) s"

lemma cstr_ld8: "cstr m p s \<Longrightarrow> ld8 m p = Ok (case s of [] \<Rightarrow> 0 | c # _ \<Rightarrow> c)"
  by (cases s) (auto simp: ld8_def)

lemma cstr_bound: "cstr m p s \<Longrightarrow> p + length s < length m"
  by (induction s arbitrary: p) fastforce+

lemma cstr_nth: "cstr m p s \<Longrightarrow> i < length s \<Longrightarrow> m ! (p + i) = s ! i \<and> s ! i \<noteq> 0"
proof (induction s arbitrary: p i)
  case (Cons c s)
  then show ?case using Cons.IH [of "p + 1" "i - 1"] by (cases i) auto
qed simp

lemma cstr_end: "cstr m p s \<Longrightarrow> m ! (p + length s) = 0"
  by (induction s arbitrary: p) fastforce+

lemma cstrI:
  "p + length s < length m \<Longrightarrow> (\<And>i. i < length s \<Longrightarrow> m ! (p + i) = s ! i \<and> s ! i \<noteq> 0) \<Longrightarrow> m ! (p + length s) = 0 \<Longrightarrow> cstr m p s"
proof (induction s arbitrary: p)
  case (Cons c s)
  have "m ! (p + 1 + i) = s ! i \<and> s ! i \<noteq> 0" if "i < length s" for i using Cons.prems(2) [of "Suc i"] that by simp
  then show ?case using Cons.prems Cons.IH [of "p + 1"] Cons.prems(2) [of 0] by simp
qed simp

lemma cstr_drop: "cstr m p s \<Longrightarrow> k \<le> length s \<Longrightarrow> cstr m (p + k) (drop k s)"
proof (induction s arbitrary: p k)
  case (Cons c s)
  then show ?case using Cons.IH [of "p + 1" "k - 1"] by (cases k) auto
qed simp

lemma strlen_cstr: "cstr m p s \<Longrightarrow> strlen m p = Ok (length s)"
  by (induction s arbitrary: p) (subst strlen.simps, simp add: ld8_def)+

lemma str_end_cstr: "cstr m p s \<Longrightarrow> str_end m p = Ok (p + length s)"
  by (induction s arbitrary: p) (subst str_end.simps, simp add: ld8_def)+

lemma strnlen_cstr: "cstr m p s \<Longrightarrow> strnlen m p n = Ok (min n (length s))"
proof (induction s arbitrary: p n)
  case Nil
  then show ?case by (cases n) (auto simp: ld8_def)
next
  case (Cons c s)
  then show ?case by (cases n) (auto simp: ld8_def)
qed

section \<open>Searches\<close>

lemma has_char_cstr: "cstr m a s \<Longrightarrow> has_char m a c = Ok (c \<in> set s)"
  by (induction s arbitrary: a) (subst has_char.simps, simp add: ld8_def)+

lemma strspn_cstr:
  assumes "cstr m a as"
  shows "cstr m p s \<Longrightarrow> strspn m p a = Ok (length (takeWhile (\<lambda>c. c \<in> set as) s))"
  by (induction s arbitrary: p) (subst strspn.simps, simp add: ld8_def has_char_cstr [OF assms])+

lemma strcspn_cstr:
  assumes "cstr m a as"
  shows "cstr m p s \<Longrightarrow> strcspn m p a = Ok (length (takeWhile (\<lambda>c. c \<notin> set as) s))"
  by (induction s arbitrary: p) (subst strcspn.simps, simp add: ld8_def has_char_cstr [OF assms])+

lemma strpbrk_cstr:
  assumes "cstr m a as"
  shows "cstr m p s \<Longrightarrow> strpbrk m p a =
    Ok (if set s \<inter> set as = {} then None else Some (p + length (takeWhile (\<lambda>c. c \<notin> set as) s)))"
  by (induction s arbitrary: p) (subst strpbrk.simps, simp add: ld8_def has_char_cstr [OF assms])+

lemma strchr_cstr:
  assumes "ucast c \<noteq> (0 :: u8)"
  shows "cstr m p s \<Longrightarrow> strchr m p c =
    Ok (if ucast c \<in> set s then Some (p + length (takeWhile (\<lambda>d. d \<noteq> ucast c) s)) else None)"
  by (induction s arbitrary: p) (subst strchr.simps, use assms in \<open>auto simp: ld8_def\<close>)+

lemma memcmp_zero:
  assumes "p + n \<le> length m" and "q + n \<le> length m"
  shows "\<exists>r. memcmp m p q n = Ok r \<and> (r = 0 \<longleftrightarrow> take n (drop p m) = take n (drop q m))"
  using assms
proof (induction n arbitrary: p q)
  case (Suc n)
  have d: "drop p m = m ! p # drop (p + 1) m" "drop q m = m ! q # drop (q + 1) m"
    using Suc.prems Cons_nth_drop_Suc [of p m] Cons_nth_drop_Suc [of q m] by auto
  have "uint (m ! p) = uint (m ! q) \<longleftrightarrow> m ! p = m ! q" by (simp add: word_uint_eq_iff)
  then show ?case using Suc.IH [of "p + 1" "q + 1"] Suc.prems by (auto simp: d ld8_def)
qed simp

text \<open>The places at which \<open>t\<close> occurs in \<open>s\<close>, and the first of them from \<open>k\<close> on.\<close>

definition occurs_at :: "u8 list \<Rightarrow> u8 list \<Rightarrow> nat \<Rightarrow> bool" where
  "occurs_at t s k \<longleftrightarrow> take (length t) (drop k s) = t"

lemma cstr_take: "cstr m p s \<Longrightarrow> take (length s) (drop p m) = s"
  using cstr_bound [of m p s] by (intro nth_equalityI) (auto dest: cstr_nth)

lemma strstr_loop_cstr:
  assumes t: "cstr m q t" "t \<noteq> []" and s: "cstr m p s"
  shows "strstr_loop m p q (length t) (length s) =
    Ok (if \<exists>k. occurs_at t s k then Some (p + (LEAST k. occurs_at t s k)) else None)"
  using s
proof (induction s arbitrary: p)
  case Nil
  then show ?case using t(2) by (auto simp: occurs_at_def)
next
  case (Cons c s)
  have sh: "occurs_at t (c # s) (Suc k) \<longleftrightarrow> occurs_at t s k" for k by (simp add: occurs_at_def)
  have IH: "strstr_loop m (p + 1) q (length t) (length s) =
      Ok (if \<exists>k. occurs_at t s k then Some (p + 1 + (LEAST k. occurs_at t s k)) else None)"
    using Cons.prems by (intro Cons.IH) simp
  show ?case
  proof (cases "length (c # s) < length t")
    case True
    then have "\<not> occurs_at t (c # s) k" for k by (auto simp: occurs_at_def dest: arg_cong [where f = length])
    then show ?thesis using True by simp
  next
    case False
    then have le: "p + length t \<le> length m" using cstr_bound [OF Cons.prems] by simp
    have "take (length t) (drop p m) = take (length t) (c # s)"
      using cstr_take [OF Cons.prems] False by (metis length_Cons linorder_not_less min.absorb1 take_take)
    then obtain r where r: "memcmp m p q (length t) = Ok r" "r = 0 \<longleftrightarrow> occurs_at t (c # s) 0"
      using memcmp_zero [OF le, of q] cstr_bound [OF t(1)] cstr_take [OF t(1)] by (auto simp: occurs_at_def)
    show ?thesis
    proof (cases "occurs_at t (c # s) 0")
      case True
      then have "(LEAST k. occurs_at t (c # s) k) = 0" by (intro Least_equality) auto
      then show ?thesis using True False r by auto
    next
      case no: False
      have ex: "(\<exists>k. occurs_at t (c # s) k) \<longleftrightarrow> (\<exists>k. occurs_at t s k)" using no sh by (metis not0_implies_Suc)
      moreover have "(LEAST k. occurs_at t (c # s) k) = Suc (LEAST k. occurs_at t s k)" if "\<exists>k. occurs_at t s k"
        using that Least_Suc [of "occurs_at t (c # s)" "Suc (SOME k. occurs_at t s k)"] no sh someI_ex [OF that] by simp
      ultimately show ?thesis using r no False IH by simp
    qed
  qed
qed

lemma strstr_cstr:
  assumes "cstr m q t" and "cstr m p s"
  shows "strstr m p q = Ok (if \<exists>k. occurs_at t s k then Some (p + (LEAST k. occurs_at t s k)) else None)"
proof (cases "t = []")
  case True
  then have "occurs_at t s 0" "(LEAST k. occurs_at t s k) = 0" by (auto simp: occurs_at_def intro: Least_equality)
  then show ?thesis using True strlen_cstr [OF assms(1)] by (auto simp: strstr_def)
next
  case False
  then show ?thesis using strlen_cstr [OF assms(1)] strlen_cstr [OF assms(2)] strstr_loop_cstr [OF assms(1) _ assms(2)]
    by (simp add: strstr_def)
qed

section \<open>Block moves\<close>

text \<open>The effect of a copy of \<open>n\<close> bytes that reads all of its source as it was before.\<close>

definition moved :: "u8 list \<Rightarrow> nat \<Rightarrow> nat \<Rightarrow> nat \<Rightarrow> u8 list \<Rightarrow> bool" where
  "moved m d s n m' \<longleftrightarrow> length m' = length m
     \<and> (\<forall>i < length m. m' ! i = (if d \<le> i \<and> i < d + n then m ! (s + (i - d)) else m ! i))"

lemma memcpy_moved:
  assumes "d + n \<le> length m" and "s + n \<le> length m" and "d \<le> s \<or> s + n \<le> d"
  shows "\<exists>m'. memcpy m d s n = Ok m' \<and> moved m d s n m'"
  using assms
proof (induction n arbitrary: m d s)
  case (Suc n)
  let ?m = "m[d := m ! s]"
  obtain m' where m': "memcpy ?m (d + 1) (s + 1) n = Ok m'" "moved ?m (d + 1) (s + 1) n m'"
    using Suc.IH [of "d + 1" ?m "s + 1"] Suc.prems by auto
  have "m' ! i = (if d \<le> i \<and> i < d + Suc n then m ! (s + (i - d)) else m ! i)" if "i < length m" for i
  proof (cases "d + 1 \<le> i \<and> i < d + 1 + n")
    case True
    then have "s + 1 + (i - (d + 1)) = s + (i - d)" "s + (i - d) \<noteq> d" using Suc.prems(3) by auto
    then show ?thesis using m'(2) True that by (simp add: moved_def)
  next
    case False
    then show ?thesis using m'(2) that by (cases "i = d") (auto simp: moved_def)
  qed
  then show ?case using m' Suc.prems by (simp add: moved_def ld8_def st8_def)
qed (auto simp: moved_def)

lemma memmove_down_moved:
  assumes "d + n \<le> length m" and "s + n \<le> length m" and "s < d"
  shows "\<exists>m'. memmove_down m d s n = Ok m' \<and> moved m d s n m'"
  using assms
proof (induction n arbitrary: m)
  case (Suc n)
  let ?m = "m[d + n := m ! (s + n)]"
  obtain m' where m': "memmove_down ?m d s n = Ok m'" "moved ?m d s n m'"
    using Suc.IH [of ?m] Suc.prems by auto
  have "m' ! i = (if d \<le> i \<and> i < d + Suc n then m ! (s + (i - d)) else m ! i)" if "i < length m" for i
  proof (cases "d \<le> i \<and> i < d + n")
    case True
    then have "s + (i - d) \<noteq> d + n" using Suc.prems(3) by auto
    then show ?thesis using m'(2) True that by (simp add: moved_def)
  next
    case False
    then show ?thesis using m'(2) that by (cases "i = d + n") (auto simp: moved_def)
  qed
  then show ?case using m' Suc.prems by (simp add: moved_def ld8_def st8_def)
qed (auto simp: moved_def)

lemma moved_mem_write:
  assumes "moved m d s n m'" and "d + n \<le> length m" and "s + n \<le> length m"
  shows "m' = mem_write m d (mem_read m s n)"
proof (rule nth_equalityI)
  show "length m' = length (mem_write m d (mem_read m s n))" using assms by (simp add: moved_def)
  show "m' ! i = mem_write m d (mem_read m s n) ! i" if "i < length m'" for i
    using assms that by (auto simp: moved_def nth_mem_write nth_mem_read)
qed

text \<open>Copying the first \<open>n\<close> characters of a string and terminating them: \<open>strlcpy\<close> and \<open>strlcat\<close>.\<close>

lemma copy_terminate:
  assumes s: "cstr m src s" and n: "n \<le> length s" and d: "d + n < length m" and dj: "d + n < src \<or> src + length s < d"
  shows "\<exists>m1 m2. memcpy m d src n = Ok m1 \<and> st8 m1 (d + n) 0 = Ok m2 \<and> length m2 = length m \<and> cstr m2 d (take n s)
    \<and> (\<forall>i < length m. i < d \<or> d + n < i \<longrightarrow> m2 ! i = m ! i)"
proof -
  obtain m1 where m1: "memcpy m d src n = Ok m1" "moved m d src n m1"
    using memcpy_moved [of d n m src] d dj n cstr_bound [OF s] by auto
  let ?m = "m1[d + n := 0]"
  have "cstr ?m d (take n s)"
  proof (rule cstrI)
    show "d + length (take n s) < length ?m" using m1(2) d n by (simp add: moved_def)
    show "?m ! (d + length (take n s)) = 0" using m1(2) d n by (simp add: moved_def min_def)
    show "?m ! (d + i) = take n s ! i \<and> take n s ! i \<noteq> 0" if "i < length (take n s)" for i
      using that m1(2) d cstr_nth [OF s, of i] by (simp add: moved_def)
  qed
  then show ?thesis using m1 d by (auto simp: moved_def st8_def)
qed

lemma cstr_append:
  "cstr m p (s @ t) \<longleftrightarrow> p + length s < length m \<and> (\<forall>i < length s. m ! (p + i) = s ! i \<and> s ! i \<noteq> 0) \<and> cstr m (p + length s) t"
proof
  assume c: "cstr m p (s @ t)"
  have "m ! (p + i) = s ! i \<and> s ! i \<noteq> 0" if "i < length s" for i using cstr_nth [OF c, of i] that by (simp add: nth_append)
  then show "p + length s < length m \<and> (\<forall>i < length s. m ! (p + i) = s ! i \<and> s ! i \<noteq> 0) \<and> cstr m (p + length s) t"
    using cstr_bound [OF c] cstr_drop [OF c, of "length s"] by simp
next
  assume "p + length s < length m \<and> (\<forall>i < length s. m ! (p + i) = s ! i \<and> s ! i \<noteq> 0) \<and> cstr m (p + length s) t"
  then show "cstr m p (s @ t)"
  proof (induction s arbitrary: p)
    case (Cons c s)
    then have "m ! (p + 1 + i) = s ! i \<and> s ! i \<noteq> 0" if "i < length s" for i
      using Cons.prems that by (metis Suc_less_eq add.assoc length_Cons nth_Cons_Suc plus_1_eq_Suc)
    then show ?case using Cons.IH [of "p + 1"] Cons.prems by force
  qed simp
qed

lemma strlcat_cstr:
  assumes d: "cstr m dest d" and s: "cstr m src s" and b: "dest + n \<le> length m" and dj: "dest + n \<le> src \<or> src + length s < dest"
  shows "if n \<le> length d then strlcat m dest src n = Bug
    else \<exists>m'. strlcat m dest src n = Ok (m', length d + length s) \<and> cstr m' dest (d @ take (n - length d - 1) s)"
proof (cases "n \<le> length d")
  case True
  then show ?thesis using strlen_cstr [OF d] strlen_cstr [OF s] by (simp add: strlcat_def Let_def)
next
  case False
  let ?k = "n - length d" and ?e = "dest + length d"
  let ?l = "if length s \<ge> ?k then ?k - 1 else length s"
  have l: "?l \<le> length s" "?l < ?k" "take ?l s = take (?k - 1) s" using False by auto
  obtain m1 m2 where m2: "memcpy m ?e src ?l = Ok m1" "st8 m1 (?e + ?l) 0 = Ok m2" "length m2 = length m"
    "cstr m2 ?e (take ?l s)" "\<forall>i < length m. i < ?e \<or> ?e + ?l < i \<longrightarrow> m2 ! i = m ! i"
  proof -
    have "?e + ?l < length m" "?e + ?l < src \<or> src + length s < ?e" using b dj l(2) False by linarith+
    from copy_terminate [OF s l(1) this] show ?thesis using that by blast
  qed
  have "m2 ! (dest + i) = d ! i \<and> d ! i \<noteq> 0" if "i < length d" for i
    using cstr_nth [OF d that] m2(5) that cstr_bound [OF d] by auto
  then have "cstr m2 dest (d @ take (?k - 1) s)" using m2(3,4) l(3) cstr_bound [OF d] by (simp add: cstr_append)
  then show ?thesis using m2(1,2) strlen_cstr [OF d] strlen_cstr [OF s] False by (simp add: strlcat_def Let_def)
qed

section \<open>Comparisons\<close>

lemma sint_diff_ascii:
  fixes c d :: u8
  assumes "c < 0x80" and "d < 0x80"
  shows "sint (c - d) = uint c - uint d"
proof -
  have b: "0 \<le> uint c" "uint c < 128" "0 \<le> uint d" "uint d < 128" using assms by (simp_all add: word_less_def)
  have "(uint c - uint d) mod 256 = take_bit 8 (uint c - uint d)" by (simp add: take_bit_eq_mod)
  then have "sint (c - d) = signed_take_bit 7 (uint c - uint d)" by (simp add: sint_uint uint_word_ariths signed_take_bit_take_bit)
  then show ?thesis using b by (simp add: signed_take_bit_int_eq_self)
qed

lemma sint_zero: "sint w = 0 \<longleftrightarrow> w = 0" for w :: u8
  using signed_word_eqI [of w 0] by auto

lemma strcmp_step:
  assumes "ld8 m p = Ok c" and "ld8 m q = Ok d"
  shows "strcmp m p q = (if c \<noteq> d \<or> c = 0 then Ok (sint (c - d)) else strcmp m (p + 1) (q + 1))"
  using assms by (subst strcmp.simps) simp

lemma strcmp_cstr:
  assumes "cstr m p s" and "cstr m q t"
  shows "\<exists>r. strcmp m p q = Ok r \<and> (r = 0 \<longleftrightarrow> s = t)
    \<and> ((\<forall>c \<in> set s \<union> set t. c < 0x80) \<longrightarrow> (r < 0 \<longleftrightarrow> ord_class.lexordp s t))"
  using assms
proof (induction s arbitrary: p q t)
  case Nil
  show ?case
  proof (cases t)
    case (Cons d t')
    have "strcmp m p q = Ok (sint (0 - d))" using Nil Cons strcmp_step [of m p 0 q d] by (simp add: ld8_def)
    moreover have "sint (0 - d) \<noteq> 0" using Nil Cons sint_zero [of "0 - d"] by simp
    moreover have "sint (0 - d) < 0" if "d < 0x80"
      using sint_diff_ascii [of 0 d] that Nil Cons by (simp add: word_less_def [symmetric] word_greater_zero_iff uint_0_iff order_less_le)
    ultimately show ?thesis using Cons by auto
  next
    case t: Nil
    then show ?thesis using Nil strcmp_step [of m p 0 q 0] by (simp add: ld8_def)
  qed
next
  case (Cons c s)
  show ?case
  proof (cases t)
    case Nil
    then have "strcmp m p q = Ok (sint (c - 0))" using Cons.prems strcmp_step [of m p c q 0] by (simp add: ld8_def)
    then show ?thesis using Nil Cons.prems sint_diff_ascii [of c 0] sint_zero [of c] by auto
  next
    case t: (Cons d t')
    show ?thesis
    proof (cases "c = d")
      case True
      then have "strcmp m p q = strcmp m (p + 1) (q + 1)" using t Cons.prems strcmp_step [of m p c q d] by (simp add: ld8_def)
      then show ?thesis using Cons.IH [of "p + 1" "q + 1" t'] Cons.prems t True by auto
    next
      case False
      then have "strcmp m p q = Ok (sint (c - d))" using t Cons.prems strcmp_step [of m p c q d] by (simp add: ld8_def)
      moreover have "sint (c - d) \<noteq> 0" using False sint_zero [of "c - d"] by simp
      ultimately show ?thesis using t False sint_diff_ascii [of c d] by (auto simp: word_less_def)
    qed
  qed
qed

section \<open>Properties\<close>

text \<open>
  C30: \<open>memmove\<close> copies an area as it was before the call, however the two areas overlap, and touches
  nothing else.
\<close>

theorem memmove_overlap:
  assumes "dest + n \<le> length m" and "src + n \<le> length m"
  shows "memmove m dest src n = Ok (mem_write m dest (mem_read m src n))"
proof -
  obtain m' where "memmove m dest src n = Ok m'" "moved m dest src n m'"
    using memcpy_moved [OF assms] memmove_down_moved [OF assms] by (cases "dest \<le> src") (auto simp: memmove_def)
  then show ?thesis using moved_mem_write assms by simp
qed

theorem memmove_overlap_witness:
  "memmove [1, 2, 3, 4, 5] 1 0 3 = Ok [1, 1, 2, 3, 5] \<and> memmove [1, 2, 3, 4, 5] 0 1 3 = Ok [2, 3, 4, 4, 5]"
  using memmove_overlap [of 1 3 "[1, 2, 3, 4, 5]" 0] memmove_overlap [of 0 3 "[1, 2, 3, 4, 5]" 1]
  by (simp add: mem_write_def mem_read_def eval_nat_numeral)

text \<open>
  C34: \<open>strlcpy\<close> into a buffer of \<open>siz\<close> bytes leaves there the terminated string, cut to what fits, writes
  nothing outside of the buffer, and returns the length of the source, so that a result of at least
  \<open>siz\<close> tells that it was cut.
\<close>

theorem strlcpy_bounded:
  assumes "cstr m src s" and "0 < siz" and "dest + siz \<le> length m" and "dest + siz \<le> src \<or> src + length s < dest"
  shows "\<exists>m'. strlcpy m dest src siz = Ok (m', length s) \<and> length m' = length m \<and> cstr m' dest (take (siz - 1) s)
    \<and> (\<forall>i < length m. i < dest \<or> dest + siz \<le> i \<longrightarrow> m' ! i = m ! i)"
proof -
  let ?n = "if length s \<ge> siz then siz - 1 else length s"
  have n: "?n \<le> length s" "?n < siz" "take ?n s = take (siz - 1) s" using assms(2) by auto
  obtain m1 m2 where "memcpy m dest src ?n = Ok m1" "st8 m1 (dest + ?n) 0 = Ok m2" "length m2 = length m"
    "cstr m2 dest (take ?n s)" "\<forall>i < length m. i < dest \<or> dest + ?n < i \<longrightarrow> m2 ! i = m ! i"
    using copy_terminate [OF assms(1) n(1), of dest] assms(3,4) n(2) by auto
  then show ?thesis using strlen_cstr [OF assms(1)] assms(2) n by (auto simp: strlcpy_def Let_def)
qed

theorem strlcpy_bounded_witness:
  "\<exists>m'. strlcpy [9, 9, 9, 9, 0x61, 0x62, 0x63, 0x64, 0] 0 4 3 = Ok (m', 4) \<and> cstr m' 0 [0x61, 0x62] \<and> m' ! 3 = 9"
proof -
  have "cstr [9, 9, 9, 9, 0x61, 0x62, 0x63, 0x64, 0] 4 [0x61, 0x62, 0x63, 0x64]" by code_simp
  from strlcpy_bounded [OF this, of 3 0] show ?thesis by (auto simp: eval_nat_numeral)
qed

text \<open>
  C35: on terminated strings \<open>strcmp\<close> returns, is 0 exactly for equal strings, and orders strings of 7-bit
  characters lexicographically.
\<close>

theorem strcmp_order:
  assumes "cstr m p s" and "cstr m q t"
  shows "\<exists>r. strcmp m p q = Ok r \<and> (r = 0 \<longleftrightarrow> s = t)
    \<and> ((\<forall>c \<in> set s \<union> set t. c < 0x80) \<longrightarrow> (r < 0 \<longleftrightarrow> ord_class.lexordp s t))"
  by (rule strcmp_cstr [OF assms])

theorem strcmp_order_witness:
  "\<exists>r. strcmp [0x61, 0x62, 0, 0x61, 0x63, 0] 0 3 = Ok r \<and> r < 0"
proof -
  have "cstr [0x61, 0x62, 0, 0x61, 0x63, 0] 0 [0x61, 0x62]" "cstr [0x61, 0x62, 0, 0x61, 0x63, 0] 3 [0x61, 0x63]" by code_simp+
  from strcmp_order [OF this] show ?thesis by auto
qed

text \<open>Beyond 7 bits the difference does not fit a \<open>signed char\<close>, and the order is not transitive.\<close>

lemma strcmp_wraps:
  "strcmp [0x01, 0, 0x60, 0, 0xC0, 0] 0 2 = Ok (- 95) \<and> strcmp [0x01, 0, 0x60, 0, 0xC0, 0] 2 4 = Ok (- 96)
   \<and> strcmp [0x01, 0, 0x60, 0, 0xC0, 0] 0 4 = Ok 65"
  by code_simp

end
