(* ===== verification/Rtc.thy ===== *)
theory Rtc
  imports KPrelude
begin

text \<open>
  The calendar of the real-time clock, \<open>drivers/rtc/rtc-lib.c\<close>, and \<open>mktime\<close> of \<open>kernel/time.c\<close>. The
  conversion to a date starts from a 32-bit time and no number in it leaves the range of \<open>int\<close>; \<open>mktime\<close>
  computes with \<open>unsigned\<close> numbers that may wrap around.
\<close>

section \<open>Tables\<close>

record rtc_time =
  tm_sec :: int
  tm_min :: int
  tm_hour :: int
  tm_mday :: int
  tm_mon :: int
  tm_year :: int
  tm_wday :: int
  tm_yday :: int

definition rtc_days_in_month :: "int list" where
  "rtc_days_in_month = [31, 28, 31, 30, 31, 30, 31, 31, 30, 31, 30, 31]"

definition rtc_ydays :: "int list list" where
  "rtc_ydays =
     [[0, 31, 59, 90, 120, 151, 181, 212, 243, 273, 304, 334, 365],
      [0, 31, 60, 91, 121, 152, 182, 213, 244, 274, 305, 335, 366]]"

definition LEAPS_THRU_END_OF :: "int \<Rightarrow> int" where
  "LEAPS_THRU_END_OF y = y div 4 - y div 100 + y div 400"

definition LEAP_YEAR :: "int \<Rightarrow> int" where
  "LEAP_YEAR year = (if year mod 4 = 0 \<and> year mod 100 \<noteq> 0 \<or> year mod 400 = 0 then 1 else 0)"

definition rtc_month_days :: "nat \<Rightarrow> int \<Rightarrow> int" where
  "rtc_month_days month year = rtc_days_in_month ! month + (if LEAP_YEAR year = 1 \<and> month = 1 then 1 else 0)"

definition rtc_year_days :: "int \<Rightarrow> nat \<Rightarrow> int \<Rightarrow> int" where
  "rtc_year_days day month year = rtc_ydays ! nat (LEAP_YEAR year) ! month + day - 1"

section \<open>Conversions\<close>

text \<open>The loop over the months: the month and the days left in it.\<close>

function month_loop :: "nat \<Rightarrow> int \<Rightarrow> int \<Rightarrow> nat \<times> int" where
  "month_loop month days year =
     (if month < 11
      then let newdays = days - rtc_month_days month year
           in if newdays < 0 then (month, days) else month_loop (month + 1) newdays year
      else (month, days))"
  by auto
termination
  by (relation "measure (\<lambda>(month, days, year). 11 - month)") auto

declare month_loop.simps [simp del]

definition rtc_time_to_tm :: "ulong \<Rightarrow> rtc_time" where
  "rtc_time_to_tm t =
     (let days = uint t div 86400;
          time = uint t - days * 86400;
          wday = (days + 4) mod 7;
          year = 1970 + days div 365;
          days = days - ((year - 1970) * 365 + LEAPS_THRU_END_OF (year - 1) - LEAPS_THRU_END_OF (1970 - 1));
          (year, days) = (if days < 0 then (year - 1, days + (365 + LEAP_YEAR (year - 1))) else (year, days));
          (month, mdays) = month_loop 0 days year;
          hour = time div 3600;
          time = time - hour * 3600;
          min = time div 60
      in \<lparr>tm_sec = time - min * 60, tm_min = min, tm_hour = hour, tm_mday = mdays + 1, tm_mon = int month,
          tm_year = year - 1900, tm_wday = wday, tm_yday = days + 1\<rparr>)"

definition rtc_valid_tm :: "rtc_time \<Rightarrow> unit kres" where
  "rtc_valid_tm tm =
     (if tm_year tm < 70 \<or> tm_mon tm < 0 \<or> tm_mon tm \<ge> 12 \<or> tm_mday tm < 1
         \<or> tm_mday tm > rtc_month_days (nat (tm_mon tm)) (tm_year tm + 1900)
         \<or> tm_hour tm < 0 \<or> tm_hour tm \<ge> 24 \<or> tm_min tm < 0 \<or> tm_min tm \<ge> 60
         \<or> tm_sec tm < 0 \<or> tm_sec tm \<ge> 60
      then Err EINVAL else Ok ())"

definition mktime :: "u32 \<Rightarrow> u32 \<Rightarrow> u32 \<Rightarrow> u32 \<Rightarrow> u32 \<Rightarrow> u32 \<Rightarrow> ulong" where
  "mktime year0 mon0 day hour mn sec =
     (let mon = mon0 - 2;
          (mon, year) = (if sint mon \<le> 0 then (mon + 12, year0 - 1) else (mon, year0))
      in (((year div 4 - year div 100 + year div 400 + 367 * mon div 12 + day + year * 365 - 719499)
           * 24 + hour) * 60 + mn) * 60 + sec)"

definition rtc_tm_to_time :: "rtc_time \<Rightarrow> ulong" where
  "rtc_tm_to_time tm =
     mktime (word_of_int (tm_year tm + 1900)) (word_of_int (tm_mon tm + 1)) (word_of_int (tm_mday tm))
       (word_of_int (tm_hour tm)) (word_of_int (tm_min tm)) (word_of_int (tm_sec tm))"

section \<open>Years\<close>

text \<open>Days from 1 January 1970 to the start of a year.\<close>

definition year_start :: "int \<Rightarrow> int" where
  "year_start y = (y - 1970) * 365 + LEAPS_THRU_END_OF (y - 1) - LEAPS_THRU_END_OF (1970 - 1)"

lemma div_step: "0 < k \<Longrightarrow> y div k = (y - 1) div k + (if y mod k = 0 then 1 else 0)" for y k :: int
proof -
  assume k: "0 < k"
  have y: "y = k * (y div k) + y mod k" by simp
  show ?thesis
  proof (cases "y mod k = 0")
    case True
    then have "y - 1 = k * (y div k - 1) + (k - 1)" using y by (simp add: algebra_simps)
    then have "(y - 1) div k = y div k - 1" using k int_div_pos_eq [of "y - 1" k "y div k - 1" "k - 1"] by simp
    then show ?thesis using True by simp
  next
    case False
    then have "0 \<le> y mod k - 1" "y mod k - 1 < k" using k pos_mod_sign [of k y] pos_mod_bound [of k y] by linarith+
    moreover have "y - 1 = k * (y div k) + (y mod k - 1)" using y by simp
    ultimately have "(y - 1) div k = y div k" using int_div_pos_eq [of "y - 1" k "y div k" "y mod k - 1"] by simp
    then show ?thesis using False by simp
  qed
qed

lemma leaps_step: "LEAPS_THRU_END_OF y = LEAPS_THRU_END_OF (y - 1) + LEAP_YEAR y"
proof -
  have i: "400 dvd y \<Longrightarrow> 100 dvd y" "100 dvd y \<Longrightarrow> 4 dvd y"
    by (rule dvd_trans [of 100 400 y], simp, assumption) (rule dvd_trans [of 4 100 y], simp, assumption)
  have e: "y div 4 = (y - 1) div 4 + (if 4 dvd y then 1 else 0)" "y div 100 = (y - 1) div 100 + (if 100 dvd y then 1 else 0)"
    "y div 400 = (y - 1) div 400 + (if 400 dvd y then 1 else 0)"
    unfolding mod_eq_0_iff_dvd [symmetric] by (rule div_step; simp)+
  have "a + (if P then 1 else 0) - (b + (if Q then 1 else 0)) + (c + (if R then 1 else 0))
      = a - b + c + (if P \<and> \<not> Q \<or> R then 1 else 0)" if "R \<Longrightarrow> Q" "Q \<Longrightarrow> P" for a b c :: int and P Q R
    using that by auto
  from this [OF i] show ?thesis unfolding LEAPS_THRU_END_OF_def LEAP_YEAR_def e mod_eq_0_iff_dvd .
qed

lemma year_start_step: "year_start (y + 1) = year_start y + 365 + LEAP_YEAR y"
  using leaps_step [of y] by (simp add: year_start_def)

lemma leap_01: "LEAP_YEAR y = 0 \<or> LEAP_YEAR y = 1"
  by (simp add: LEAP_YEAR_def)

lemma leaps_mono: "y \<le> z \<Longrightarrow> LEAPS_THRU_END_OF y \<le> LEAPS_THRU_END_OF z"
proof (induction z rule: int_ge_induct)
  case (step z)
  then show ?case using leaps_step [of "z + 1"] leap_01 [of "z + 1"] by auto
qed simp

text \<open>The first guess of the year, from years of 365 days, is right or one too late.\<close>

lemma year_guess:
  assumes d: "0 \<le> d" "d < 50000" and y: "y = 1970 + d div 365"
  shows "year_start (y - 1) \<le> d" and "d < year_start (y + 1)"
proof -
  define q where "q = d div 365"
  have q: "0 \<le> q" "q \<le> 136" "365 * q \<le> d" "d < 365 * q + 365" using d by (auto simp: q_def)
  have L: "LEAPS_THRU_END_OF (1970 + q - 2) - LEAPS_THRU_END_OF 1969 \<le> 365" "0 \<le> LEAPS_THRU_END_OF (1970 + q) - LEAPS_THRU_END_OF 1969"
    using leaps_mono [of "1970 + q - 2" 2104] leaps_mono [of 1969 "1970 + q"] q(1,2) by (simp_all add: LEAPS_THRU_END_OF_def)
  show "year_start (y - 1) \<le> d" "d < year_start (y + 1)" using L q y by (auto simp: year_start_def q_def algebra_simps)
qed

section \<open>Months\<close>

definition ydays :: "int \<Rightarrow> nat \<Rightarrow> int" where
  "ydays year month = rtc_ydays ! nat (LEAP_YEAR year) ! month"

lemma ydays_step: "month < 12 \<Longrightarrow> ydays year (Suc month) = ydays year month + rtc_month_days month year"
  using leap_01 [of year] by (auto simp: ydays_def rtc_ydays_def rtc_month_days_def rtc_days_in_month_def less_Suc_eq numeral_eq_Suc)

lemma month_loop_spec:
  assumes "month \<le> 11" and "ydays year month \<le> n" and "n < ydays year 12"
  shows "\<exists>m. month_loop month (n - ydays year month) year = (m, n - ydays year m) \<and> m \<le> 11 \<and> ydays year m \<le> n \<and> n < ydays year (Suc m)"
  using assms
proof (induction "11 - month" arbitrary: month)
  case 0
  then have "month = 11" by simp
  moreover have "ydays year (Suc 11) = ydays year 12" by simp
  ultimately show ?case using 0 by (intro exI [of _ 11]) (simp add: month_loop.simps [of 11])
next
  case (Suc k)
  have lt: "month < 11" using Suc.hyps(2) by simp
  have st: "ydays year (Suc month) = ydays year month + rtc_month_days month year" using Suc.hyps(2) by (intro ydays_step) simp
  show ?case
  proof (cases "n < ydays year (Suc month)")
    case True
    then have "month_loop month (n - ydays year month) year = (month, n - ydays year month)"
      using st Suc.hyps(2) by (simp add: month_loop.simps [of month] Let_def)
    then show ?thesis using True Suc.prems by blast
  next
    case False
    then have "month_loop month (n - ydays year month) year = month_loop (Suc month) (n - ydays year (Suc month)) year"
      using st lt by (subst month_loop.simps) (simp add: Let_def algebra_simps)
    then show ?thesis using Suc.hyps(1) [of "Suc month"] Suc.hyps(2) Suc.prems(3) False by auto
  qed
qed

lemma ydays_12: "ydays year 0 = 0" "ydays year 12 = 365 + LEAP_YEAR year"
  using leap_01 [of year] by (auto simp: ydays_def rtc_ydays_def)

lemma word_div_int:
  assumes "0 \<le> a" and "a < 2 ^ 32" and "0 \<le> b" and "b < 2 ^ 32"
  shows "(word_of_int a :: u32) div word_of_int b = word_of_int (a div b)"
  using assms by (simp add: word_div_def uint_word_of_int)

text \<open>The number of a day by Gauss' formula, from the month and year that \<open>mktime\<close> computes.\<close>

definition gauss_days :: "int \<Rightarrow> int \<Rightarrow> int \<Rightarrow> int" where
  "gauss_days year mon day = LEAPS_THRU_END_OF year + 367 * mon div 12 + day + year * 365 - 719499"

lemma gauss_word:
  assumes "0 \<le> year" and "year < 10000" and "0 \<le> mon" and "mon \<le> 12"
  shows "(word_of_int year div 4 - word_of_int year div 100 + word_of_int year div 400 + 367 * word_of_int mon div 12
    + word_of_int day + word_of_int year * 365 - 719499 :: u32) = word_of_int (gauss_days year mon day)"
proof -
  have y: "word_of_int year div 4 = (word_of_int (year div 4) :: u32)" "word_of_int year div 100 = (word_of_int (year div 100) :: u32)"
    "word_of_int year div 400 = (word_of_int (year div 400) :: u32)"
    using word_div_int [of year 4] word_div_int [of year 100] word_div_int [of year 400] assms(1,2) by simp_all
  have "367 * word_of_int mon = (word_of_int (367 * mon) :: u32)" by simp
  then have m: "367 * word_of_int mon div 12 = (word_of_int (367 * mon div 12) :: u32)"
    using word_div_int [of "367 * mon" 12] assms(3,4) by simp
  show ?thesis unfolding y m gauss_days_def LEAPS_THRU_END_OF_def by simp
qed

lemma gauss_ydays:
  assumes "m < 12"
  shows "ydays y m = (if m < 2 then 367 * (int m + 11) div 12 - 336 else 367 * (int m - 1) div 12 + LEAP_YEAR y + 29)"
proof -
  have "m = 0 \<or> m = 1 \<or> m = 2 \<or> m = 3 \<or> m = 4 \<or> m = 5 \<or> m = 6 \<or> m = 7 \<or> m = 8 \<or> m = 9 \<or> m = 10 \<or> m = 11"
    using assms by arith
  moreover have "nat (LEAP_YEAR y) = 0 \<and> LEAP_YEAR y = 0 \<or> nat (LEAP_YEAR y) = Suc 0 \<and> LEAP_YEAR y = 1" using leap_01 [of y] by auto
  ultimately show ?thesis unfolding ydays_def rtc_ydays_def by (elim disjE conjE) (simp_all)
qed

lemma gauss_month:
  assumes "m < 12"
  shows "gauss_days (if m < 2 then y - 1 else y) (if m < 2 then int m + 11 else int m - 1) day = year_start y + ydays y m + day - 1"
proof -
  have "LEAPS_THRU_END_OF 1969 = 477" by (simp add: LEAPS_THRU_END_OF_def)
  then show ?thesis using leaps_step [of y] gauss_ydays [OF assms, of y]
    by (cases "m < 2") (simp_all add: gauss_days_def year_start_def)
qed

lemma mktime_gauss:
  assumes "m < 12" and "1970 \<le> y" and "y < 2200"
  shows "mktime (word_of_int y) (word_of_int (int m + 1)) (word_of_int day) (word_of_int h) (word_of_int mn) (word_of_int s)
    = word_of_int (((gauss_days (if m < 2 then y - 1 else y) (if m < 2 then int m + 11 else int m - 1) day * 24 + h) * 60 + mn) * 60 + s)"
proof -
  let ?y = "if m < 2 then y - 1 else y" and ?m = "if m < 2 then int m + 11 else int m - 1"
  have c: "(word_of_int (int m + 1) - 2 :: u32) = word_of_int (int m - 1)" by simp
  have "sint (word_of_int (int m - 1) :: u32) = int m - 1"
    using assms(1) unfolding sint_sbintrunc' by (intro signed_take_bit_int_eq_self) simp_all
  then have "mktime (word_of_int y) (word_of_int (int m + 1)) (word_of_int day) (word_of_int h) (word_of_int mn) (word_of_int s)
      = (((word_of_int ?y div 4 - word_of_int ?y div 100 + word_of_int ?y div 400 + 367 * word_of_int ?m div 12
          + word_of_int day + word_of_int ?y * 365 - 719499) * 24 + word_of_int h) * 60 + word_of_int mn) * 60 + word_of_int s"
    unfolding mktime_def Let_def c by (cases "m < 2") (simp_all add: add.commute)
  also have "\<dots> = ((word_of_int (gauss_days ?y ?m day) * 24 + word_of_int h) * 60 + word_of_int mn) * 60 + word_of_int s"
    using assms by (subst gauss_word) auto
  also have "\<dots> = word_of_int (((gauss_days ?y ?m day * 24 + h) * 60 + mn) * 60 + s)" by simp
  finally show ?thesis .
qed

section \<open>Properties\<close>

text \<open>What \<open>rtc_time_to_tm\<close> finds: the date of the day and the time of the day.\<close>

lemma time_to_tm_spec:
  defines "tm t \<equiv> rtc_time_to_tm t"
  shows "\<exists>y m. tm_year (tm t) = y - 1900 \<and> 1970 \<le> y \<and> y < 2200 \<and> tm_mon (tm t) = int m \<and> m < 12
    \<and> uint t div 86400 = year_start y + tm_yday (tm t) - 1 \<and> tm_yday (tm t) = ydays y m + tm_mday (tm t)
    \<and> 1 \<le> tm_mday (tm t) \<and> tm_mday (tm t) \<le> rtc_month_days m y
    \<and> tm_hour (tm t) = uint t mod 86400 div 3600
    \<and> tm_min (tm t) = (uint t mod 86400 - tm_hour (tm t) * 3600) div 60
    \<and> tm_sec (tm t) = uint t mod 86400 - tm_hour (tm t) * 3600 - tm_min (tm t) * 60"
proof -
  define d where "d = uint t div 86400"
  define y0 where "y0 = 1970 + d div 365"
  have d: "0 \<le> d" "d < 50000" using uint_bounded [of t] uint_ge_0 [of t] unfolding d_def by (simp_all add: pos_imp_zdiv_nonneg_iff)
  note g = year_guess [OF d y0_def]
  define y where "y = (if d - year_start y0 < 0 then y0 - 1 else y0)"
  define n where "n = (if d - year_start y0 < 0 then d - year_start y0 + (365 + LEAP_YEAR (y0 - 1)) else d - year_start y0)"
  have n: "n = d - year_start y" using year_start_step [of "y0 - 1"] by (simp add: n_def y_def)
  have b: "0 \<le> n" "n < 365 + LEAP_YEAR y"
    using g year_start_step [of "y0 - 1"] year_start_step [of y0] by (auto simp: n_def y_def split: if_splits)
  have yb: "1970 \<le> y" "y < 2200"
  proof -
    have "year_start 1970 = 0" by (simp add: year_start_def)
    then have "d - year_start y0 < 0 \<Longrightarrow> y0 \<noteq> 1970" using d by auto
    moreover have "1970 \<le> y0" "y0 < 2200" using d by (auto simp: y0_def pos_imp_zdiv_nonneg_iff)
    ultimately show "1970 \<le> y" "y < 2200" by (auto simp: y_def)
  qed
  obtain m where m: "month_loop 0 n y = (m, n - ydays y m)" "m \<le> 11" "ydays y m \<le> n" "n < ydays y (Suc m)"
    using month_loop_spec [of 0 y n] b ydays_12 [of y] by auto
  have ifeq: "(if d - year_start y0 < 0 then (y0 - 1, d - year_start y0 + (365 + LEAP_YEAR (y0 - 1))) else (y0, d - year_start y0)) = (y, n)"
    by (simp add: y_def n_def)
  have e: "tm_year (tm t) = y - 1900" "tm_mon (tm t) = int m" "tm_mday (tm t) = n - ydays y m + 1" "tm_yday (tm t) = n + 1"
    "tm_hour (tm t) = (uint t - d * 86400) div 3600" "tm_min (tm t) = (uint t - d * 86400 - tm_hour (tm t) * 3600) div 60"
    "tm_sec (tm t) = uint t - d * 86400 - tm_hour (tm t) * 3600 - tm_min (tm t) * 60"
    unfolding tm_def rtc_time_to_tm_def Let_def d_def [symmetric] y0_def [symmetric] year_start_def [symmetric] ifeq prod.case m(1)
    by (simp_all only: rtc_time.simps)
  have r: "uint t - d * 86400 = uint t mod 86400" unfolding d_def by (rule minus_div_mult_eq_mod)
  have "uint t div 86400 = year_start y + tm_yday (tm t) - 1" unfolding d_def [symmetric] e(4) n by simp
  moreover have "tm_yday (tm t) = ydays y m + tm_mday (tm t)" unfolding e(3,4) by simp
  moreover have "m < 12" "1 \<le> tm_mday (tm t)" "tm_mday (tm t) \<le> rtc_month_days m y"
    using m(2-4) ydays_step [of m y] unfolding e(3) by simp_all
  ultimately show ?thesis using e(1,2) e(5-7) [unfolded r] yb by blast
qed

lemma seconds_sum: "s = r - h * 3600 - mn * 60 \<Longrightarrow> 86400 * d + r = u \<Longrightarrow> ((d * 24 + h) * 60 + mn) * 60 + s = u" for u :: int
  by (simp add: algebra_simps)

text \<open>
  C14: converting any 32-bit time to a date and back gives the time again, and the date is a valid one.
  Its day of the year counts from 1, one more than \<open>rtc_year_days\<close> of the date.
\<close>

theorem rtc_round_trip:
  "rtc_tm_to_time (rtc_time_to_tm t) = t \<and> rtc_valid_tm (rtc_time_to_tm t) = Ok ()
   \<and> tm_yday (rtc_time_to_tm t)
       = rtc_year_days (tm_mday (rtc_time_to_tm t)) (nat (tm_mon (rtc_time_to_tm t))) (tm_year (rtc_time_to_tm t) + 1900) + 1"
proof -
  let ?tm = "rtc_time_to_tm t" and ?r = "uint t mod 86400"
  obtain y m where s: "tm_year ?tm = y - 1900" "1970 \<le> y" "y < 2200" "tm_mon ?tm = int m" "m < 12"
    "uint t div 86400 = year_start y + tm_yday ?tm - 1" "tm_yday ?tm = ydays y m + tm_mday ?tm"
    "1 \<le> tm_mday ?tm" "tm_mday ?tm \<le> rtc_month_days m y"
    and h: "tm_hour ?tm = ?r div 3600" "tm_min ?tm = (?r - tm_hour ?tm * 3600) div 60"
    "tm_sec ?tm = ?r - tm_hour ?tm * 3600 - tm_min ?tm * 60" using time_to_tm_spec [of t] by blast
  have r: "0 \<le> ?r" "?r < 86400" by simp_all
  then have b: "0 \<le> tm_hour ?tm" "tm_hour ?tm < 24" unfolding h(1) by (simp_all add: pos_imp_zdiv_nonneg_iff)
  have "0 \<le> ?r - tm_hour ?tm * 3600" "?r - tm_hour ?tm * 3600 < 3600" unfolding h(1) by (simp_all add: minus_div_mult_eq_mod)
  then have b': "0 \<le> tm_min ?tm" "tm_min ?tm < 60" unfolding h(2) by (simp_all add: pos_imp_zdiv_nonneg_iff)
  have "tm_sec ?tm = (?r - tm_hour ?tm * 3600) mod 60" unfolding h(3) h(2) by (simp add: minus_div_mult_eq_mod)
  then have "0 \<le> tm_sec ?tm" "tm_sec ?tm < 60" by simp_all
  then have "rtc_valid_tm ?tm = Ok ()" using s b b' by (simp add: rtc_valid_tm_def)
  moreover have "rtc_tm_to_time ?tm = word_of_int (((gauss_days (if m < 2 then y - 1 else y) (if m < 2 then int m + 11 else int m - 1) (tm_mday ?tm)
      * 24 + tm_hour ?tm) * 60 + tm_min ?tm) * 60 + tm_sec ?tm)"
    unfolding rtc_tm_to_time_def s(4) using mktime_gauss [OF s(5,2,3)] s(1) by simp
  moreover have "((uint t div 86400 * 24 + tm_hour ?tm) * 60 + tm_min ?tm) * 60 + tm_sec ?tm = uint t"
    by (rule seconds_sum [OF h(3) mult_div_mod_eq])
  moreover have "gauss_days (if m < 2 then y - 1 else y) (if m < 2 then int m + 11 else int m - 1) (tm_mday ?tm) = uint t div 86400"
    unfolding gauss_month [OF s(5)] using s(6,7) by simp
  moreover have "tm_yday ?tm = rtc_year_days (tm_mday ?tm) (nat (tm_mon ?tm)) (tm_year ?tm + 1900) + 1"
    unfolding s(7) s(4) s(1) rtc_year_days_def ydays_def by simp
  ultimately show ?thesis by (simp only: word_of_int_uint simp_thms)
qed

end
