(* ===== verification/Heap_Order.thy ===== *)
theory Heap_Order
  imports KPrelude
begin

text \<open>
  Binary heaps in an array, for any total preorder: the heap order, the order broken at one place on
  the way down or up, and the repair by one exchange. \<open>lib/sort.c\<close> and \<open>lib/prio_heap.c\<close> both work
  this way; the order is what they promise of their comparison argument.
\<close>

section \<open>Heap order\<close>

definition exch :: "'a list \<Rightarrow> nat \<Rightarrow> nat \<Rightarrow> 'a list" where
  "exch xs i j = xs[i := xs ! j, j := xs ! i]"

lemma length_exch [simp]: "length (exch xs i j) = length xs"
  by (simp add: exch_def)

lemma nth_exch: "i < length xs \<Longrightarrow> j < length xs \<Longrightarrow> exch xs i j ! k = (if k = j then xs ! i else if k = i then xs ! j else xs ! k)"
  by (auto simp: exch_def nth_list_update)

lemma mset_exch: "i < length xs \<Longrightarrow> j < length xs \<Longrightarrow> mset (exch xs i j) = mset xs"
  unfolding exch_def by (rule mset_swap)

lemma take_exch: "i < n \<Longrightarrow> j < n \<Longrightarrow> n \<le> length xs \<Longrightarrow> take n (exch xs i j) = exch (take n xs) i j"
  by (simp add: exch_def take_update_swap)

lemma drop_exch: "i < n \<Longrightarrow> j < n \<Longrightarrow> drop n (exch xs i j) = drop n xs"
  by (simp add: exch_def)

definition par :: "nat \<Rightarrow> nat" where
  "par i = (i - 1) div 2"

lemma par_child: "0 < i \<Longrightarrow> par i = r \<longleftrightarrow> i = 2 * r + 1 \<or> i = 2 * r + 2"
  by (auto simp: par_def)

lemma par_less: "0 < i \<Longrightarrow> par i < i"
  by (auto simp: par_def)

text \<open>\<open>is_heap le xs lo n\<close>: among the first \<open>n\<close> elements, none is above its parent from index \<open>lo\<close> on.\<close>

definition is_heap :: "('a \<Rightarrow> 'a \<Rightarrow> bool) \<Rightarrow> 'a list \<Rightarrow> nat \<Rightarrow> nat \<Rightarrow> bool" where
  "is_heap le xs lo n \<longleftrightarrow> (\<forall>i. 0 < i \<and> i < n \<and> lo \<le> par i \<longrightarrow> le (xs ! i) (xs ! par i))"

text \<open>Broken between \<open>r\<close> and its children, respectively between \<open>r\<close> and its parent.\<close>

definition heap_but_down :: "('a \<Rightarrow> 'a \<Rightarrow> bool) \<Rightarrow> 'a list \<Rightarrow> nat \<Rightarrow> nat \<Rightarrow> nat \<Rightarrow> bool" where
  "heap_but_down le xs lo n r \<longleftrightarrow>
     (\<forall>i. 0 < i \<and> i < n \<and> lo \<le> par i \<and> par i \<noteq> r \<longrightarrow> le (xs ! i) (xs ! par i))
     \<and> (\<forall>i. 0 < i \<and> i < n \<and> par i = r \<and> 0 < r \<and> lo \<le> par r \<longrightarrow> le (xs ! i) (xs ! par r))"

definition heap_but_up :: "('a \<Rightarrow> 'a \<Rightarrow> bool) \<Rightarrow> 'a list \<Rightarrow> nat \<Rightarrow> nat \<Rightarrow> bool" where
  "heap_but_up le xs n r \<longleftrightarrow>
     (\<forall>i. 0 < i \<and> i < n \<and> i \<noteq> r \<longrightarrow> le (xs ! i) (xs ! par i))
     \<and> (\<forall>i. 0 < i \<and> i < n \<and> par i = r \<and> 0 < r \<longrightarrow> le (xs ! i) (xs ! par r))"

lemma heap_down_done:
  assumes "heap_but_down le xs lo n r" and "\<And>i. 0 < i \<Longrightarrow> i < n \<Longrightarrow> par i = r \<Longrightarrow> le (xs ! i) (xs ! r)"
  shows "is_heap le xs lo n"
  using assms unfolding is_heap_def heap_but_down_def by blast

lemma heap_up_done:
  assumes "heap_but_up le xs n r" and "r = 0 \<or> le (xs ! r) (xs ! par r)"
  shows "is_heap le xs 0 n"
  using assms unfolding is_heap_def heap_but_up_def by blast

text \<open>What a step keeps: the elements among the first \<open>n\<close> and the rest of the array.\<close>

definition same_front :: "nat \<Rightarrow> 'a list \<Rightarrow> 'a list \<Rightarrow> bool" where
  "same_front n xs ys \<longleftrightarrow> length ys = length xs \<and> mset (take n ys) = mset (take n xs) \<and> drop n ys = drop n xs"

lemma same_front_refl: "same_front n xs xs"
  by (simp add: same_front_def)

lemma same_front_trans: "same_front n xs ys \<Longrightarrow> same_front n ys zs \<Longrightarrow> same_front n xs zs"
  by (simp add: same_front_def)

lemma same_front_exch: "i < n \<Longrightarrow> j < n \<Longrightarrow> n \<le> length xs \<Longrightarrow> same_front n xs (exch xs i j)"
  by (simp add: same_front_def take_exch mset_exch drop_exch)

lemma same_front_set: "same_front n xs ys \<Longrightarrow> set (take n ys) = set (take n xs)"
  by (metis same_front_def set_mset_mset)

lemma same_front_mono: "same_front n xs ys \<Longrightarrow> n \<le> k \<Longrightarrow> same_front k xs ys"
proof -
  assume a: "same_front n xs ys" "n \<le> k"
  have "take k zs = take n zs @ take (k - n) (drop n zs)" "drop k zs = drop (k - n) (drop n zs)" for zs :: "'a list"
    using a(2) take_add [of n "k - n" zs] by simp_all
  then show ?thesis using a(1) unfolding same_front_def by (metis mset_append)
qed

locale total_le =
  fixes le :: "'a \<Rightarrow> 'a \<Rightarrow> bool"
  assumes total: "le a b \<or> le b a"
    and trans: "le a b \<Longrightarrow> le b c \<Longrightarrow> le a c"
begin

lemma refl: "le a a"
  using total by blast

lemma heap_root:
  "is_heap le xs 0 n \<Longrightarrow> i < n \<Longrightarrow> le (xs ! i) (xs ! 0)"
proof (induction i rule: less_induct)
  case (less i)
  show ?case
  proof (cases "i = 0")
    case False
    then have "le (xs ! i) (xs ! par i)" "par i < i" using less.prems par_less by (auto simp: is_heap_def)
    then show ?thesis using less.IH [of "par i"] less.prems trans by (meson less_trans)
  qed (simp add: refl)
qed

lemma heap_down_step:
  assumes h: "heap_but_down le xs lo n r" and c: "0 < c" "c < n" "par c = r" and n: "n \<le> length xs" and lo: "lo \<le> r"
    and big: "\<And>d. 0 < d \<Longrightarrow> d < n \<Longrightarrow> par d = r \<Longrightarrow> le (xs ! d) (xs ! c)" and up: "le (xs ! r) (xs ! c)"
  shows "heap_but_down le (exch xs r c) lo n c"
proof -
  have rc: "r < c" "r < length xs" "c < length xs" using par_less [OF c(1)] c n by auto
  note nth = nth_exch [OF rc(2,3)]
  have h1: "le (xs ! i) (xs ! par i)" if "0 < i" "i < n" "lo \<le> par i" "par i \<noteq> r" for i
    using h that by (simp add: heap_but_down_def)
  have h2: "le (xs ! i) (xs ! par r)" if "0 < i" "i < n" "par i = r" "0 < r" "lo \<le> par r" for i
    using h that by (simp add: heap_but_down_def)
  have "le (exch xs r c ! i) (exch xs r c ! par i)" if i: "0 < i" "i < n" "lo \<le> par i" "par i \<noteq> c" for i
  proof (cases "par i = r")
    case True
    then have "i \<noteq> r" using par_less [OF i(1)] by auto
    then show ?thesis using True big [OF i(1,2)] up rc(1) by (auto simp: nth)
  next
    case False
    then have "i \<noteq> c" using c(3) by auto
    show ?thesis
    proof (cases "i = r")
      case True
      then show ?thesis using h2 [OF c(1,2,3)] i False rc(1) par_less [OF i(1)] by (auto simp: nth)
    next
      case False
      then show ?thesis using h1 [OF i(1,2,3)] \<open>par i \<noteq> r\<close> \<open>i \<noteq> c\<close> i(4) by (simp add: nth)
    qed
  qed
  moreover have "le (exch xs r c ! i) (exch xs r c ! par c)" if "0 < i" "i < n" "par i = c" for i
    using h1 [of i] that par_less [of i] rc(1) c(3) lo by (simp add: nth)
  ultimately show ?thesis by (simp add: heap_but_down_def)
qed

lemma heap_up_step:
  assumes h: "heap_but_up le xs n r" and r: "0 < r" "r < n" and n: "n \<le> length xs" and up: "le (xs ! par r) (xs ! r)"
  shows "heap_but_up le (exch xs r (par r)) n (par r)"
proof -
  let ?p = "par r"
  have pr: "?p < r" "?p < length xs" "r < length xs" using par_less [OF r(1)] r n by auto
  note nth = nth_exch [OF pr(3,2)]
  have h1: "le (xs ! i) (xs ! par i)" if "0 < i" "i < n" "i \<noteq> r" for i using h that by (simp add: heap_but_up_def)
  have h2: "le (xs ! i) (xs ! ?p)" if "0 < i" "i < n" "par i = r" for i using h that r by (simp add: heap_but_up_def)
  have "le (exch xs r ?p ! i) (exch xs r ?p ! par i)" if i: "0 < i" "i < n" "i \<noteq> ?p" for i
  proof (cases "i = r")
    case True
    then show ?thesis using up pr(1) by (simp add: nth)
  next
    case False
    consider "par i = r" | "par i = ?p" "par i \<noteq> r" | "par i \<noteq> r" "par i \<noteq> ?p" by blast
    then show ?thesis
    proof cases
      case 1
      then show ?thesis using h2 [OF i(1,2)] False i(3) pr(1) by (simp add: nth)
    next
      case 2
      then have "le (xs ! i) (xs ! r)" using h1 [OF i(1,2) False] up trans [of "xs ! i" "xs ! ?p" "xs ! r"] by simp
      then show ?thesis using 2 False i(3) by (simp add: nth)
    next
      case 3
      then show ?thesis using h1 [OF i(1,2) False] False i(3) by (simp add: nth)
    qed
  qed
  moreover have "le (exch xs r ?p ! i) (exch xs r ?p ! par ?p)" if i: "0 < i" "i < n" "par i = ?p" "0 < ?p" for i
  proof -
    have pp: "par ?p < ?p" by (rule par_less [OF i(4)])
    have t: "le (xs ! ?p) (xs ! par ?p)" using h1 [of ?p] i(4) pr(1) r(2) by simp
    show ?thesis
    proof (cases "i = r")
      case True
      then show ?thesis using t pp pr(1) by (simp add: nth)
    next
      case False
      then have "le (xs ! i) (xs ! par ?p)" using h1 [OF i(1,2) False] i(3) t trans [of "xs ! i" "xs ! ?p" "xs ! par ?p"] by simp
      then show ?thesis using False pp pr(1) par_less [OF i(1)] i(3) by (simp add: nth)
    qed
  qed
  ultimately show ?thesis by (simp add: heap_but_up_def)
qed

end

end
