(* ===== verification/Sort_Extable.thy ===== *)
theory Sort_Extable
  imports Heap_Order
begin

text \<open>
  The heap sort of \<open>lib/sort.c\<close> and its use for exception tables, \<open>lib/extable.c\<close>. As in the source the
  counters of \<open>sort\<close> are byte offsets, multiples of the element size; the array is a list of elements.
  \<open>cmp_func\<close> is an argument. The counters are \<open>int\<close>: the array is smaller than 2 GB.
\<close>

section \<open>Sorting\<close>

text \<open>\<open>generic_swap\<close> on the bytes of memory; \<open>n\<close> is \<open>size - 1\<close>, the rounds after the first.\<close>

fun generic_swap :: "u8 list \<Rightarrow> nat \<Rightarrow> nat \<Rightarrow> nat \<Rightarrow> u8 list" where
  "generic_swap m a b n =
     (let t = m ! a; m = m[a := m ! b]; m = m[b := t]
      in case n of 0 \<Rightarrow> m | Suc n \<Rightarrow> generic_swap m (a + 1) (b + 1) n)"

declare generic_swap.simps [simp del]

lemma generic_swap_areas:
  assumes "a + n < b" and "b + n < length m"
  shows "length (generic_swap m a b n) = length m \<and> (\<forall>i < length m. generic_swap m a b n ! i =
    (if a \<le> i \<and> i \<le> a + n then m ! (b + (i - a)) else if b \<le> i \<and> i \<le> b + n then m ! (a + (i - b)) else m ! i))"
  using assms
proof (induction n arbitrary: m a b)
  case 0
  then show ?case by (simp add: generic_swap.simps [of m a b 0] nth_list_update)
next
  case (Suc n)
  let ?m = "m[a := m ! b, b := m ! a]"
  have e: "generic_swap m a b (Suc n) = generic_swap ?m (a + 1) (b + 1) n" by (subst generic_swap.simps) (simp add: Let_def)
  note IH = Suc.IH [of "a + 1" "b + 1" ?m]
  have "generic_swap m a b (Suc n) ! i =
      (if a \<le> i \<and> i \<le> a + Suc n then m ! (b + (i - a)) else if b \<le> i \<and> i \<le> b + Suc n then m ! (a + (i - b)) else m ! i)"
    if i: "i < length m" for i
  proof -
    consider "i = a" | "i = b" | "i \<noteq> a" "i \<noteq> b" by blast
    then show ?thesis
    proof cases
      case 3
      have "?m ! (b + 1 + (i - (a + 1))) = m ! (b + (i - a))" if "a + 1 \<le> i" "i \<le> a + 1 + n"
        using that Suc.prems by (auto simp: nth_list_update Suc_diff_le [symmetric])
      moreover have "?m ! (a + 1 + (i - (b + 1))) = m ! (a + (i - b))" if "b + 1 \<le> i" "i \<le> b + 1 + n"
        using that Suc.prems by (auto simp: nth_list_update Suc_diff_le [symmetric])
      ultimately show ?thesis using IH Suc.prems i 3 by (auto simp: e)
    qed (use IH Suc.prems i in \<open>auto simp: e\<close>)
  qed
  then show ?case using IH Suc.prems by (simp add: e)
qed

text \<open>\<open>swap_func\<close> on elements at byte offsets, whichever of the two functions it is.\<close>

definition swap_func :: "nat \<Rightarrow> 'a list \<Rightarrow> nat \<Rightarrow> nat \<Rightarrow> 'a list" where
  "swap_func siz base a b = exch base (a div siz) (b div siz)"

text \<open>The inner loop, the same in both phases.\<close>

function sort_sift :: "('a \<Rightarrow> 'a \<Rightarrow> int) \<Rightarrow> nat \<Rightarrow> 'a list \<Rightarrow> nat \<Rightarrow> nat \<Rightarrow> 'a list" where
  "sort_sift cmp siz base n r =
     (if r * 2 + siz < n \<and> 0 < siz
      then let c = r * 2 + siz;
               c = (if c < n - siz \<and> cmp (base ! (c div siz)) (base ! ((c + siz) div siz)) < 0 then c + siz else c)
           in if cmp (base ! (r div siz)) (base ! (c div siz)) \<ge> 0 then base
              else sort_sift cmp siz (swap_func siz base r c) n c
      else base)"
  by auto
termination
  by (relation "measure (\<lambda>(cmp, siz, base, n, r). n - r)") (auto split: if_splits)

declare sort_sift.simps [simp del]

text \<open>The first phase from \<open>i = (k - 1) * size\<close> down to 0, the second from \<open>i = k * size\<close> down to 1.\<close>

fun heapify_loop :: "('a \<Rightarrow> 'a \<Rightarrow> int) \<Rightarrow> nat \<Rightarrow> 'a list \<Rightarrow> nat \<Rightarrow> nat \<Rightarrow> 'a list" where
  "heapify_loop cmp siz base n 0 = base"
| "heapify_loop cmp siz base n (Suc k) = heapify_loop cmp siz (sort_sift cmp siz base n (k * siz)) n k"

fun sort_loop :: "('a \<Rightarrow> 'a \<Rightarrow> int) \<Rightarrow> nat \<Rightarrow> 'a list \<Rightarrow> nat \<Rightarrow> 'a list" where
  "sort_loop cmp siz base 0 = base"
| "sort_loop cmp siz base (Suc k) =
     (let i = Suc k * siz; base = swap_func siz base 0 i; base = sort_sift cmp siz base i 0
      in sort_loop cmp siz base k)"

definition ksort :: "('a \<Rightarrow> 'a \<Rightarrow> int) \<Rightarrow> nat \<Rightarrow> 'a list \<Rightarrow> nat \<Rightarrow> 'a list" where
  "ksort cmp siz base num =
     (let n = num * siz; base = heapify_loop cmp siz base n (num div 2)
      in sort_loop cmp siz base (num - 1))"

section \<open>Exception tables\<close>

record exception_table_entry =
  insn :: ulong
  fixup :: ulong

definition cmp_ex :: "exception_table_entry \<Rightarrow> exception_table_entry \<Rightarrow> int" where
  "cmp_ex x y = (if insn x > insn y then 1 else if insn x < insn y then - 1 else 0)"

definition sort_extable :: "exception_table_entry list \<Rightarrow> exception_table_entry list" where
  "sort_extable tab = ksort cmp_ex 8 tab (length tab)"

text \<open>
  \<open>first\<close> and \<open>last\<close> as indices; \<open>last\<close> can be one below \<open>first\<close>, and is kept one higher than in the source
  so that it stays a natural number.
\<close>

function search_loop :: "exception_table_entry list \<Rightarrow> nat \<Rightarrow> nat \<Rightarrow> ulong \<Rightarrow> nat option" where
  "search_loop tab first last1 value =
     (if first < last1
      then let mid = (last1 - 1 - first) div 2 + first
           in if insn (tab ! mid) < value then search_loop tab (mid + 1) last1 value
              else if insn (tab ! mid) > value then search_loop tab first mid value
              else Some mid
      else None)"
  by auto
termination
  by (relation "measure (\<lambda>(tab, first, last1, value). last1 - first)") auto

declare search_loop.simps [simp del]

definition search_extable :: "exception_table_entry list \<Rightarrow> ulong \<Rightarrow> exception_table_entry option" where
  "search_extable tab value = map_option (\<lambda>i. tab ! i) (search_loop tab 0 (length tab) value)"

section \<open>The sort on elements\<close>

text \<open>\<open>sort_sift\<close> with the counters divided by the element size.\<close>

function sift :: "('a \<Rightarrow> 'a \<Rightarrow> int) \<Rightarrow> 'a list \<Rightarrow> nat \<Rightarrow> nat \<Rightarrow> 'a list" where
  "sift cmp xs n r =
     (if 2 * r + 1 < n
      then let c = (if 2 * r + 2 < n \<and> cmp (xs ! (2 * r + 1)) (xs ! (2 * r + 2)) < 0 then 2 * r + 2 else 2 * r + 1)
           in if cmp (xs ! r) (xs ! c) \<ge> 0 then xs else sift cmp (exch xs r c) n c
      else xs)"
  by auto
termination
  by (relation "measure (\<lambda>(cmp, xs, n, r). n - r)") (auto split: if_splits)

declare sift.simps [simp del]

lemma sort_sift_sift:
  assumes "0 < siz"
  shows "sort_sift cmp siz xs (n * siz) (r * siz) = sift cmp xs n r"
proof (induction cmp xs n r rule: sift.induct)
  case (1 cmp xs n r)
  have c1: "r * siz * 2 + siz = (2 * r + 1) * siz" "(2 * r + 1) * siz + siz = (2 * r + 2) * siz" by (simp_all add: algebra_simps)
  have lt: "(2 * r + 1) * siz < n * siz \<longleftrightarrow> 2 * r + 1 < n" "(2 * r + 1) * siz < n * siz - siz \<longleftrightarrow> 2 * r + 2 < n"
  proof -
    show "(2 * r + 1) * siz < n * siz \<longleftrightarrow> 2 * r + 1 < n" using assms by (simp only: mult_less_cancel2 simp_thms)
    have "(2 * r + 1) * siz < n * siz - siz \<longleftrightarrow> (2 * r + 2) * siz < n * siz" unfolding less_diff_conv c1(2) ..
    then show "(2 * r + 1) * siz < n * siz - siz \<longleftrightarrow> 2 * r + 2 < n" using assms by (simp only: mult_less_cancel2 simp_thms)
  qed
  have dv: "k * siz div siz = k" for k using assms by simp
  show ?case
  proof (cases "2 * r + 1 < n")
    case False
    then show ?thesis unfolding sort_sift.simps [of cmp siz xs "n * siz" "r * siz"] sift.simps [of cmp xs n r] c1 lt by simp
  next
    case True
    let ?c = "if 2 * r + 2 < n \<and> cmp (xs ! (2 * r + 1)) (xs ! (2 * r + 2)) < 0 then 2 * r + 2 else 2 * r + 1"
    have cc: "(if 2 * r + 2 < n \<and> cmp (xs ! (2 * r + 1)) (xs ! (2 * r + 2)) < 0 then (2 * r + 2) * siz else (2 * r + 1) * siz) = ?c * siz"
      by simp
    show ?thesis
      unfolding sort_sift.simps [of cmp siz xs "n * siz" "r * siz"] sift.simps [of cmp xs n r] c1 lt Let_def dv cc swap_func_def
      using 1 [OF True refl] True assms by simp
  qed
qed

section \<open>Correctness, for any comparison with an order behind it\<close>

locale cmp_order = total_le le for le :: "'a \<Rightarrow> 'a \<Rightarrow> bool" +
  fixes cmp :: "'a \<Rightarrow> 'a \<Rightarrow> int"
  assumes cmp_neg: "cmp a b < 0 \<Longrightarrow> le a b"
    and cmp_nonneg: "0 \<le> cmp a b \<Longrightarrow> le b a"
begin

lemma sift_correct:
  assumes "heap_but_down le xs lo n r" and "lo \<le> r" and "n \<le> length xs"
  shows "is_heap le (sift cmp xs n r) lo n \<and> same_front n xs (sift cmp xs n r)"
  using assms
proof (induction "n - r" arbitrary: xs r rule: less_induct)
  case less
  show ?case
  proof (cases "2 * r + 1 < n")
    case False
    then have "is_heap le xs lo n" using less.prems(1) by (intro heap_down_done [where r = r]) (auto simp: par_child)
    then show ?thesis using False by (simp add: sift.simps [of cmp xs n r] same_front_refl)
  next
    case True
    define c where "c = (if 2 * r + 2 < n \<and> cmp (xs ! (2 * r + 1)) (xs ! (2 * r + 2)) < 0 then 2 * r + 2 else 2 * r + 1)"
    have c: "0 < c" "c < n" "par c = r" "r < c" using True by (auto simp: c_def par_def)
    have big: "le (xs ! d) (xs ! c)" if "0 < d" "d < n" "par d = r" for d
    proof -
      have "d = 2 * r + 1 \<or> d = 2 * r + 2" using that par_child by auto
      then show ?thesis using that cmp_neg [of "xs ! (2 * r + 1)" "xs ! (2 * r + 2)"] cmp_nonneg [of "xs ! (2 * r + 1)" "xs ! (2 * r + 2)"] refl
        by (auto simp: c_def not_less)
    qed
    have sf: "sift cmp xs n r = (if cmp (xs ! r) (xs ! c) \<ge> 0 then xs else sift cmp (exch xs r c) n c)"
      using True by (subst sift.simps) (simp only: c_def [symmetric] Let_def if_True)
    show ?thesis
    proof (cases "cmp (xs ! r) (xs ! c) \<ge> 0")
      case True
      then have "le (xs ! d) (xs ! r)" if "0 < d" "d < n" "par d = r" for d using big [OF that] cmp_nonneg trans by blast
      then have "is_heap le xs lo n" using less.prems(1) heap_down_done by blast
      then show ?thesis using True by (simp add: sf same_front_refl)
    next
      case False
      then have "le (xs ! r) (xs ! c)" by (intro cmp_neg) simp
      then have "heap_but_down le (exch xs r c) lo n c"
        using heap_down_step [OF less.prems(1) c(1-3) less.prems(3,2) big] by blast
      then have IH: "is_heap le (sift cmp (exch xs r c) n c) lo n \<and> same_front n (exch xs r c) (sift cmp (exch xs r c) n c)"
        using less.hyps [of c "exch xs r c"] less.prems c by simp
      have "same_front n xs (exch xs r c)" using c less.prems(3) by (intro same_front_exch) auto
      then show ?thesis using IH False same_front_trans by (auto simp: sf)
    qed
  qed
qed

lemma heapify_correct:
  assumes "0 < siz" and "is_heap le xs k n" and "n \<le> length xs"
  shows "is_heap le (heapify_loop cmp siz xs (n * siz) k) 0 n \<and> same_front n xs (heapify_loop cmp siz xs (n * siz) k)"
  using assms(2,3)
proof (induction k arbitrary: xs)
  case (Suc k)
  have "heap_but_down le xs k n k" using Suc.prems(1) par_less [of k] by (auto simp: heap_but_down_def is_heap_def)
  then have s: "is_heap le (sift cmp xs n k) k n" "same_front n xs (sift cmp xs n k)"
    using sift_correct [of xs k n k] Suc.prems(2) by auto
  then show ?case using Suc.IH [of "sift cmp xs n k"] Suc.prems(2) same_front_trans sort_sift_sift [OF assms(1), of cmp xs n k]
    by (auto simp: same_front_def)
qed (simp add: same_front_refl)

text \<open>The state between two rounds of the second phase: a heap of \<open>n\<close> below a sorted rest.\<close>

definition split_at :: "nat \<Rightarrow> nat \<Rightarrow> 'a list \<Rightarrow> bool" where
  "split_at n num xs \<longleftrightarrow> is_heap le xs 0 n \<and> sorted_wrt le (drop n (take num xs))
     \<and> (\<forall>x \<in> set (take n xs). \<forall>y \<in> set (drop n (take num xs)). le x y)"

lemma sort_round:
  assumes sp: "split_at (Suc n) num xs" and n: "Suc n \<le> num" "num \<le> length xs"
  defines "ys \<equiv> sift cmp (exch xs 0 n) n 0"
  shows "split_at n num ys \<and> same_front num xs ys"
proof -
  let ?zs = "exch xs 0 n"
  have l: "0 < length xs" "n < length xs" using n by auto
  note nth = nth_exch [OF l]
  have h: "is_heap le xs 0 (Suc n)" using sp by (simp add: split_at_def)
  have "heap_but_down le ?zs 0 n 0"
    using h par_less by (auto simp: heap_but_down_def is_heap_def nth) (metis less_SucI less_irrefl less_trans)+
  then have s: "is_heap le ys 0 n" "same_front n ?zs ys" using sift_correct [of ?zs 0 n 0] n by (auto simp: ys_def)
  have dr: "drop n ys = drop n ?zs" "length ys = length xs" using s(2) by (auto simp: same_front_def)
  have "drop n ?zs = xs ! 0 # drop (Suc n) xs" using l by (simp add: Cons_nth_drop_Suc [symmetric] nth) (simp add: exch_def)
  then have rest: "drop n (take num ys) = xs ! 0 # drop (Suc n) (take num xs)"
    using dr n by (simp add: drop_take take_Cons' Suc_diff_Suc)
  have fr: "x \<in> set (take (Suc n) xs)" if x: "x \<in> set (take n ys)" for x
  proof -
    have "x \<in> set (take n ?zs)" using x same_front_set [OF s(2)] by simp
    then have "x \<in> set (take (Suc n) ?zs)" using set_take_subset_set_take [of n "Suc n" ?zs] by auto
    then show ?thesis using same_front_set [OF same_front_exch [of 0 "Suc n" n xs]] n by simp
  qed
  have top: "le x (xs ! 0)" if x: "x \<in> set (take (Suc n) xs)" for x
    using x heap_root [OF h] by (auto simp: in_set_conv_nth)
  have x0: "xs ! 0 \<in> set (take (Suc n) xs)" using l n by (auto simp: in_set_conv_nth intro!: exI [of _ 0])
  have "split_at n num ys" unfolding split_at_def rest
    using s(1) sp top x0 fr by (auto simp: split_at_def)
  moreover have "same_front num xs ?zs" using same_front_mono [OF same_front_exch [of 0 "Suc n" n xs]] n by simp
  then have "same_front num xs ys" using same_front_trans same_front_mono [OF s(2)] n by (meson Suc_leD)
  ultimately show ?thesis by blast
qed

lemma sort_loop_correct:
  assumes "0 < siz" and "split_at (Suc k) num xs" and "Suc k \<le> num" and "num \<le> length xs"
  shows "split_at 1 num (sort_loop cmp siz xs k) \<and> same_front num xs (sort_loop cmp siz xs k)"
  using assms(2-4)
proof (induction k arbitrary: xs)
  case (Suc k)
  let ?ys = "sift cmp (exch xs 0 (Suc k)) (Suc k) 0"
  have r: "split_at (Suc k) num ?ys" "same_front num xs ?ys" using sort_round [OF Suc.prems] by auto
  have "sort_loop cmp siz xs (Suc k) = sort_loop cmp siz ?ys k"
    using sort_sift_sift [OF assms(1), of cmp "exch xs 0 (Suc k)" "Suc k" 0] assms(1) by (simp add: Let_def swap_func_def)
  then show ?case using Suc.IH [OF r(1)] r(2) Suc.prems same_front_trans [OF r(2)] by (simp add: same_front_def)
qed (simp add: same_front_refl)

lemma split_at_1: "split_at 1 num zs \<Longrightarrow> 0 < num \<Longrightarrow> sorted_wrt le (take num zs)"
  by (cases zs; cases num) (auto simp: split_at_def)

lemma ksort_correct:
  assumes "0 < siz" and "num \<le> length xs"
  shows "sorted_wrt le (take num (ksort cmp siz xs num)) \<and> same_front num xs (ksort cmp siz xs num)"
proof (cases num)
  case 0
  then show ?thesis by (simp add: ksort_def same_front_refl)
next
  case (Suc k)
  let ?ys = "heapify_loop cmp siz xs (num * siz) (num div 2)"
  have "is_heap le xs (num div 2) num" by (auto simp: is_heap_def par_def)
  then have h: "is_heap le ?ys 0 num" "same_front num xs ?ys" using heapify_correct [OF assms(1) _ assms(2)] by auto
  then have "split_at (Suc k) num ?ys" using Suc by (simp add: split_at_def)
  then have s: "split_at 1 num (sort_loop cmp siz ?ys k)" "same_front num ?ys (sort_loop cmp siz ?ys k)"
    using sort_loop_correct [OF assms(1), of k num ?ys] h(2) Suc assms(2) by (auto simp: same_front_def)
  let ?zs = "sort_loop cmp siz ?ys k"
  have e: "ksort cmp siz xs num = ?zs" using Suc by (simp add: ksort_def Let_def)
  have "sorted_wrt le (take num ?zs)" by (rule split_at_1 [OF s(1)]) (simp add: Suc)
  then show ?thesis using e same_front_trans [OF h(2) s(2)] by simp
qed

end

section \<open>The exception tables\<close>

definition ex_le :: "exception_table_entry \<Rightarrow> exception_table_entry \<Rightarrow> bool" where
  "ex_le x y \<longleftrightarrow> insn x \<le> insn y"

interpretation ex: cmp_order ex_le cmp_ex
  by unfold_locales (auto simp: ex_le_def cmp_ex_def split: if_splits)

lemma search_loop_spec:
  assumes "sorted_wrt ex_le tab" and "last1 \<le> length tab"
  shows "case search_loop tab first last1 value of
      Some i \<Rightarrow> first \<le> i \<and> i < last1 \<and> insn (tab ! i) = value
    | None \<Rightarrow> \<forall>i. first \<le> i \<and> i < last1 \<longrightarrow> insn (tab ! i) \<noteq> value"
  using assms(2)
proof (induction "last1 - first" arbitrary: first last1 rule: less_induct)
  case less
  define mid where "mid = (last1 - 1 - first) div 2 + first"
  have e: "search_loop tab first last1 value = (if first < last1
      then if insn (tab ! mid) < value then search_loop tab (mid + 1) last1 value
        else if insn (tab ! mid) > value then search_loop tab first mid value else Some mid
      else None)"
    by (subst search_loop.simps) (simp add: mid_def Let_def)
  have ord: "insn (tab ! i) \<le> insn (tab ! j)" if "i \<le> j" "j < length tab" for i j
    using assms(1) that by (cases "i = j") (auto simp: sorted_wrt_iff_nth_less ex_le_def)
  show ?case
  proof (cases "first < last1")
    case True
    then have mid: "first \<le> mid" "mid < last1" by (auto simp: mid_def)
    consider "insn (tab ! mid) < value" | "insn (tab ! mid) > value" | "insn (tab ! mid) = value" by force
    then show ?thesis
    proof cases
      case 1
      have n: "insn (tab ! i) \<noteq> value" if "first \<le> i" "i \<le> mid" for i using ord [OF that(2)] mid(2) less.prems 1 by auto
      have "last1 - (mid + 1) < last1 - first" using mid by linarith
      note IH = less.hyps [OF this less.prems]
      have eq: "search_loop tab first last1 value = search_loop tab (mid + 1) last1 value" using e True 1 by simp
      then show ?thesis
      proof (cases "search_loop tab (mid + 1) last1 value")
        case None
        then have "insn (tab ! i) \<noteq> value" if "first \<le> i" "i < last1" for i using IH n [of i] that by (cases "i \<le> mid") auto
        then show ?thesis using None eq by simp
      qed (use IH mid in auto)
    next
      case 2
      have n: "insn (tab ! i) \<noteq> value" if "mid \<le> i" "i < last1" for i using ord [OF that(1)] that(2) less.prems 2 by auto
      have "mid - first < last1 - first" "mid \<le> length tab" using mid less.prems by linarith+
      note IH = less.hyps [OF this]
      have eq: "search_loop tab first last1 value = search_loop tab first mid value" using e True 2 by auto
      then show ?thesis
      proof (cases "search_loop tab first mid value")
        case None
        then have "insn (tab ! i) \<noteq> value" if "first \<le> i" "i < last1" for i using IH n [of i] that by (cases "mid \<le> i") auto
        then show ?thesis using None eq by simp
      qed (use IH mid in auto)
    next
      case 3
      then show ?thesis using e True mid by simp
    qed
  qed (use e in auto)
qed

section \<open>Properties\<close>

text \<open>
  C19: sorting a table of exceptions permutes it into the order of the instruction addresses, and the
  binary search of the sorted table finds an entry for an address exactly if the table has one.
\<close>

theorem extable_sort_search:
  "sorted_wrt (\<lambda>x y. insn x \<le> insn y) (sort_extable tab) \<and> mset (sort_extable tab) = mset tab
   \<and> (case search_extable (sort_extable tab) addr of
        Some e \<Rightarrow> e \<in> set tab \<and> insn e = addr
      | None \<Rightarrow> addr \<notin> insn ` set tab)"
proof -
  let ?t = "sort_extable tab"
  have c: "sorted_wrt ex_le (take (length tab) ?t)" "same_front (length tab) tab ?t"
    using ex.ksort_correct [of 8 "length tab" tab] by (simp_all add: sort_extable_def)
  then have l: "length ?t = length tab" by (simp add: same_front_def)
  then have so: "sorted_wrt ex_le ?t" and ms: "mset ?t = mset tab" using c by (simp_all add: same_front_def)
  have st: "set ?t = set tab" using ms by (metis set_mset_mset)
  have "case search_extable ?t addr of Some e \<Rightarrow> e \<in> set tab \<and> insn e = addr | None \<Rightarrow> addr \<notin> insn ` set tab"
  proof (cases "search_loop ?t 0 (length ?t) addr")
    case None
    then have "insn e \<noteq> addr" if "e \<in> set ?t" for e
      using search_loop_spec [OF so order.refl, of 0 addr] that by (auto simp: in_set_conv_nth)
    then show ?thesis using None st by (auto simp: search_extable_def)
  next
    case (Some i)
    then have "i < length ?t" "insn (?t ! i) = addr" using search_loop_spec [OF so order.refl, of 0 addr] by auto
    then show ?thesis using Some st nth_mem [of i ?t] by (simp add: search_extable_def)
  qed
  then show ?thesis using so ms by (simp add: ex_le_def [abs_def])
qed

text \<open>
  C12: with a comparison that has a total order behind it, \<open>sort\<close> of the first \<open>num\<close> elements of an array
  leaves them sorted, a permutation of what they were, and the rest of the array untouched, for any
  element size.
\<close>

theorem ksort_sorts:
  assumes "\<forall>a b. le a b \<or> le b a" and "\<forall>a b c. le a b \<longrightarrow> le b c \<longrightarrow> le a c"
    and "\<forall>a b. cmp a b < 0 \<longrightarrow> le a b" and "\<forall>a b. 0 \<le> cmp a b \<longrightarrow> le b a"
    and "0 < siz" and "num \<le> length base"
  shows "sorted_wrt le (take num (ksort cmp siz base num))
    \<and> mset (take num (ksort cmp siz base num)) = mset (take num base) \<and> drop num (ksort cmp siz base num) = drop num base"
proof -
  have "cmp_order le cmp" using assms(1-4) by unfold_locales blast+
  from cmp_order.ksort_correct [OF this assms(5,6)] show ?thesis by (simp add: same_front_def)
qed

theorem ksort_sorts_witness:
  "sorted_wrt (\<le>) (take 3 (ksort (\<lambda>a b. a - b) 4 [3, 1, 2 :: int] 3))
   \<and> mset (take 3 (ksort (\<lambda>a b. a - b) 4 [3, 1, 2 :: int] 3)) = {#1, 2, 3#}"
proof -
  have "(\<forall>a b :: int. a \<le> b \<or> b \<le> a)" "(\<forall>a b c :: int. a \<le> b \<longrightarrow> b \<le> c \<longrightarrow> a \<le> c)"
    "(\<forall>a b :: int. a - b < 0 \<longrightarrow> a \<le> b)" "(\<forall>a b :: int. 0 \<le> a - b \<longrightarrow> b \<le> a)" "0 < (4 :: nat)" "3 \<le> length [3, 1, 2 :: int]"
    by auto
  from ksort_sorts [OF this] have "sorted_wrt (\<le>) (take 3 (ksort (\<lambda>a b. a - b) 4 [3, 1, 2 :: int] 3))"
    "mset (take 3 (ksort (\<lambda>a b. a - b) 4 [3, 1, 2 :: int] 3)) = mset [3, 1, 2]" by (simp_all only: list.size) (simp add: numeral_eq_Suc)
  then show ?thesis by (simp add: add_mset_commute)
qed

end
