(* ===== verification/Prio_Heap.thy ===== *)
theory Prio_Heap
  imports Heap_Order
begin

text \<open>
  The fixed-size priority heap of \<open>lib/prio_heap.c\<close>, which keeps the smallest elements it has been given.
  The comparison \<open>gt\<close> is an argument; a pointer is 4 bytes wide.
\<close>

record 'a ptr_heap =
  ptrs :: "'a list"
  ph_max :: nat
  ph_size :: nat
  ph_gt :: "'a \<Rightarrow> 'a \<Rightarrow> bool"

text \<open>\<open>mem\<close> is the memory that \<open>kmalloc\<close> returned, as the pointers that fit into it.\<close>

definition heap_init :: "nat \<Rightarrow> ('a \<Rightarrow> 'a \<Rightarrow> bool) \<Rightarrow> 'a list option \<Rightarrow> 'a ptr_heap kres" where
  "heap_init siz gt mem =
     (case mem of
        None \<Rightarrow> Err ENOMEM
      | Some m \<Rightarrow> Ok \<lparr>ptrs = m, ph_max = siz div 4, ph_size = 0, ph_gt = gt\<rparr>)"

text \<open>The loop of the insertion: the array and the place for the new element.\<close>

function heap_insert_loop :: "('a \<Rightarrow> 'a \<Rightarrow> bool) \<Rightarrow> 'a \<Rightarrow> 'a list \<Rightarrow> nat \<Rightarrow> 'a list \<times> nat" where
  "heap_insert_loop gt p ps pos =
     (if pos > 0 \<and> gt p (ps ! ((pos - 1) div 2))
      then heap_insert_loop gt p (ps[pos := ps ! ((pos - 1) div 2)]) ((pos - 1) div 2)
      else (ps, pos))"
  by auto
termination
  by (relation "measure (\<lambda>(gt, p, ps, pos). pos)") auto

definition heap_largest :: "('a \<Rightarrow> 'a \<Rightarrow> bool) \<Rightarrow> 'a \<Rightarrow> 'a list \<Rightarrow> nat \<Rightarrow> nat \<Rightarrow> nat" where
  "heap_largest gt p ps n pos =
     (let left = 2 * pos + 1; right = 2 * pos + 2; l = pos;
          l = (if left < n \<and> gt (ps ! left) p then left else l)
      in if right < n \<and> gt (ps ! right) (ps ! l) then right else l)"

text \<open>The loop that pushes the new element down from the root.\<close>

function heap_replace_loop :: "('a \<Rightarrow> 'a \<Rightarrow> bool) \<Rightarrow> 'a \<Rightarrow> 'a list \<Rightarrow> nat \<Rightarrow> nat \<Rightarrow> 'a list" where
  "heap_replace_loop gt p ps n pos =
     (let l = heap_largest gt p ps n pos
      in if l = pos then ps else heap_replace_loop gt p (ps[pos := ps ! l, l := p]) n l)"
  by auto
termination
  by (relation "measure (\<lambda>(gt, p, ps, n, pos). n - pos)") (auto simp: heap_largest_def Let_def split: if_splits)

declare heap_insert_loop.simps [simp del] heap_replace_loop.simps [simp del]

text \<open>A full heap of no elements is one whose \<open>ptrs[0]\<close> is outside its memory: \<open>Bug\<close>.\<close>

definition heap_insert :: "'a ptr_heap \<Rightarrow> 'a \<Rightarrow> ('a ptr_heap \<times> 'a option) kres" where
  "heap_insert heap p =
     (if ph_size heap < ph_max heap
      then let (ps, pos) = heap_insert_loop (ph_gt heap) p (ptrs heap) (ph_size heap)
           in Ok (heap\<lparr>ptrs := ps[pos := p], ph_size := ph_size heap + 1\<rparr>, None)
      else if ph_max heap = 0 then Bug
      else if ph_gt heap p (ptrs heap ! 0) then Ok (heap, Some p)
      else let res = ptrs heap ! 0
           in Ok (heap\<lparr>ptrs := heap_replace_loop (ph_gt heap) p ((ptrs heap)[0 := p]) (ph_size heap) 0\<rparr>, Some res))"

section \<open>Correctness, for a comparison with an order behind it\<close>

definition heap_elems :: "'a ptr_heap \<Rightarrow> 'a multiset" where
  "heap_elems h = mset (take (ph_size h) (ptrs h))"

definition heap_wf :: "'a ptr_heap \<Rightarrow> bool" where
  "heap_wf h \<longleftrightarrow> length (ptrs h) = ph_max h \<and> ph_size h \<le> ph_max h \<and> 0 < ph_max h
     \<and> is_heap (\<lambda>a b. \<not> ph_gt h a b) (ptrs h) 0 (ph_size h)"

text \<open>An insertion exchanges the new element, put at the end or the root, with its parent or child.\<close>

lemma exch_put: "i \<noteq> j \<Longrightarrow> i < length ps \<Longrightarrow> exch (ps[i := p]) i j = ps[i := ps ! j, j := p]"
  by (simp add: exch_def)

locale gt_order =
  fixes gt :: "'a \<Rightarrow> 'a \<Rightarrow> bool"
  assumes gt_asym: "gt a b \<Longrightarrow> \<not> gt b a"
    and gt_neg_trans: "\<not> gt a b \<Longrightarrow> \<not> gt b c \<Longrightarrow> \<not> gt a c"

sublocale gt_order \<subseteq> nle: total_le "\<lambda>a b. \<not> gt a b"
  using gt_asym gt_neg_trans by unfold_locales blast+

context gt_order
begin

lemma heap_insert_loop_spec:
  assumes "pos < n" and "n \<le> length ps" and "heap_but_up (\<lambda>a b. \<not> gt a b) (ps[pos := p]) n pos"
    and "heap_insert_loop gt p ps pos = (ps', pos')"
  shows "is_heap (\<lambda>a b. \<not> gt a b) (ps'[pos' := p]) 0 n \<and> same_front n (ps[pos := p]) (ps'[pos' := p])"
  using assms
proof (induction pos arbitrary: ps rule: less_induct)
  case (less pos)
  let ?q = "par pos"
  show ?case
  proof (cases "pos > 0 \<and> gt p (ps ! ?q)")
    case False
    then have "ps' = ps" "pos' = pos" using less.prems(4) by (auto simp: heap_insert_loop.simps [of gt p ps pos] par_def)
    moreover have "is_heap (\<lambda>a b. \<not> gt a b) (ps[pos := p]) 0 n"
      using False less.prems(1,2) par_less [of pos] by (intro heap_up_done [OF less.prems(3)]) auto
    ultimately show ?thesis by (simp add: same_front_refl)
  next
    case True
    then have q: "?q < pos" using par_less by blast
    let ?qs = "ps[pos := ps ! ?q]"
    have e: "?qs[?q := p] = exch (ps[pos := p]) pos ?q" using q less.prems(1,2) by (simp add: exch_put)
    have "\<not> gt (ps[pos := p] ! ?q) (ps[pos := p] ! pos)" using True q less.prems(1,2) gt_asym by simp
    then have "heap_but_up (\<lambda>a b. \<not> gt a b) (?qs[?q := p]) n ?q"
      unfolding e using nle.heap_up_step [OF less.prems(3)] True less.prems(1,2) by simp
    moreover have "heap_insert_loop gt p ?qs ?q = (ps', pos')"
      using less.prems(4) True by (simp add: heap_insert_loop.simps [of gt p ps pos] par_def)
    ultimately have "is_heap (\<lambda>a b. \<not> gt a b) (ps'[pos' := p]) 0 n \<and> same_front n (?qs[?q := p]) (ps'[pos' := p])"
      using less.IH [OF q, of ?qs] q less.prems(1,2) by simp
    moreover have "same_front n (ps[pos := p]) (?qs[?q := p])"
      unfolding e using q less.prems(1,2) by (intro same_front_exch) auto
    ultimately show ?thesis using same_front_trans by blast
  qed
qed

lemma heap_largest_child:
  assumes "ps ! pos = p" and l_def: "l = heap_largest gt p ps n pos"
  shows "l = pos \<or> 0 < l \<and> l < n \<and> par l = pos \<and> gt (ps ! l) p"
    and "0 < d \<Longrightarrow> d < n \<Longrightarrow> par d = pos \<Longrightarrow> \<not> gt (ps ! d) (ps ! l)"
proof -
  let ?L = "ps ! (2 * pos + 1)" and ?R = "ps ! (2 * pos + 2)"
  have t: "gt ?R p" if "gt ?R ?L" "gt ?L p" using that gt_asym gt_neg_trans by blast
  have u: "\<not> gt ?L ?R" if "gt ?R p" "\<not> gt ?L p" using that gt_asym gt_neg_trans by blast
  have l: "l = (let l = if 2 * pos + 1 < n \<and> gt ?L p then 2 * pos + 1 else pos
      in if 2 * pos + 2 < n \<and> gt ?R (ps ! l) then 2 * pos + 2 else l)"
    by (simp add: l_def heap_largest_def Let_def)
  consider "l = pos" "\<not> (2 * pos + 1 < n \<and> gt ?L p)" "\<not> (2 * pos + 2 < n \<and> gt ?R p)"
    | "l = 2 * pos + 1" "2 * pos + 1 < n" "gt ?L p" "\<not> (2 * pos + 2 < n \<and> gt ?R ?L)"
    | "l = 2 * pos + 2" "2 * pos + 2 < n" "gt ?R p" "\<not> gt ?L ?R"
    using l assms(1) t u gt_asym [of ?R ?L] by (simp add: Let_def split: if_splits)
  note cases = this
  from cases show "l = pos \<or> 0 < l \<and> l < n \<and> par l = pos \<and> gt (ps ! l) p" by cases (simp_all add: par_def)
  assume d: "0 < d" "d < n" "par d = pos"
  then have e: "d = 2 * pos + 1 \<or> d = 2 * pos + 2" using par_child by auto
  from cases show "\<not> gt (ps ! d) (ps ! l)"
    by cases (use e d(2) assms(1) nle.refl [of ?L] nle.refl [of ?R] in auto)
qed

lemma heap_replace_loop_spec:
  assumes "heap_but_down (\<lambda>a b. \<not> gt a b) ps 0 n pos" and "pos < n" and "n \<le> length ps" and "ps ! pos = p"
  shows "is_heap (\<lambda>a b. \<not> gt a b) (heap_replace_loop gt p ps n pos) 0 n \<and> same_front n ps (heap_replace_loop gt p ps n pos)"
  using assms
proof (induction "n - pos" arbitrary: ps pos rule: less_induct)
  case less
  define l where "l = heap_largest gt p ps n pos"
  note c = heap_largest_child [OF less.prems(4) l_def]
  have s: "heap_replace_loop gt p ps n pos = (if l = pos then ps else heap_replace_loop gt p (ps[pos := ps ! l, l := p]) n l)"
    by (subst heap_replace_loop.simps) (simp add: l_def Let_def)
  show ?case
  proof (cases "l = pos")
    case True
    then have "is_heap (\<lambda>a b. \<not> gt a b) ps 0 n" using c(2) by (intro heap_down_done [OF less.prems(1)]) auto
    then show ?thesis using True s by (simp add: same_front_refl)
  next
    case False
    then have l: "0 < l" "l < n" "par l = pos" "gt (ps ! l) p" using c(1) by auto
    have pl: "pos < l" using par_less [OF l(1)] l(3) by simp
    have e: "ps[pos := ps ! l, l := p] = exch ps pos l" using less.prems(4) by (simp add: exch_def)
    have "heap_but_down (\<lambda>a b. \<not> gt a b) (exch ps pos l) 0 n l"
      by (rule nle.heap_down_step [OF less.prems(1) l(1-3) less.prems(3) le0 c(2)]) (use gt_asym [OF l(4)] less.prems(4) in simp_all)
    then have "is_heap (\<lambda>a b. \<not> gt a b) (heap_replace_loop gt p (exch ps pos l) n l) 0 n
        \<and> same_front n (exch ps pos l) (heap_replace_loop gt p (exch ps pos l) n l)"
      using less.hyps [of l "exch ps pos l"] pl l(2) less.prems(2-4) by (simp add: nth_exch)
    moreover have "same_front n ps (exch ps pos l)" using pl l(2) less.prems(3) by (intro same_front_exch) auto
    ultimately show ?thesis using False same_front_trans [of n ps "exch ps pos l"] unfolding s e by simp
  qed
qed

lemma heap_insert_room:
  assumes wf: "heap_wf h" and g: "ph_gt h = gt" and sz: "ph_size h < ph_max h"
  shows "\<exists>h'. heap_insert h p = Ok (h', None) \<and> heap_wf h' \<and> ph_max h' = ph_max h \<and> ph_gt h' = gt
    \<and> heap_elems h' = add_mset p (heap_elems h)"
proof -
  let ?n = "ph_size h" and ?ps = "ptrs h"
  obtain ps' pos' where i: "heap_insert_loop gt p ?ps ?n = (ps', pos')" by fastforce
  have l: "length ?ps = ph_max h" "is_heap (\<lambda>a b. \<not> gt a b) ?ps 0 ?n" using wf g by (auto simp: heap_wf_def)
  have "heap_but_up (\<lambda>a b. \<not> gt a b) (?ps[?n := p]) (Suc ?n) ?n"
    unfolding heap_but_up_def
  proof (intro conjI allI impI)
    fix i
    assume "0 < i \<and> i < Suc ?n \<and> i \<noteq> ?n"
    then show "\<not> gt (?ps[?n := p] ! i) (?ps[?n := p] ! par i)" using l(2) par_less [of i] by (simp add: is_heap_def)
  next
    fix i
    assume "0 < i \<and> i < Suc ?n \<and> par i = ?n \<and> 0 < ?n"
    then show "\<not> gt (?ps[?n := p] ! i) (?ps[?n := p] ! par ?n)" using par_less [of i] by linarith
  qed
  then have s: "is_heap (\<lambda>a b. \<not> gt a b) (ps'[pos' := p]) 0 (Suc ?n)" "same_front (Suc ?n) (?ps[?n := p]) (ps'[pos' := p])"
    using heap_insert_loop_spec [OF _ _ _ i, of "Suc ?n"] sz l(1) by simp_all
  have "take (Suc ?n) (?ps[?n := p]) = take ?n ?ps @ [p]" using sz l(1) by (simp add: take_Suc_conv_app_nth)
  then show ?thesis using s l(1) sz g i
    by (simp add: heap_insert_def heap_wf_def heap_elems_def same_front_def)
qed

lemma heap_insert_full:
  assumes wf: "heap_wf h" and g: "ph_gt h = gt" and sz: "ph_size h = ph_max h"
  shows "\<exists>h' d. heap_insert h p = Ok (h', Some d) \<and> heap_wf h' \<and> ph_max h' = ph_max h \<and> ph_size h' = ph_size h \<and> ph_gt h' = gt
    \<and> add_mset d (heap_elems h') = add_mset p (heap_elems h) \<and> (\<forall>x \<in># heap_elems h'. \<not> gt x d)"
proof -
  let ?n = "ph_size h" and ?ps = "ptrs h"
  have l: "length ?ps = ?n" "is_heap (\<lambda>a b. \<not> gt a b) ?ps 0 ?n" "0 < ?n" using wf g sz by (auto simp: heap_wf_def)
  have el: "heap_elems h = mset ?ps" using l(1) by (simp add: heap_elems_def)
  have top: "\<not> gt x (?ps ! 0)" if "x \<in> set ?ps" for x
    using that nle.heap_root [OF l(2)] l(1) by (auto simp: in_set_conv_nth)
  show ?thesis
  proof (cases "gt p (?ps ! 0)")
    case True
    then have "\<forall>x \<in># heap_elems h. \<not> gt x p" using top gt_asym gt_neg_trans unfolding el by (metis set_mset_mset)
    then show ?thesis using True wf g sz l(3) by (simp add: heap_insert_def)
  next
    case False
    let ?qs = "?ps[0 := p]"
    let ?rs = "heap_replace_loop gt p ?qs ?n 0"
    have "heap_but_down (\<lambda>a b. \<not> gt a b) ?qs 0 ?n 0"
      using l(2) by (auto simp: heap_but_down_def is_heap_def nth_list_update)
    then have s: "is_heap (\<lambda>a b. \<not> gt a b) ?rs 0 ?n" "same_front ?n ?qs ?rs"
      using heap_replace_loop_spec [of ?qs ?n 0] l by auto
    have m: "mset ?rs = mset ?qs" "length ?rs = ?n" using s(2) l(1) by (auto simp: same_front_def)
    obtain y ys where y: "?ps = y # ys" using l(1,3) by (cases ?ps) auto
    have "\<forall>x \<in> set ?qs. \<not> gt x y" using top False y by auto
    then have "\<forall>x \<in># mset ?rs. \<not> gt x y" using m(1) by (metis set_mset_mset)
    then show ?thesis using False s(1) m y g sz l
      by (simp add: heap_insert_def heap_wf_def heap_elems_def Let_def)
  qed
qed

end

text \<open>C21: For a comparison that is a strict weak order, an insertion into a heap keeps the heap order, the
  capacity and the comparison. With room the new element joins the others and nothing is dropped. Of a full
  heap one of the old elements or the new one is dropped, one that none of the remaining ones is greater than.\<close>

theorem heap_insert_keeps_smallest:
  assumes "\<And>a b. ph_gt h a b \<Longrightarrow> \<not> ph_gt h b a" and "\<And>a b c. \<not> ph_gt h a b \<Longrightarrow> \<not> ph_gt h b c \<Longrightarrow> \<not> ph_gt h a c"
    and "heap_wf h"
  shows "\<exists>h' r. heap_insert h p = Ok (h', r) \<and> heap_wf h' \<and> ph_max h' = ph_max h \<and> ph_gt h' = ph_gt h
    \<and> (case r of
         None \<Rightarrow> ph_size h < ph_max h \<and> heap_elems h' = add_mset p (heap_elems h)
       | Some d \<Rightarrow> ph_size h = ph_max h \<and> add_mset d (heap_elems h') = add_mset p (heap_elems h)
           \<and> (\<forall>x \<in># heap_elems h'. \<not> ph_gt h x d))"
proof -
  have o: "gt_order (ph_gt h)" using assms(1,2) by unfold_locales
  consider "ph_size h < ph_max h" | "ph_size h = ph_max h" using assms(3) unfolding heap_wf_def by linarith
  then show ?thesis
  proof cases
    case 1
    then show ?thesis using gt_order.heap_insert_room [OF o assms(3) refl, of p] by fastforce
  next
    case 2
    obtain h' d where "heap_insert h p = Ok (h', Some d)" "heap_wf h'" "ph_max h' = ph_max h" "ph_gt h' = ph_gt h"
      "add_mset d (heap_elems h') = add_mset p (heap_elems h)" "\<forall>x \<in># heap_elems h'. \<not> ph_gt h x d"
      using gt_order.heap_insert_full [OF o assms(3) refl 2, of p] by blast
    then show ?thesis using 2 by auto
  qed
qed

lemma heap_insert_keeps_smallest_witness:
  "\<exists>h' r. heap_insert \<lparr>ptrs = [5 :: nat, 3, 4], ph_max = 3, ph_size = 3, ph_gt = (>)\<rparr> 1 = Ok (h', r)
     \<and> heap_wf h' \<and> r = Some 5 \<and> heap_elems h' = {#1, 3, 4#}"
proof -
  let ?h = "\<lparr>ptrs = [5 :: nat, 3, 4], ph_max = 3, ph_size = 3, ph_gt = (>)\<rparr>"
  have "heap_wf ?h" by (auto simp: heap_wf_def is_heap_def par_def less_Suc_eq numeral_eq_Suc)
  moreover have "map_option snd (case heap_insert ?h 1 of Ok x \<Rightarrow> Some x | _ \<Rightarrow> None) = Some (Some 5)" by code_simp
  ultimately show ?thesis using heap_insert_keeps_smallest [of ?h 1] by (auto simp: heap_elems_def add_mset_commute)
qed

end
