(* ===== verification/Cgroup_Scan.thy ===== *)
theory Cgroup_Scan
  imports Prio_Heap
begin

text \<open>
  The scan over the tasks of a control group of \<open>kernel/cgroup.c\<close>: the iterator over the tasks, the order by
  start time, and \<open>cgroup_scan_tasks\<close>, which gathers the oldest unhandled tasks in a priority heap of fixed
  size and goes round again until a pass finds none. Signed differences are taken in the integers: an
  overflow is undefined in C, and cannot occur between nanosecond fields below one second.
\<close>

record timespec =
  tv_sec :: int
  tv_nsec :: int

definition timespec_compare :: "timespec \<Rightarrow> timespec \<Rightarrow> int" where
  "timespec_compare lhs rhs =
     (if tv_sec lhs < tv_sec rhs then - 1
      else if tv_sec lhs > tv_sec rhs then 1
      else tv_nsec lhs - tv_nsec rhs)"

text \<open>What the scan reads of a task: its address and its start time.\<close>

record task_struct =
  t_addr :: ulong
  start_time :: timespec

definition started_after_time :: "task_struct \<Rightarrow> timespec \<Rightarrow> ulong \<Rightarrow> bool" where
  "started_after_time t1 time t2 =
     (let start_diff = timespec_compare (start_time t1) time
      in if start_diff > 0 then True
         else if start_diff < 0 then False
         else t_addr t1 > t2)"

definition started_after :: "task_struct \<Rightarrow> task_struct \<Rightarrow> bool" where
  "started_after t1 t2 = started_after_time t1 (start_time t2) (t_addr t2)"

section \<open>The iterator\<close>

text \<open>
  A control group is the list of its \<open>css_set\<close>s, each the list of its tasks, as they stand while
  \<open>css_set_lock\<close> is held. A place in the list of sets is a number, 0 for the list head.
\<close>

record cgroup_iter =
  cg_link :: "nat option"
  it_task :: nat

function cgroup_advance_iter :: "task_struct list list \<Rightarrow> nat \<Rightarrow> nat option" where
  "cgroup_advance_iter css_sets l =
     (if length css_sets < l + 1 then None
      else if css_sets ! l = [] then cgroup_advance_iter css_sets (l + 1)
      else Some (l + 1))"
  by auto
termination
  by (relation "measure (\<lambda>(css_sets, l). length css_sets - l)") auto

declare cgroup_advance_iter.simps [simp del]

definition cgroup_iter_start :: "task_struct list list \<Rightarrow> cgroup_iter" where
  "cgroup_iter_start css_sets = \<lparr>cg_link = cgroup_advance_iter css_sets 0, it_task = 0\<rparr>"

definition cgroup_iter_next :: "task_struct list list \<Rightarrow> cgroup_iter \<Rightarrow> task_struct option \<times> cgroup_iter" where
  "cgroup_iter_next css_sets it =
     (case cg_link it of
        None \<Rightarrow> (None, it)
      | Some l \<Rightarrow>
          let tasks = css_sets ! (l - 1); res = tasks ! it_task it
          in (Some res,
              if it_task it + 1 = length tasks
              then \<lparr>cg_link = cgroup_advance_iter css_sets l, it_task = 0\<rparr>
              else it\<lparr>it_task := it_task it + 1\<rparr>))"

section \<open>The scan\<close>

text \<open>
  \<open>'s\<close> is the state that the callbacks of the scanner work on, \<open>usage\<close> the reference counts of the tasks.
\<close>

record 's cgroup_scanner =
  test_task :: "(task_struct \<Rightarrow> 's \<Rightarrow> bool) option"
  process_task :: "task_struct \<Rightarrow> 's \<Rightarrow> 's"
  sc_heap :: "task_struct ptr_heap option"

type_synonym usage = "ulong \<Rightarrow> int"

definition get_task_struct :: "task_struct \<Rightarrow> usage \<Rightarrow> usage" where
  "get_task_struct t u = u(t_addr t := u (t_addr t) + 1)"

definition put_task_struct :: "task_struct \<Rightarrow> usage \<Rightarrow> usage" where
  "put_task_struct t u = u(t_addr t := u (t_addr t) - 1)"

text \<open>One turn of the gathering loop, for the task \<open>p\<close>.\<close>

definition scan_gather ::
  "'s cgroup_scanner \<Rightarrow> 's \<Rightarrow> timespec \<Rightarrow> ulong \<Rightarrow> task_struct ptr_heap \<Rightarrow> usage \<Rightarrow> task_struct
     \<Rightarrow> (task_struct ptr_heap \<times> usage) kres" where
  "scan_gather scan s latest_time latest_task heap usage p =
     (if (case test_task scan of None \<Rightarrow> False | Some test \<Rightarrow> \<not> test p s) then Ok (heap, usage)
      else if \<not> started_after_time p latest_time latest_task then Ok (heap, usage)
      else case heap_insert heap p of
          Ok (heap, None) \<Rightarrow> Ok (heap, get_task_struct p usage)
        | Ok (heap, Some dropped) \<Rightarrow>
            if t_addr dropped \<noteq> t_addr p then Ok (heap, put_task_struct dropped (get_task_struct p usage))
            else Ok (heap, usage)
        | Err e \<Rightarrow> Err e
        | Bug \<Rightarrow> Bug)"

lemma case_kres_mono [partial_function_mono]:
  "(\<And>x. mono_option (\<lambda>f. F f x)) \<Longrightarrow> (\<And>e. mono_option (\<lambda>f. G f e)) \<Longrightarrow> mono_option H
     \<Longrightarrow> mono_option (\<lambda>f. case r of Ok x \<Rightarrow> F f x | Err e \<Rightarrow> G f e | Bug \<Rightarrow> H f)"
  by (cases r) auto

partial_function (option) scan_loop ::
  "task_struct list list \<Rightarrow> 's cgroup_scanner \<Rightarrow> 's \<Rightarrow> timespec \<Rightarrow> ulong \<Rightarrow> cgroup_iter \<Rightarrow> task_struct ptr_heap \<Rightarrow> usage
     \<Rightarrow> (task_struct ptr_heap \<times> usage) kres option" where
  "scan_loop css_sets scan s latest_time latest_task it heap usage =
     (case cgroup_iter_next css_sets it of
        (None, it) \<Rightarrow> Some (Ok (heap, usage))
      | (Some p, it) \<Rightarrow>
          (case scan_gather scan s latest_time latest_task heap usage p of
             Ok (heap, usage) \<Rightarrow> scan_loop css_sets scan s latest_time latest_task it heap usage
           | Err e \<Rightarrow> Some (Err e)
           | Bug \<Rightarrow> Some Bug))"

text \<open>The loop that hands the gathered tasks to the caller.\<close>

fun process_loop :: "'s cgroup_scanner \<Rightarrow> task_struct list \<Rightarrow> 's \<Rightarrow> usage \<Rightarrow> 's \<times> usage" where
  "process_loop scan [] s usage = (s, usage)"
| "process_loop scan (q # qs) s usage = process_loop scan qs (process_task scan q s) (put_task_struct q usage)"

text \<open>
  The passes from the label \<open>again\<close> on. \<open>cg i s\<close> is what the control group holds at the pass \<open>i\<close>, since it
  can change while no lock is held.
\<close>

partial_function (option) scan_again ::
  "(nat \<Rightarrow> 's \<Rightarrow> task_struct list list) \<Rightarrow> 's cgroup_scanner \<Rightarrow> nat \<Rightarrow> timespec \<Rightarrow> ulong \<Rightarrow> task_struct ptr_heap
     \<Rightarrow> 's \<Rightarrow> usage \<Rightarrow> ('s \<times> usage) kres option" where
  "scan_again cg scan i latest_time latest_task heap s usage =
     (case scan_loop (cg i s) scan s latest_time latest_task (cgroup_iter_start (cg i s)) (heap\<lparr>ph_size := 0\<rparr>) usage of
        None \<Rightarrow> None
      | Some r \<Rightarrow>
          (case r of
             Ok (heap, usage) \<Rightarrow>
               if ph_size heap \<noteq> 0
               then let q = ptrs heap ! 0; (s, usage) = process_loop scan (take (ph_size heap) (ptrs heap)) s usage
                    in scan_again cg scan (i + 1) (start_time q) (t_addr q) heap s usage
               else Some (Ok (s, usage))
           | Err e \<Rightarrow> Some (Err e)
           | Bug \<Rightarrow> Some Bug))"

text \<open>\<open>mem\<close> is what \<open>kmalloc\<close> gives for the page of the scan's own heap.\<close>

definition cgroup_scan_tasks ::
  "(nat \<Rightarrow> 's \<Rightarrow> task_struct list list) \<Rightarrow> 's cgroup_scanner \<Rightarrow> task_struct list option \<Rightarrow> 's \<Rightarrow> usage
     \<Rightarrow> ('s \<times> usage) kres option" where
  "cgroup_scan_tasks cg scan mem s usage =
     (let latest_task = 0; latest_time = \<lparr>tv_sec = 0, tv_nsec = 0\<rparr>
      in case sc_heap scan of
           Some heap \<Rightarrow> scan_again cg scan 0 latest_time latest_task (heap\<lparr>ph_gt := started_after\<rparr>) s usage
         | None \<Rightarrow>
             (case heap_init 4096 started_after mem of
                Ok heap \<Rightarrow> scan_again cg scan 0 latest_time latest_task heap s usage
              | Err e \<Rightarrow> Some (Err e)
              | Bug \<Rightarrow> Some Bug))"

section \<open>The order by start time\<close>

lemma started_after_key:
  "started_after a b \<longleftrightarrow> tv_sec (start_time b) < tv_sec (start_time a)
     \<or> tv_sec (start_time a) = tv_sec (start_time b) \<and>
       (tv_nsec (start_time b) < tv_nsec (start_time a)
        \<or> tv_nsec (start_time a) = tv_nsec (start_time b) \<and> t_addr b < t_addr a)"
  by (auto simp: started_after_def started_after_time_def timespec_compare_def Let_def)

interpretation sa: gt_order started_after
  by unfold_locales (auto simp: started_after_key)

lemma started_after_eq: "\<not> started_after a b \<Longrightarrow> \<not> started_after b a \<Longrightarrow> a = b"
  by (auto simp: started_after_key)

section \<open>The iterator visits every task once\<close>

text \<open>The effect of the gathering loop on a plain list of tasks.\<close>

fun gather_list ::
  "'s cgroup_scanner \<Rightarrow> 's \<Rightarrow> timespec \<Rightarrow> ulong \<Rightarrow> task_struct list \<Rightarrow> task_struct ptr_heap \<Rightarrow> usage
     \<Rightarrow> (task_struct ptr_heap \<times> usage) kres" where
  "gather_list scan s lt la [] h u = Ok (h, u)"
| "gather_list scan s lt la (p # ps) h u =
     (case scan_gather scan s lt la h u p of
        Ok (h, u) \<Rightarrow> gather_list scan s lt la ps h u
      | Err e \<Rightarrow> Err e
      | Bug \<Rightarrow> Bug)"

lemma scan_loop_set:
  assumes "l < length css" and "k < length (css ! l)"
    and "\<And>h u. scan_loop css scan s lt la \<lparr>cg_link = cgroup_advance_iter css (l + 1), it_task = 0\<rparr> h u
       = Some (gather_list scan s lt la rest h u)"
  shows "scan_loop css scan s lt la \<lparr>cg_link = Some (l + 1), it_task = k\<rparr> h u
    = Some (gather_list scan s lt la (drop k (css ! l) @ rest) h u)"
  using assms(2)
proof (induction "length (css ! l) - k" arbitrary: k h u rule: less_induct)
  case less
  have d: "drop k (css ! l) = css ! l ! k # drop (k + 1) (css ! l)" using less.prems by (simp add: Cons_nth_drop_Suc)
  show ?case
  proof (cases "k + 1 = length (css ! l)")
    case True
    then show ?thesis unfolding d
      by (subst scan_loop.simps) (simp add: cgroup_iter_next_def Let_def assms(3) [simplified] split: kres.split)
  next
    case False
    then show ?thesis unfolding d using less.hyps [of "k + 1"] less.prems
      by (subst scan_loop.simps) (simp add: cgroup_iter_next_def Let_def split: kres.split)
  qed
qed

lemma scan_loop_from:
  "scan_loop css scan s lt la \<lparr>cg_link = cgroup_advance_iter css l, it_task = 0\<rparr> h u
    = Some (gather_list scan s lt la (concat (drop l css)) h u)"
proof (induction "length css - l" arbitrary: l h u rule: less_induct)
  case less
  show ?case
  proof (cases "l < length css")
    case False
    then show ?thesis
      by (subst scan_loop.simps) (simp add: cgroup_advance_iter.simps [of css l] cgroup_iter_next_def)
  next
    case True
    have IH: "scan_loop css scan s lt la \<lparr>cg_link = cgroup_advance_iter css (l + 1), it_task = 0\<rparr> h u
        = Some (gather_list scan s lt la (concat (drop (l + 1) css)) h u)" for h u
      using less [of "l + 1"] True by simp
    have d: "concat (drop l css) = css ! l @ concat (drop (l + 1) css)"
      using True by (simp add: Cons_nth_drop_Suc [symmetric])
    show ?thesis
    proof (cases "css ! l = []")
      case True
      then show ?thesis using \<open>l < length css\<close> IH d by (simp add: cgroup_advance_iter.simps [of css l])
    next
      case False
      then show ?thesis using scan_loop_set [OF \<open>l < length css\<close> _ IH, of 0] \<open>l < length css\<close> d
        by (simp add: cgroup_advance_iter.simps [of css l])
    qed
  qed
qed

lemma scan_loop_list:
  "scan_loop css scan s lt la (cgroup_iter_start css) h u = Some (gather_list scan s lt la (concat css) h u)"
  using scan_loop_from [of css scan s lt la 0] by (simp add: cgroup_iter_start_def)

section \<open>A pass gathers the oldest tasks\<close>

definition refs :: "task_struct multiset \<Rightarrow> ulong \<Rightarrow> int" where
  "refs M a = int (size {#t \<in># M. t_addr t = a#})"

lemma refs_simps [simp]:
  "refs {#} = (\<lambda>a. 0)"
  "refs (add_mset t M) = (\<lambda>a. refs M a + (if t_addr t = a then 1 else 0))"
  by (auto simp: refs_def)

definition tests :: "'s cgroup_scanner \<Rightarrow> (task_struct \<Rightarrow> bool) \<Rightarrow> bool" where
  "tests scan tst \<longleftrightarrow> (case test_task scan of None \<Rightarrow> \<forall>p. tst p | Some t \<Rightarrow> \<forall>p s. t p s = tst p)"

definition wanted :: "(task_struct \<Rightarrow> bool) \<Rightarrow> timespec \<Rightarrow> ulong \<Rightarrow> task_struct \<Rightarrow> bool" where
  "wanted tst lt la p \<longleftrightarrow> tst p \<and> started_after_time p lt la"

text \<open>\<open>D\<close> are the tasks seen and not kept.\<close>

definition gathered :: "nat \<Rightarrow> usage \<Rightarrow> task_struct ptr_heap \<Rightarrow> usage \<Rightarrow> task_struct multiset \<Rightarrow> bool" where
  "gathered m u0 h u D \<longleftrightarrow> heap_wf h \<and> ph_gt h = started_after \<and> ph_max h = m
     \<and> (\<forall>x \<in># heap_elems h. \<forall>d \<in># D. \<not> started_after x d) \<and> (D \<noteq> {#} \<longrightarrow> ph_size h = ph_max h)
     \<and> u = (\<lambda>a. u0 a + refs (heap_elems h) a)"

lemma gather_skip:
  "tests scan tst \<Longrightarrow> \<not> wanted tst lt la p \<Longrightarrow> scan_gather scan s lt la h u p = Ok (h, u)"
  by (auto simp: scan_gather_def tests_def wanted_def split: option.splits)

lemma gather_step:
  assumes t: "tests scan tst" and w: "wanted tst lt la p" and g: "gathered m u0 h u D"
  shows "\<exists>h' u' D'. scan_gather scan s lt la h u p = Ok (h', u') \<and> gathered m u0 h' u' D'
    \<and> heap_elems h' + D' = add_mset p (heap_elems h + D)"
proof -
  have sg: "scan_gather scan s lt la h u p = (case heap_insert h p of
          Ok (h, None) \<Rightarrow> Ok (h, get_task_struct p u)
        | Ok (h, Some d) \<Rightarrow> if t_addr d \<noteq> t_addr p then Ok (h, put_task_struct d (get_task_struct p u)) else Ok (h, u)
        | Err e \<Rightarrow> Err e | Bug \<Rightarrow> Bug)"
    using t w by (auto simp: scan_gather_def tests_def wanted_def split: option.splits)
  have h: "heap_wf h" "ph_gt h = started_after" "ph_max h = m" "u = (\<lambda>a. u0 a + refs (heap_elems h) a)"
    and old: "\<And>x d. x \<in># heap_elems h \<Longrightarrow> d \<in># D \<Longrightarrow> \<not> started_after x d"
    using g by (auto simp: gathered_def)
  consider "ph_size h < ph_max h" | "ph_size h = ph_max h" using h(1) unfolding heap_wf_def by linarith
  then show ?thesis
  proof cases
    case 1
    then have "D = {#}" using g by (auto simp: gathered_def)
    moreover obtain h' where "heap_insert h p = Ok (h', None)" "heap_wf h'" "ph_max h' = ph_max h" "ph_gt h' = started_after"
        "heap_elems h' = add_mset p (heap_elems h)"
      using sa.heap_insert_room [OF h(1,2) 1, of p] by blast
    ultimately show ?thesis using h sg by (intro exI [of _ h'] exI [of _ "get_task_struct p u"] exI [of _ "{#}"])
        (auto simp: gathered_def get_task_struct_def)
  next
    case 2
    obtain h' d where i: "heap_insert h p = Ok (h', Some d)" "heap_wf h'" "ph_max h' = ph_max h" "ph_size h' = ph_size h" "ph_gt h' = started_after"
        and e: "add_mset d (heap_elems h') = add_mset p (heap_elems h)" and x: "\<And>x. x \<in># heap_elems h' \<Longrightarrow> \<not> started_after x d"
      using sa.heap_insert_full [OF h(1,2) 2, of p] by blast
    have dd: "d = p \<or> d \<in># heap_elems h" and xs: "\<And>x. x \<in># heap_elems h' \<Longrightarrow> x = p \<or> x \<in># heap_elems h"
      using e by (metis insert_iff set_mset_add_mset_insert union_iff)+
    have new: "\<not> started_after x c" if "x \<in># heap_elems h'" "c \<in># D" for x c
    proof (cases "x \<in># heap_elems h")
      case False
      then have "x = p" "d \<in># heap_elems h \<or> heap_elems h' = heap_elems h" using xs [OF that(1)] dd e by auto
      then have "d \<in># heap_elems h" using False that(1) by auto
      then show ?thesis using old [of d c] x [OF that(1)] that(2) sa.gt_neg_trans by blast
    qed (use old that(2) in blast)
    have r: "(\<lambda>a. u0 a + refs (heap_elems h') a) = (\<lambda>a. u a + (if t_addr p = a then 1 else 0) - (if t_addr d = a then 1 else 0))"
    proof
      fix a
      have "refs (add_mset d (heap_elems h')) a = refs (add_mset p (heap_elems h)) a" using e by simp
      then show "u0 a + refs (heap_elems h') a = u a + (if t_addr p = a then 1 else 0) - (if t_addr d = a then 1 else 0)"
        using h(4) by simp
    qed
    let ?u = "if t_addr d \<noteq> t_addr p then put_task_struct d (get_task_struct p u) else u"
    have "?u = (\<lambda>a. u0 a + refs (heap_elems h') a)" unfolding r by (auto simp: put_task_struct_def get_task_struct_def)
    then have "gathered m u0 h' ?u (add_mset d D)" using i x new h(3) 2 by (auto simp: gathered_def)
    moreover have "scan_gather scan s lt la h u p = Ok (h', ?u)" using sg i(1) by simp
    moreover have "heap_elems h' + add_mset d D = add_mset p (heap_elems h + D)" using e by simp
    ultimately show ?thesis by blast
  qed
qed

lemma gather_list_spec:
  assumes "tests scan tst" and "gathered m u0 h u D"
  shows "\<exists>h' u' D'. gather_list scan s lt la ps h u = Ok (h', u') \<and> gathered m u0 h' u' D'
    \<and> heap_elems h' + D' = mset (filter (wanted tst lt la) ps) + (heap_elems h + D)"
  using assms(2)
proof (induction ps arbitrary: h u D)
  case (Cons p ps)
  show ?case
  proof (cases "wanted tst lt la p")
    case False
    then show ?thesis using Cons gather_skip [OF assms(1) False] by simp
  next
    case True
    obtain h1 u1 D1 where "scan_gather scan s lt la h u p = Ok (h1, u1)" "gathered m u0 h1 u1 D1"
        "heap_elems h1 + D1 = add_mset p (heap_elems h + D)"
      using gather_step [OF assms(1) True Cons.prems] by blast
    then show ?thesis using Cons.IH [of h1 u1 D1] True by simp
  qed
qed (auto intro!: exI [of _ D])

section \<open>The passes handle every task once\<close>

lemma process_loop_fold:
  "process_loop scan qs s u = (fold (process_task scan) qs s, \<lambda>a. u a - refs (mset qs) a)"
  by (induction qs arbitrary: s u) (auto simp: put_task_struct_def)

definition heap_ready :: "task_struct ptr_heap \<Rightarrow> bool" where
  "heap_ready h \<longleftrightarrow> length (ptrs h) = ph_max h \<and> 0 < ph_max h \<and> ph_gt h = started_after"

lemma gathered_empty: "heap_ready h \<Longrightarrow> gathered (ph_max h) u (h\<lparr>ph_size := 0\<rparr>) u {#}"
  by (auto simp: heap_ready_def gathered_def heap_wf_def heap_elems_def is_heap_def)

lemma gathered_ready: "gathered m u0 h u D \<Longrightarrow> heap_ready h"
  by (auto simp: gathered_def heap_ready_def heap_wf_def)

text \<open>After a pass the tasks still wanted are those the pass did not keep.\<close>

lemma wanted_after:
  assumes g: "gathered m u0 h u D" and e: "heap_elems h + D = mset (filter (wanted tst lt la) ts)"
    and d: "distinct ts" and n: "0 < ph_size h"
  shows "mset (filter (wanted tst (start_time (ptrs h ! 0)) (t_addr (ptrs h ! 0))) ts) = D"
proof -
  let ?q = "ptrs h ! 0" and ?H = "heap_elems h"
  have wf: "heap_wf h" "ph_gt h = started_after" using g by (auto simp: gathered_def)
  have "take (ph_size h) (ptrs h) ! 0 \<in> set (take (ph_size h) (ptrs h))" using n wf(1) by (intro nth_mem) (auto simp: heap_wf_def)
  then have q: "?q \<in># ?H" using n by (simp add: heap_elems_def)
  have top: "\<not> started_after x ?q" if "x \<in># ?H" for x
    using that sa.nle.heap_root [of "ptrs h" "ph_size h"] wf by (auto simp: heap_elems_def heap_wf_def in_set_conv_nth)
  have HD: "x \<in># ?H \<or> x \<in># D \<longleftrightarrow> x \<in> set ts \<and> wanted tst lt la x" for x
    using arg_cong [OF e, of "\<lambda>M. x \<in># M"] by auto
  have "distinct (filter (wanted tst lt la) ts)" using d by simp
  then have c: "count ?H x + count D x \<le> 1" for x using arg_cong [OF e, of "\<lambda>M. count M x"] by (simp add: distinct_count_atmost_1)
  have dis: "x \<notin># D" if "x \<in># ?H" for x
    using c [of x] that unfolding count_greater_zero_iff [symmetric] by linarith
  have qw: "tst ?q" "started_after_time ?q lt la" using HD [of ?q] q by (auto simp: wanted_def)
  have w: "wanted tst (start_time ?q) (t_addr ?q) x \<longleftrightarrow> x \<in># D" if "x \<in> set ts" for x
  proof (cases "wanted tst lt la x")
    case True
    then have "x \<in># ?H \<or> x \<in># D" using that HD by blast
    moreover have "started_after x ?q" if "x \<in># D"
    proof -
      have "x \<noteq> ?q" "\<not> started_after ?q x" using dis [OF q] g q that by (auto simp: gathered_def)
      then show ?thesis using started_after_eq by blast
    qed
    ultimately show ?thesis using True top [of x] dis [of x] by (auto simp: wanted_def started_after_def)
  next
    case False
    let ?l = "\<lparr>t_addr = la, start_time = lt\<rparr>"
    have "\<not> (tst x \<and> started_after x ?q)"
      using False qw(2) sa.gt_neg_trans [of x ?l ?q] sa.gt_asym [of ?q ?l] by (auto simp: wanted_def started_after_def)
    then show ?thesis using False HD [of x] by (auto simp: wanted_def started_after_def)
  qed
  show ?thesis
  proof (rule multiset_eqI)
    fix x
    have "count D x = (if x \<in># D then 1 else 0)"
      using c [of x] by (simp add: not_in_iff) (metis One_nat_def Suc_leI add_leD2 count_greater_zero_iff le_antisym)
    moreover have "distinct (filter (wanted tst (start_time ?q) (t_addr ?q)) ts)" using d by simp
    ultimately show "count (mset (filter (wanted tst (start_time ?q) (t_addr ?q)) ts)) x = count D x"
      using w HD [of x] unfolding distinct_count_atmost_1 by auto
  qed
qed

lemma scan_again_all:
  assumes t: "tests scan tst" and d: "distinct (concat css)" and h: "heap_ready h"
  shows "\<exists>ps. mset ps = mset (filter (wanted tst lt la) (concat css))
    \<and> scan_again (\<lambda>_ _. css) scan i lt la h s u = Some (Ok (fold (process_task scan) ps s, u))"
  using h
proof (induction "length (filter (wanted tst lt la) (concat css))" arbitrary: lt la h i s rule: less_induct)
  case less
  let ?Q = "mset (filter (wanted tst lt la) (concat css))"
  obtain h' u' D where r: "gather_list scan s lt la (concat css) (h\<lparr>ph_size := 0\<rparr>) u = Ok (h', u')"
      and g: "gathered (ph_max h) u h' u' D" and e: "heap_elems h' + D = ?Q"
    using gather_list_spec [OF t gathered_empty [OF less.prems], of s lt la "concat css" u] by (auto simp: heap_elems_def)
  have u': "u' = (\<lambda>a. u a + refs (heap_elems h') a)" and rd: "heap_ready h'" and sz: "size (heap_elems h') = ph_size h'"
    using g gathered_ready [OF g] by (auto simp: gathered_def heap_elems_def heap_wf_def)
  show ?case
  proof (cases "ph_size h' = 0")
    case True
    then have "heap_elems h' = {#}" using sz by simp
    moreover have "D = {#}" using g True rd by (auto simp: gathered_def heap_ready_def)
    ultimately show ?thesis using e True u' r
      by (intro exI [of _ "[]"]) (subst scan_again.simps, simp add: scan_loop_list)
  next
    case False
    let ?q = "ptrs h' ! 0" and ?ps = "take (ph_size h') (ptrs h')"
    have D: "mset (filter (wanted tst (start_time ?q) (t_addr ?q)) (concat css)) = D"
      using wanted_after [OF g e d] False by simp
    have "size D < size ?Q" using e [symmetric] False sz by simp
    then have "length (filter (wanted tst (start_time ?q) (t_addr ?q)) (concat css)) < length (filter (wanted tst lt la) (concat css))"
      using arg_cong [OF D, of size] unfolding size_mset by simp
    then obtain qs where qs: "mset qs = D"
        "scan_again (\<lambda>_ _. css) scan (i + 1) (start_time ?q) (t_addr ?q) h' (fold (process_task scan) ?ps s) u
          = Some (Ok (fold (process_task scan) qs (fold (process_task scan) ?ps s), u))"
      using less.hyps [of "start_time ?q" "t_addr ?q" h' "i + 1" "fold (process_task scan) ?ps s"] rd D by metis
    have "process_loop scan ?ps s u' = (fold (process_task scan) ?ps s, u)"
      by (simp add: process_loop_fold u' heap_elems_def)
    then have "scan_again (\<lambda>_ _. css) scan i lt la h s u = Some (Ok (fold (process_task scan) (?ps @ qs) s, u))"
      using False r qs(2) by (subst scan_again.simps) (simp add: scan_loop_list Let_def)
    moreover have "mset (?ps @ qs) = ?Q" using e qs(1) by (simp add: heap_elems_def)
    ultimately show ?thesis by blast
  qed
qed

text \<open>C6: When the tasks of the control group stay as they are, \<open>cgroup_scan_tasks\<close> comes to an end and hands
  every task that passes the caller's test to the caller exactly once, whatever the size of the heap is, and
  every reference it took to a task is dropped. It works with the caller's heap, or else with one of a page.
  Only a failed allocation of that page ends it with an error.\<close>

theorem cgroup_scan_tasks_once:
  fixes scan :: "'s cgroup_scanner"
  assumes "case test_task scan of None \<Rightarrow> \<forall>p. tst p | Some t \<Rightarrow> \<forall>p s. t p s = tst p"
    and "distinct (concat css)"
    and "\<forall>t \<in> set (concat css). 0 \<le> tv_sec (start_time t) \<and> 0 \<le> tv_nsec (start_time t) \<and> t_addr t \<noteq> 0"
    and "case sc_heap scan of Some h \<Rightarrow> 0 < ph_max h \<and> length (ptrs h) = ph_max h
           | None \<Rightarrow> (case mem of Some m \<Rightarrow> length m = 4096 div 4 | None \<Rightarrow> True)"
  shows "if sc_heap scan = None \<and> mem = None
    then cgroup_scan_tasks (\<lambda>_ _. css) scan mem s u = Some (Err ENOMEM)
    else \<exists>ps. mset ps = mset (filter tst (concat css))
      \<and> cgroup_scan_tasks (\<lambda>_ _. css) scan mem s u = Some (Ok (fold (process_task scan) ps s, u))"
proof (cases "sc_heap scan = None \<and> mem = None")
  case True
  then show ?thesis by (simp add: cgroup_scan_tasks_def heap_init_def Let_def)
next
  case False
  let ?z = "\<lparr>tv_sec = 0, tv_nsec = 0\<rparr>"
  have "wanted tst ?z 0 t \<longleftrightarrow> tst t" if "t \<in> set (concat css)" for t
    using assms(3) that word_greater_zero_iff [of "t_addr t"]
    by (fastforce simp: wanted_def started_after_time_def timespec_compare_def Let_def)
  then have f: "filter (wanted tst ?z 0) (concat css) = filter tst (concat css)" by (intro filter_cong) auto
  have t: "tests scan tst" using assms(1) by (simp add: tests_def)
  obtain h where "heap_ready h" "cgroup_scan_tasks (\<lambda>_ _. css) scan mem s u = scan_again (\<lambda>_ _. css) scan 0 ?z 0 h s u"
  proof (cases "sc_heap scan")
    case None
    then obtain m where "mem = Some m" "length m = 1024" using False assms(4) by auto
    then show ?thesis using None that [of "\<lparr>ptrs = m, ph_max = 1024, ph_size = 0, ph_gt = started_after\<rparr>"]
      by (simp add: cgroup_scan_tasks_def heap_init_def heap_ready_def Let_def)
  next
    case (Some h)
    then show ?thesis using assms(4) that [of "h\<lparr>ph_gt := started_after\<rparr>"] by (simp add: cgroup_scan_tasks_def heap_ready_def Let_def)
  qed
  then show ?thesis using scan_again_all [OF t assms(2), of h ?z 0 0 s u] False f by metis
qed

definition scan_example :: "task_struct list cgroup_scanner" where
  "scan_example = \<lparr>test_task = Some (\<lambda>p _. t_addr p \<noteq> 8), process_task = (\<lambda>p s. s @ [p]),
     sc_heap = Some \<lparr>ptrs = [\<lparr>t_addr = 0, start_time = \<lparr>tv_sec = 0, tv_nsec = 0\<rparr>\<rparr>], ph_max = 1, ph_size = 0, ph_gt = (\<lambda>_ _. False)\<rparr>\<rparr>"

definition scan_task :: "ulong \<Rightarrow> int \<Rightarrow> task_struct" where
  "scan_task a t = \<lparr>t_addr = a, start_time = \<lparr>tv_sec = t, tv_nsec = 0\<rparr>\<rparr>"

lemma cgroup_scan_tasks_once_witness:
  "\<exists>ps. mset ps = {#scan_task 4 3, scan_task 12 1#}
     \<and> cgroup_scan_tasks (\<lambda>_ _. [[scan_task 4 3], [], [scan_task 8 2, scan_task 12 1]]) scan_example None [] (\<lambda>_. 2)
       = Some (Ok (fold (process_task scan_example) ps [], \<lambda>_. 2))"
  using cgroup_scan_tasks_once [of "\<lambda>p. t_addr p \<noteq> 8" scan_example "[[scan_task 4 3], [], [scan_task 8 2, scan_task 12 1]]" None "[]" "\<lambda>_. 2"]
  by (simp add: scan_example_def scan_task_def)

end
