(* ===== verification/Logger.thy ===== *)
theory Logger
  imports KPrelude
begin

text \<open>
  The Android logger, \<open>drivers/staging/android/logger.c\<close>: a ring of bytes into which entries are written
  and from which every reader reads at its own offset; readers that the writer laps are moved forward, and
  \<open>sign\<close> counts the bytes so that a reader is warned of the entries it lost. The operations run under
  the mutex of the log and are atomic here, except where the source reads outside of it. Offsets and sizes
  are below the size of the buffer, so that no sum of them wraps; \<open>sign\<close> is a \<open>long\<close>, a 32-bit word.
\<close>

section \<open>State\<close>

record logger_entry =
  le_len :: u16
  le_pad :: u16
  le_pid :: u32
  le_tid :: u32
  le_sec :: u32
  le_nsec :: u32

definition u16_bytes :: "u16 \<Rightarrow> u8 list" where
  "u16_bytes w = [ucast w, ucast (drop_bit 8 w)]"

definition u32_bytes :: "u32 \<Rightarrow> u8 list" where
  "u32_bytes w = [ucast w, ucast (drop_bit 8 w), ucast (drop_bit 16 w), ucast (drop_bit 24 w)]"

text \<open>The entry as it lies in memory; the target is little-endian.\<close>

definition entry_bytes :: "logger_entry \<Rightarrow> u8 list" where
  "entry_bytes h = u16_bytes (le_len h) @ u16_bytes (le_pad h) @ u32_bytes (le_pid h) @ u32_bytes (le_tid h)
     @ u32_bytes (le_sec h) @ u32_bytes (le_nsec h)"

definition LOGGER_ENTRY_MAX_PAYLOAD :: nat where
  "LOGGER_ENTRY_MAX_PAYLOAD = 4 * 1024 - 20"

record logger_reader =
  r_id :: nat
  r_off :: nat
  r_sign :: u32

record logger_log =
  lg_buffer :: "u8 list"
  lg_readers :: "logger_reader list"
  w_off :: nat
  lg_head :: nat
  lg_size :: nat
  lg_sign :: u32

definition DEFINE_LOGGER_DEVICE :: "nat \<Rightarrow> logger_log" where
  "DEFINE_LOGGER_DEVICE siz =
     \<lparr>lg_buffer = replicate siz 0, lg_readers = [], w_off = 0, lg_head = 0, lg_size = siz, lg_sign = 0\<rparr>"

definition log_main :: logger_log where
  "log_main = DEFINE_LOGGER_DEVICE (64 * 1024)"

definition log_events :: logger_log where
  "log_events = DEFINE_LOGGER_DEVICE (256 * 1024)"

definition log_radio :: logger_log where
  "log_radio = DEFINE_LOGGER_DEVICE (64 * 1024)"

definition logger_offset :: "logger_log \<Rightarrow> nat \<Rightarrow> nat" where
  "logger_offset log n = n AND (lg_size log - 1)"

text \<open>The reader behind \<open>file->private_data\<close>, found and stored by its identity.\<close>

definition get_reader :: "logger_log \<Rightarrow> nat \<Rightarrow> logger_reader option" where
  "get_reader log i = find (\<lambda>r. r_id r = i) (lg_readers log)"

definition put_reader :: "logger_reader \<Rightarrow> logger_log \<Rightarrow> logger_log" where
  "put_reader rd log = log\<lparr>lg_readers := map (\<lambda>r. if r_id r = r_id rd then rd else r) (lg_readers log)\<rparr>"

section \<open>Reading\<close>

definition get_entry_len :: "logger_log \<Rightarrow> nat \<Rightarrow> nat" where
  "get_entry_len log off =
     (let b = lg_buffer log;
          (lo, hi) = (if lg_size log - off = 1 then (b ! off, b ! 0) else (b ! off, b ! (off + 1)))
      in 20 + (unat lo + 256 * unat hi))"

text \<open>
  Whether \<open>copy_to_user\<close> of \<open>n\<close> bytes to the place \<open>off\<close> of a user buffer fails, of which \<open>ulen\<close> bytes can
  be written. Where the source returns the number of bytes it has copied, the model returns the bytes.
\<close>

definition copy_to_user_faults :: "nat \<Rightarrow> nat \<Rightarrow> nat \<Rightarrow> bool" where
  "copy_to_user_faults ulen off n \<longleftrightarrow> 0 < n \<and> ulen < off + n"

definition do_read_log_to_user ::
  "logger_log \<Rightarrow> logger_reader \<Rightarrow> nat \<Rightarrow> nat \<Rightarrow> logger_reader \<times> u8 list kres" where
  "do_read_log_to_user log reader ulen cnt =
     (let len = min cnt (lg_size log - r_off reader)
      in if copy_to_user_faults ulen 0 len then (reader, Err EFAULT)
         else if cnt \<noteq> len \<and> copy_to_user_faults ulen len (cnt - len) then (reader, Err EFAULT)
         else (reader\<lparr>r_off := logger_offset log (r_off reader + cnt), r_sign := r_sign reader + of_nat cnt\<rparr>,
               Ok (mem_read (lg_buffer log) (r_off reader) len
                   @ (if cnt \<noteq> len then mem_read (lg_buffer log) 0 (cnt - len) else []))))"

definition is_overflow :: "nat \<Rightarrow> u32 \<Rightarrow> u32 \<Rightarrow> bool" where
  "is_overflow siz cw lw \<longleftrightarrow> sint (cw - lw) \<ge> int siz"

text \<open>The bytes of a text, and a number as \<open>%ld\<close> prints it.\<close>

definition ascii :: "string \<Rightarrow> u8 list" where
  "ascii s = map of_char s"

fun dec_nat :: "nat \<Rightarrow> u8 list" where
  "dec_nat n = (if n < 10 then [48 + of_nat n] else dec_nat (n div 10) @ [48 + of_nat (n mod 10)])"

declare dec_nat.simps [simp del]

definition dec_long :: "u32 \<Rightarrow> u8 list" where
  "dec_long w = (if sint w < 0 then 45 # dec_nat (nat (- sint w)) else dec_nat (nat (sint w)))"

definition warn_message :: "u32 \<Rightarrow> u8 list" where
  "warn_message d =
     (let msg = ascii ''some logs might have been lost ('' @ dec_long d @ ascii '' bytes estimated)''
      in of_nat (length msg + 6) # replicate 19 0 @ [5] @ ascii ''AEE'' @ [0] @ msg @ [0])"

text \<open>The offset of the reader turned back into a count of bytes; \<open>long\<close> and \<open>size_t\<close> mix to an unsigned 32-bit number.\<close>

definition reader_sign :: "logger_log \<Rightarrow> nat \<Rightarrow> u32" where
  "reader_sign log off =
     (let s = lg_sign log - lg_sign log mod of_nat (lg_size log) + of_nat off
      in if sint s > sint (lg_sign log) then s - of_nat (lg_size log) else s)"

definition warn_overflow :: "logger_log \<Rightarrow> logger_reader \<Rightarrow> nat \<Rightarrow> logger_reader \<times> u8 list kres" where
  "warn_overflow log reader ulen =
     (let message = warn_message (lg_sign log - r_sign reader)
      in if copy_to_user_faults ulen 0 (length message) then (reader, Err EFAULT)
         else (reader\<lparr>r_sign := reader_sign log (r_off reader)\<rparr>, Ok message))"

text \<open>
  The wait loop of \<open>logger_read\<close> goes to sleep, leaves with an error or goes on. The rest runs under the mutex
  and goes back to the start (\<open>None\<close>) if the log has become empty meanwhile.
\<close>

datatype read_wait = Sleeps | Leaves errno | Goes_on

definition logger_read_wait :: "logger_log \<Rightarrow> logger_reader \<Rightarrow> bool \<Rightarrow> bool \<Rightarrow> read_wait" where
  "logger_read_wait log reader nonblock signal =
     (if w_off log \<noteq> r_off reader then Goes_on
      else if nonblock then Leaves EAGAIN
      else if signal then Leaves EINTR
      else Sleeps)"

definition logger_read_locked ::
  "logger_log \<Rightarrow> logger_reader \<Rightarrow> nat \<Rightarrow> nat \<Rightarrow> (logger_reader \<times> u8 list kres) option" where
  "logger_read_locked log reader ulen cnt =
     (if w_off log = r_off reader then None
      else if is_overflow (lg_size log) (lg_sign log) (r_sign reader) then Some (warn_overflow log reader ulen)
      else let ret = get_entry_len log (r_off reader)
           in if cnt < ret then Some (reader, Err EINVAL)
              else Some (do_read_log_to_user log reader ulen ret))"

text \<open>A read during which no other task runs; \<open>None\<close> when it sleeps.\<close>

definition logger_read ::
  "logger_log \<Rightarrow> logger_reader \<Rightarrow> bool \<Rightarrow> bool \<Rightarrow> nat \<Rightarrow> nat \<Rightarrow> (logger_log \<times> u8 list kres) option" where
  "logger_read log reader nonblock signal ulen cnt =
     (case logger_read_wait log reader nonblock signal of
        Sleeps \<Rightarrow> None
      | Leaves e \<Rightarrow> Some (log, Err e)
      | Goes_on \<Rightarrow> map_option (\<lambda>(reader, ret). (put_reader reader log, ret)) (logger_read_locked log reader ulen cnt))"

section \<open>Writing\<close>

function get_next_entry :: "logger_log \<Rightarrow> nat \<Rightarrow> nat \<Rightarrow> nat \<Rightarrow> nat" where
  "get_next_entry log off len count1 =
     (let nr = get_entry_len log off; off = logger_offset log (off + nr); count1 = count1 + nr
      in if count1 < len then get_next_entry log off len count1 else off)"
  by auto
termination
  by (relation "measure (\<lambda>(log, off, len, count1). len - count1)") (auto simp: get_entry_len_def Let_def)

declare get_next_entry.simps [simp del]

definition clock_interval :: "nat \<Rightarrow> nat \<Rightarrow> nat \<Rightarrow> bool" where
  "clock_interval a b c = (if b < a then a < c \<or> b \<ge> c else a < c \<and> b \<ge> c)"

definition fix_up_readers :: "logger_log \<Rightarrow> nat \<Rightarrow> logger_log" where
  "fix_up_readers log len =
     (let old = w_off log; new = logger_offset log (old + len);
          fix_up = (\<lambda>off. if clock_interval old new off then get_next_entry log off len 0 else off)
      in log\<lparr>lg_head := fix_up (lg_head log),
             lg_readers := map (\<lambda>r. r\<lparr>r_off := fix_up (r_off r)\<rparr>) (lg_readers log)\<rparr>)"

definition do_write_log :: "logger_log \<Rightarrow> u8 list \<Rightarrow> logger_log" where
  "do_write_log log buf =
     (let cnt = length buf; len = min cnt (lg_size log - w_off log);
          b = mem_write (lg_buffer log) (w_off log) (take len buf);
          b = (if cnt \<noteq> len then mem_write b 0 (drop len buf) else b)
      in log\<lparr>lg_buffer := b, w_off := logger_offset log (w_off log + cnt), lg_sign := lg_sign log + of_nat cnt\<rparr>)"

definition do_write_log_from_user :: "logger_log \<Rightarrow> u8 list \<Rightarrow> nat \<Rightarrow> logger_log \<times> nat kres" where
  "do_write_log_from_user log ubuf cnt =
     (let len = min cnt (lg_size log - w_off log);
          (bs, fault) = copy_from_user ubuf len;
          log = log\<lparr>lg_buffer := mem_write (lg_buffer log) (w_off log) bs\<rparr>
      in if len \<noteq> 0 \<and> fault then (log, Err EFAULT)
         else let (bs, fault) = copy_from_user (drop len ubuf) (cnt - len);
                  log = (if cnt \<noteq> len then log\<lparr>lg_buffer := mem_write (lg_buffer log) 0 bs\<rparr> else log)
              in if cnt \<noteq> len \<and> fault then (log, Err EFAULT)
                 else (log\<lparr>w_off := logger_offset log (w_off log + cnt), lg_sign := lg_sign log + of_nat cnt\<rparr>, Ok cnt))"

text \<open>A vector of a user buffer: the bytes that can be read at \<open>iov_base\<close>, and \<open>iov_len\<close>.\<close>

record iovec =
  iov_base :: "u8 list"
  iov_len :: nat

fun write_segs :: "logger_log \<Rightarrow> nat \<Rightarrow> nat \<Rightarrow> iovec list \<Rightarrow> logger_log \<times> nat kres" where
  "write_segs log hlen ret [] = (log, Ok ret)"
| "write_segs log hlen ret (iov # iovs) =
     (let len = min (iov_len iov) (hlen - ret)
      in case do_write_log_from_user log (iov_base iov) len of
           (log, Ok nr) \<Rightarrow> write_segs log hlen (ret + nr) iovs
         | (log, Err e) \<Rightarrow> (log, Err e)
         | (log, Bug) \<Rightarrow> (log, Bug))"

text \<open>
  \<open>orig\<close> is the write offset as it was read before the mutex was taken. The header comes with what the caller
  and the clock put into it, and with whatever is in its padding, which the source does not set.
\<close>

definition logger_aio_write ::
  "logger_log \<Rightarrow> nat \<Rightarrow> logger_entry \<Rightarrow> nat \<Rightarrow> iovec list \<Rightarrow> logger_log \<times> nat kres" where
  "logger_aio_write log orig header ki_left iovs =
     (let hlen = min ki_left LOGGER_ENTRY_MAX_PAYLOAD; header = header\<lparr>le_len := of_nat hlen\<rparr>
      in if hlen = 0 then (log, Ok 0)
         else let log = fix_up_readers log (20 + hlen); log = do_write_log log (entry_bytes header)
              in case write_segs log hlen 0 iovs of
                   (log, Ok ret) \<Rightarrow> (log, Ok ret)
                 | (log, Err e) \<Rightarrow> (log\<lparr>w_off := orig\<rparr>, Err e)
                 | (log, Bug) \<Rightarrow> (log, Bug))"

section \<open>Files\<close>

text \<open>The log of a device number, by the minor numbers the three logs were registered with.\<close>

datatype log_name = Log_main | Log_events | Log_radio

definition get_log_from_minor :: "(log_name \<Rightarrow> nat) \<Rightarrow> nat \<Rightarrow> log_name option" where
  "get_log_from_minor misc_minor minor =
     (if misc_minor Log_main = minor then Some Log_main
      else if misc_minor Log_events = minor then Some Log_events
      else if misc_minor Log_radio = minor then Some Log_radio
      else None)"

text \<open>\<open>log\<close> is the log found by the minor number, \<open>mem\<close> the identity of the memory \<open>kmalloc\<close> gives for a reader.\<close>

definition logger_open :: "logger_log \<Rightarrow> bool \<Rightarrow> nat option \<Rightarrow> logger_log \<times> unit kres" where
  "logger_open log f_read mem =
     (if f_read
      then case mem of
          None \<Rightarrow> (log, Err ENOMEM)
        | Some i \<Rightarrow>
            (log\<lparr>lg_readers := lg_readers log
               @ [\<lparr>r_id = i, r_off = lg_head log, r_sign = reader_sign log (lg_head log)\<rparr>]\<rparr>, Ok ())
      else (log, Ok ()))"

definition logger_open_minor ::
  "(log_name \<Rightarrow> nat) \<Rightarrow> (log_name \<Rightarrow> logger_log) \<Rightarrow> nat \<Rightarrow> bool \<Rightarrow> nat option \<Rightarrow> (log_name \<Rightarrow> logger_log) \<times> unit kres" where
  "logger_open_minor misc_minor logs minor f_read mem =
     (case get_log_from_minor misc_minor minor of
        None \<Rightarrow> (logs, Err ENODEV)
      | Some n \<Rightarrow> let (log, ret) = logger_open (logs n) f_read mem in (logs(n := log), ret))"

definition logger_release :: "logger_log \<Rightarrow> bool \<Rightarrow> nat \<Rightarrow> logger_log" where
  "logger_release log f_read i =
     (if f_read then log\<lparr>lg_readers := filter (\<lambda>r. r_id r \<noteq> i) (lg_readers log)\<rparr> else log)"

definition logger_poll :: "logger_log \<Rightarrow> logger_reader option \<Rightarrow> u32" where
  "logger_poll log reader =
     (let ret = 0x4 OR 0x100
      in case reader of
           None \<Rightarrow> ret
         | Some rd \<Rightarrow> if w_off log \<noteq> r_off rd then ret OR (0x1 OR 0x40) else ret)"

datatype logger_cmd = LOGGER_GET_LOG_BUF_SIZE | LOGGER_GET_LOG_LEN | LOGGER_GET_NEXT_ENTRY_LEN | LOGGER_FLUSH_LOG | Other_cmd

definition logger_cmd_of :: "u32 \<Rightarrow> logger_cmd" where
  "logger_cmd_of cmd =
     (if cmd = 0xAE01 then LOGGER_GET_LOG_BUF_SIZE else if cmd = 0xAE02 then LOGGER_GET_LOG_LEN
      else if cmd = 0xAE03 then LOGGER_GET_NEXT_ENTRY_LEN else if cmd = 0xAE04 then LOGGER_FLUSH_LOG else Other_cmd)"

text \<open>\<open>reader\<close> is \<open>None\<close> for a file that is not open for reading.\<close>

definition logger_ioctl :: "logger_log \<Rightarrow> logger_reader option \<Rightarrow> bool \<Rightarrow> logger_cmd \<Rightarrow> logger_log \<times> nat kres" where
  "logger_ioctl log reader f_write cmd =
     (case cmd of
        LOGGER_GET_LOG_BUF_SIZE \<Rightarrow> (log, Ok (lg_size log))
      | LOGGER_GET_LOG_LEN \<Rightarrow>
          (case reader of
             None \<Rightarrow> (log, Err EBADF)
           | Some rd \<Rightarrow> (log, Ok (if w_off log \<ge> r_off rd then w_off log - r_off rd
                                 else (lg_size log - r_off rd) + w_off log)))
      | LOGGER_GET_NEXT_ENTRY_LEN \<Rightarrow>
          (case reader of
             None \<Rightarrow> (log, Err EBADF)
           | Some rd \<Rightarrow> (log, Ok (if w_off log \<noteq> r_off rd then get_entry_len log (r_off rd) else 0)))
      | LOGGER_FLUSH_LOG \<Rightarrow>
          if \<not> f_write then (log, Err EBADF)
          else (log\<lparr>lg_readers := map (\<lambda>r. r\<lparr>r_off := w_off log\<rparr>) (lg_readers log), lg_head := w_off log\<rparr>, Ok 0)
      | Other_cmd \<Rightarrow> (log, Err ENOTTY))"

end
