(* ===== verification/Logger_Ring.thy ===== *)
theory Logger_Ring
  imports Logger
begin

text \<open>
  The ring of the logger as queues of entries: what the ring holds from an offset on, how a write makes room and
  what it leaves untouched.
\<close>

section \<open>Entries in the ring\<close>

definition nbytes :: "u8 list list \<Rightarrow> nat" where
  "nbytes es = length (concat es)"

lemma nbytes_simps [simp]:
  "nbytes [] = 0" "nbytes (e # es) = length e + nbytes es" "nbytes (es @ fs) = nbytes es + nbytes fs" "length (concat es) = nbytes es"
  by (simp_all add: nbytes_def)

definition entry_ok :: "u8 list \<Rightarrow> bool" where
  "entry_ok e \<longleftrightarrow> 20 \<le> length e \<and> length e = 20 + (unat (e ! 0) + 256 * unat (e ! 1))"

definition log_wf :: "logger_log \<Rightarrow> bool" where
  "log_wf log \<longleftrightarrow> (\<exists>k. 13 \<le> k \<and> k < 31 \<and> lg_size log = 2 ^ k) \<and> length (lg_buffer log) = lg_size log \<and> w_off log < lg_size log"

text \<open>From the offset \<open>p\<close> up to the write offset the ring holds the entries \<open>es\<close>.\<close>

definition pos_ok :: "logger_log \<Rightarrow> nat \<Rightarrow> u8 list list \<Rightarrow> bool" where
  "pos_ok log p es \<longleftrightarrow> p < lg_size log \<and> ring_read (lg_buffer log) p (nbytes es) = concat es \<and> (\<forall>e \<in> set es. entry_ok e)
     \<and> (p + nbytes es) mod lg_size log = w_off log \<and> nbytes es < lg_size log"

lemma log_wf_size:
  assumes "log_wf log"
  shows "8192 \<le> lg_size log" and "lg_size log < 2 ^ 31" and "length (lg_buffer log) = lg_size log" and "w_off log < lg_size log"
proof -
  obtain k where k: "13 \<le> k" "k < 31" "lg_size log = 2 ^ k" using assms by (auto simp: log_wf_def)
  have "(2::nat) ^ 13 \<le> 2 ^ k" using k(1) by (intro power_increasing) auto
  then show "8192 \<le> lg_size log" using k(3) by simp
  have "(2::nat) ^ k < 2 ^ 31" using k(2) by (intro power_strict_increasing) auto
  then show "lg_size log < 2 ^ 31" using k(3) by simp
qed (use assms in \<open>auto simp: log_wf_def\<close>)

lemma logger_offset_mod: "log_wf log \<Longrightarrow> logger_offset log n = n mod lg_size log"
  by (auto simp: log_wf_def logger_offset_def and_pow2_minus1_nat [simplified])

lemma pos_ok_empty: "log_wf log \<Longrightarrow> pos_ok log p es \<Longrightarrow> w_off log = p \<longleftrightarrow> es = []"
proof -
  assume wf: "log_wf log" and p: "pos_ok log p es"
  have "(p + L) mod S = p \<longleftrightarrow> L = 0" if "p < S" "L < S" for S L :: nat
    using that by (auto simp: mod_if)
  then have "w_off log = p \<longleftrightarrow> nbytes es = 0" using p unfolding pos_ok_def by metis
  moreover have "nbytes es = 0 \<longleftrightarrow> es = []" using p by (cases es) (auto simp: pos_ok_def entry_ok_def)
  ultimately show ?thesis by simp
qed

lemma get_entry_len_first:
  assumes wf: "log_wf log" and p: "pos_ok log p (e # es)"
  shows "get_entry_len log p = length e"
proof -
  note s = log_wf_size [OF wf]
  have e: "entry_ok e" "2 \<le> length e" using p by (auto simp: pos_ok_def entry_ok_def)
  have n: "lg_buffer log ! ((p + i) mod lg_size log) = e ! i" if "i < 2" for i
  proof -
    have i: "i < length e" using e(2) that by simp
    have "ring_read (lg_buffer log) p (nbytes (e # es)) ! i = concat (e # es) ! i" using p by (simp add: pos_ok_def)
    then show ?thesis using i s(3) by (simp add: nth_append)
  qed
  have "lg_buffer log ! p = e ! 0" using n [of 0] p by (simp add: pos_ok_def)
  moreover have "(if lg_size log - p = 1 then lg_buffer log ! 0 else lg_buffer log ! (p + 1)) = e ! 1"
    using n [of 1] p by (auto simp: pos_ok_def mod_if split: if_splits)
  ultimately show ?thesis using e(1) by (auto simp: get_entry_len_def entry_ok_def Let_def split: if_splits)
qed

lemma pos_ok_next:
  assumes wf: "log_wf log" and p: "pos_ok log p (e # es)"
  shows "pos_ok log (logger_offset log (p + length e)) es"
proof -
  note s = log_wf_size [OF wf]
  have r: "ring_read (lg_buffer log) p (length e + nbytes es) = e @ concat es" using p by (simp add: pos_ok_def)
  then have "ring_read (lg_buffer log) (p + length e) (nbytes es) = concat es"
    by (metis append_eq_append_conv length_ring_read ring_read_add)
  then have "ring_read (lg_buffer log) (logger_offset log (p + length e)) (nbytes es) = concat es"
    using ring_read_mod [of "lg_buffer log" "p + length e"] s(3) logger_offset_mod [OF wf] by simp
  moreover have "(logger_offset log (p + length e) + nbytes es) mod lg_size log = w_off log"
    using p by (simp add: logger_offset_mod [OF wf] mod_add_left_eq pos_ok_def add.assoc)
  ultimately show ?thesis using p s(1) by (simp add: pos_ok_def logger_offset_mod [OF wf])
qed

section \<open>Making room\<close>

fun skip_entries :: "nat \<Rightarrow> u8 list list \<Rightarrow> u8 list list" where
  "skip_entries len [] = []"
| "skip_entries len (e # es) = (if length e < len then skip_entries (len - length e) es else es)"

definition make_room :: "nat \<Rightarrow> nat \<Rightarrow> u8 list list \<Rightarrow> u8 list list" where
  "make_room siz len es = (if siz \<le> nbytes es + len then skip_entries len es else es)"

lemma skip_entries_nbytes: "len \<le> nbytes es \<Longrightarrow> nbytes (skip_entries len es) + len \<le> nbytes es"
proof (induction len es rule: skip_entries.induct)
  case (2 len e es)
  show ?case
  proof (cases "length e < len")
    case True
    then have "nbytes (skip_entries (len - length e) es) + (len - length e) \<le> nbytes es" using 2 by simp
    then show ?thesis using True by simp
  qed simp
qed simp

lemma skip_entries_le: "nbytes (skip_entries len es) \<le> nbytes es"
  by (induction len es rule: skip_entries.induct) auto

lemma make_room_le: "nbytes (make_room siz len es) \<le> nbytes es"
  by (simp add: make_room_def skip_entries_le)

lemma make_room_fits: "2 * len \<le> siz \<Longrightarrow> nbytes (make_room siz len es) + len < siz \<or> nbytes es \<ge> siz \<or> len = 0"
  using skip_entries_nbytes [of len es] by (auto simp: make_room_def)

lemma get_next_entry_skip:
  assumes wf: "log_wf log"
  shows "pos_ok log p es \<Longrightarrow> c < len \<Longrightarrow> len \<le> c + nbytes es
    \<Longrightarrow> pos_ok log (get_next_entry log p len c) (skip_entries (len - c) es)"
proof (induction es arbitrary: p c)
  case (Cons e es)
  note g = get_entry_len_first [OF wf Cons.prems(1)] and n = pos_ok_next [OF wf Cons.prems(1)]
  show ?case
  proof (cases "c + length e < len")
    case True
    then have "length e < len - c" by linarith
    then show ?thesis using True Cons.IH [OF n, of "c + length e"] Cons.prems(3) g
      by (simp add: get_next_entry.simps [of log p] Let_def)
  next
    case False
    then have "\<not> length e < len - c" by linarith
    then show ?thesis using False n g by (simp add: get_next_entry.simps [of log p] Let_def)
  qed
qed simp

lemma clock_interval_laps:
  assumes "w < S" and "p < S" and "L < S" and "(p + L) mod S = w" and "0 < len" and "2 * len \<le> S"
  shows "clock_interval w ((w + len) mod S) p \<longleftrightarrow> S \<le> L + len"
proof -
  have w: "p + L = w \<or> p + L = w + S" using assms(2-4) by (auto simp: mod_if split: if_splits)
  have n: "(w + len) mod S = (if w + len < S then w + len else w + len - S)" using assms(1,6) by (auto simp: mod_if)
  show ?thesis
  proof (cases "w + len < S")
    case True
    then show ?thesis using w assms(1-3,5,6) unfolding n clock_interval_def by auto
  next
    case False
    then show ?thesis using w assms(1-3,5,6) unfolding n clock_interval_def by auto
  qed
qed

definition fixed_off :: "logger_log \<Rightarrow> nat \<Rightarrow> nat \<Rightarrow> nat" where
  "fixed_off log len off =
     (if clock_interval (w_off log) (logger_offset log (w_off log + len)) off then get_next_entry log off len 0 else off)"

lemma fix_up_readers_off:
  "fix_up_readers log len = log\<lparr>lg_head := fixed_off log len (lg_head log),
     lg_readers := map (\<lambda>r. r\<lparr>r_off := fixed_off log len (r_off r)\<rparr>) (lg_readers log)\<rparr>"
  by (simp add: fix_up_readers_def fixed_off_def Let_def)

lemma pos_ok_fixed:
  assumes wf: "log_wf log" and p: "pos_ok log p es" and len: "0 < len" "2 * len \<le> lg_size log"
  shows "pos_ok log (fixed_off log len p) (make_room (lg_size log) len es)"
proof -
  have c: "clock_interval (w_off log) (logger_offset log (w_off log + len)) p \<longleftrightarrow> lg_size log \<le> nbytes es + len"
    unfolding logger_offset_mod [OF wf]
    using p len log_wf_size [OF wf] by (intro clock_interval_laps) (auto simp: pos_ok_def)
  show ?thesis
  proof (cases "lg_size log \<le> nbytes es + len")
    case True
    then show ?thesis using get_next_entry_skip [OF wf p, of 0 len] len c by (simp add: fixed_off_def make_room_def)
  next
    case False
    then show ?thesis using p c by (simp add: fixed_off_def make_room_def)
  qed
qed

section \<open>Writing\<close>

text \<open>
  The log after \<open>bs\<close> has been written behind the write offset of \<open>log0\<close>, where at most \<open>N\<close> bytes are to be
  written in all: what lies before, up to the last \<open>N\<close> bytes of the ring, is untouched.
\<close>

definition written :: "nat \<Rightarrow> logger_log \<Rightarrow> u8 list \<Rightarrow> logger_log \<Rightarrow> bool" where
  "written N log0 bs log \<longleftrightarrow> lg_size log = lg_size log0 \<and> length (lg_buffer log) = lg_size log0 \<and> length bs \<le> N
     \<and> w_off log = (w_off log0 + length bs) mod lg_size log0 \<and> lg_sign log = lg_sign log0 + of_nat (length bs)
     \<and> lg_head log = lg_head log0 \<and> lg_readers log = lg_readers log0
     \<and> ring_read (lg_buffer log) (w_off log0) (length bs) = bs
     \<and> (\<forall>p m. p < lg_size log0 \<and> (p + m) mod lg_size log0 = w_off log0 \<and> m + N \<le> lg_size log0
          \<longrightarrow> ring_read (lg_buffer log) p m = ring_read (lg_buffer log0) p m)"

lemma written_refl: "log_wf log \<Longrightarrow> written N log [] log"
  by (simp add: written_def log_wf_def)

lemma written_wf: "log_wf log0 \<Longrightarrow> written N log0 bs log \<Longrightarrow> log_wf log"
  by (auto simp: log_wf_def written_def)

lemma written_step:
  assumes wf: "log_wf log0" and w: "written N log0 bs log" and n: "length bs + length cs \<le> N" "N \<le> lg_size log0"
  shows "written N log0 (bs @ cs) (log\<lparr>lg_buffer := ring_copy_in (lg_buffer log) (w_off log) cs,
    w_off := logger_offset log (w_off log + length cs), lg_sign := lg_sign log + of_nat (length cs)\<rparr>)"
    and "(p + m) mod lg_size log0 = w_off log0 \<Longrightarrow> p < lg_size log0 \<Longrightarrow> m + N \<le> lg_size log0
      \<Longrightarrow> ring_read (ring_copy_in (lg_buffer log) (w_off log) cs) p m = ring_read (lg_buffer log0) p m"
proof -
  let ?S = "lg_size log0" and ?w = "w_off log0" and ?B = "lg_buffer log" and ?C = "ring_copy_in (lg_buffer log) (w_off log) cs"
  have S: "?w < ?S" "length ?B = ?S" "w_off log = (?w + length bs) mod ?S" "w_off log < ?S" "lg_size log = ?S"
    using w log_wf_size(4) [OF wf] by (auto simp: written_def)
  have before: "ring_read ?C p m = ring_read ?B p m" if "(p + m) mod ?S = w_off log" "p < ?S" "m + length cs \<le> ?S" for p m
    by (rule ring_read_copy_in_before) (use that S in auto)
  have old: "ring_read ?C p m = ring_read (lg_buffer log0) p m" if "(p + m) mod ?S = ?w" "p < ?S" "m + N \<le> ?S" for p m
  proof -
    have "(p + (m + length bs)) mod ?S = w_off log" using that(1) S(3) by (metis add.assoc mod_add_left_eq)
    then have "ring_read ?C p (m + length bs) = ring_read ?B p (m + length bs)" using that n by (intro before) auto
    then have "ring_read ?C p m = ring_read ?B p m" by (metis le_add1 take_ring_read)
    then show ?thesis using w that by (simp add: written_def)
  qed
  show "ring_read ?C p m = ring_read (lg_buffer log0) p m"
    if "(p + m) mod ?S = ?w" "p < ?S" "m + N \<le> ?S" by (rule old [OF that])
  have lc: "length ?C = ?S" using S n by simp
  have "ring_read ?C ?w (length bs) = bs" using before [of ?w "length bs"] S n w by (simp add: written_def)
  moreover have "ring_read ?C (?w + length bs) (length cs) = cs"
    using ring_read_copy_in_same [of "w_off log" ?B cs] S n lc ring_read_mod [of ?C "?w + length bs" "length cs"] by simp
  ultimately have "ring_read ?C ?w (length (bs @ cs)) = bs @ cs" by (simp add: ring_read_add)
  moreover have "logger_offset log (w_off log + length cs) = (?w + length (bs @ cs)) mod ?S"
    using logger_offset_mod [OF written_wf [OF wf w]] S by (simp add: mod_add_left_eq add.assoc)
  ultimately show "written N log0 (bs @ cs) (log\<lparr>lg_buffer := ?C,
      w_off := logger_offset log (w_off log + length cs), lg_sign := lg_sign log + of_nat (length cs)\<rparr>)"
    using w n(1) lc old by (simp add: written_def)
qed

lemma do_write_log_ring:
  "do_write_log log bs = log\<lparr>lg_buffer := (if length bs \<le> lg_size log - w_off log then mem_write (lg_buffer log) (w_off log) bs
       else mem_write (mem_write (lg_buffer log) (w_off log) (take (lg_size log - w_off log) bs)) 0 (drop (lg_size log - w_off log) bs)),
     w_off := logger_offset log (w_off log + length bs), lg_sign := lg_sign log + of_nat (length bs)\<rparr>"
  by (simp add: do_write_log_def Let_def min_def)

lemma ring_copy_in_cases:
  "ring_copy_in buf off bs = (if length bs \<le> length buf - off then mem_write buf off bs
     else mem_write (mem_write buf off (take (length buf - off) bs)) 0 (drop (length buf - off) bs))"
  by (simp add: ring_copy_in_def Let_def min_def)

lemma written_do_write:
  assumes "log_wf log0" and "written N log0 bs log" and "length bs + length cs \<le> N" and "N \<le> lg_size log0"
  shows "written N log0 (bs @ cs) (do_write_log log cs)"
proof -
  have "length (lg_buffer log) = lg_size log" using assms(2) by (simp add: written_def)
  then show ?thesis using written_step(1) [OF assms] by (simp only: do_write_log_ring ring_copy_in_cases)
qed

text \<open>A copy from the user: all of it, or some bytes in its place.\<close>

lemma do_write_user_cases:
  assumes B: "length (lg_buffer log) = lg_size log" and w: "w_off log < lg_size log"
  shows "if length ubuf < cnt
    then \<exists>zs. length zs \<le> cnt \<and> do_write_log_from_user log ubuf cnt = (log\<lparr>lg_buffer := ring_copy_in (lg_buffer log) (w_off log) zs\<rparr>, Err EFAULT)
    else do_write_log_from_user log ubuf cnt = (log\<lparr>lg_buffer := ring_copy_in (lg_buffer log) (w_off log) (take cnt ubuf),
      w_off := logger_offset log (w_off log + cnt), lg_sign := lg_sign log + of_nat cnt\<rparr>, Ok cnt)"
proof -
  define L where "L = lg_size log - w_off log"
  have L: "0 < L" "length (lg_buffer log) - w_off log = L" using B w by (auto simp: L_def)
  let ?b = "\<lambda>n u. fst (copy_from_user u n)"
  have lb: "length (?b n u) = n" for n u by (simp add: copy_from_user_def)
  have fl: "snd (copy_from_user u n) = (length u < n)" for n u by (simp add: copy_from_user_def)
  have ok: "?b n u = take n u" if "n \<le> length u" for n u using that by (simp add: copy_from_user_def)
  show ?thesis
  proof (cases "cnt \<le> L")
    case True
    then have "do_write_log_from_user log ubuf cnt = (if cnt \<noteq> 0 \<and> length ubuf < cnt
        then (log\<lparr>lg_buffer := mem_write (lg_buffer log) (w_off log) (?b cnt ubuf)\<rparr>, Err EFAULT)
        else (log\<lparr>lg_buffer := mem_write (lg_buffer log) (w_off log) (?b cnt ubuf),
          w_off := logger_offset log (w_off log + cnt), lg_sign := lg_sign log + of_nat cnt\<rparr>, Ok cnt))"
      by (simp add: do_write_log_from_user_def Let_def case_prod_beta fl logger_offset_def L_def [symmetric])
    moreover have "mem_write (lg_buffer log) (w_off log) (?b cnt ubuf) = ring_copy_in (lg_buffer log) (w_off log) (?b cnt ubuf)"
      using True L by (simp add: ring_copy_in_cases lb)
    ultimately show ?thesis using lb [of ubuf cnt] ok [of cnt ubuf] by (auto intro!: exI [of _ "?b cnt ubuf"])
  next
    case False
    let ?c = "?b L ubuf" and ?d = "?b (cnt - L) (drop L ubuf)"
    have e: "mem_write (mem_write (lg_buffer log) (w_off log) ?c) 0 ?d = ring_copy_in (lg_buffer log) (w_off log) (?c @ ?d)"
      using False L lb by (simp add: ring_copy_in_cases)
    have f: "mem_write (lg_buffer log) (w_off log) ?c = ring_copy_in (lg_buffer log) (w_off log) ?c"
      using L lb by (simp add: ring_copy_in_cases)
    have r: "do_write_log_from_user log ubuf cnt = (if length ubuf < L
        then (log\<lparr>lg_buffer := ring_copy_in (lg_buffer log) (w_off log) ?c\<rparr>, Err EFAULT)
        else if length ubuf < cnt then (log\<lparr>lg_buffer := ring_copy_in (lg_buffer log) (w_off log) (?c @ ?d)\<rparr>, Err EFAULT)
        else (log\<lparr>lg_buffer := ring_copy_in (lg_buffer log) (w_off log) (?c @ ?d),
          w_off := logger_offset log (w_off log + cnt), lg_sign := lg_sign log + of_nat cnt\<rparr>, Ok cnt))"
      unfolding do_write_log_from_user_def Let_def case_prod_beta fl logger_offset_def L_def [symmetric] e [symmetric] f [symmetric]
      using False L(1) by auto
    show ?thesis
    proof (cases "length ubuf < cnt")
      case True
      then show ?thesis using r False lb [of ubuf L] lb [of "drop L ubuf" "cnt - L"] by (auto intro!: exI [of _ "if length ubuf < L then ?c else ?c @ ?d"])
    next
      case n: False
      have "?c @ ?d = take cnt ubuf" using n False ok take_add [of L "cnt - L" ubuf] by simp
      then show ?thesis using r n False by simp
    qed
  qed
qed

definition kept :: "nat \<Rightarrow> logger_log \<Rightarrow> logger_log \<Rightarrow> bool" where
  "kept N log0 log \<longleftrightarrow> lg_size log = lg_size log0 \<and> length (lg_buffer log) = lg_size log0
     \<and> lg_head log = lg_head log0 \<and> lg_readers log = lg_readers log0
     \<and> (\<forall>p m. p < lg_size log0 \<and> (p + m) mod lg_size log0 = w_off log0 \<and> m + N \<le> lg_size log0
          \<longrightarrow> ring_read (lg_buffer log) p m = ring_read (lg_buffer log0) p m)"

text \<open>The first \<open>n\<close> bytes of the vectors, and whether they can be read.\<close>

fun iov_bytes :: "nat \<Rightarrow> iovec list \<Rightarrow> u8 list" where
  "iov_bytes n [] = []"
| "iov_bytes n (v # vs) = take (min (iov_len v) n) (iov_base v) @ iov_bytes (n - min (iov_len v) n) vs"

fun iov_readable :: "nat \<Rightarrow> iovec list \<Rightarrow> bool" where
  "iov_readable n [] \<longleftrightarrow> True"
| "iov_readable n (v # vs) \<longleftrightarrow> min (iov_len v) n \<le> length (iov_base v) \<and> iov_readable (n - min (iov_len v) n) vs"

lemma length_iov_bytes: "iov_readable n vs \<Longrightarrow> length (iov_bytes n vs) = min n (sum_list (map iov_len vs))"
proof (induction n vs rule: iov_bytes.induct)
  case (2 n v vs)
  have "min a n + min (n - min a n) b = min n (a + b)" for a b :: nat by linarith
  then show ?case using 2 by simp
qed simp

lemma write_segs_spec:
  assumes wf: "log_wf log0" and N: "N \<le> lg_size log0"
  shows "written N log0 bs log \<Longrightarrow> ret \<le> hlen \<Longrightarrow> length bs + (hlen - ret) \<le> N \<Longrightarrow>
    (if iov_readable (hlen - ret) iovs
     then \<exists>log'. write_segs log hlen ret iovs = (log', Ok (ret + length (iov_bytes (hlen - ret) iovs)))
       \<and> written N log0 (bs @ iov_bytes (hlen - ret) iovs) log'
     else \<exists>log'. write_segs log hlen ret iovs = (log', Err EFAULT) \<and> kept N log0 log')"
proof (induction iovs arbitrary: log ret bs)
  case (Cons v vs)
  define l where "l = min (iov_len v) (hlen - ret)"
  have l: "l \<le> hlen - ret" "hlen - ret - l = hlen - (ret + l)" by (auto simp: l_def)
  have w: "length (lg_buffer log) = lg_size log" "w_off log < lg_size log" "lg_size log = lg_size log0"
    using Cons.prems(1) written_wf [OF wf Cons.prems(1)] by (auto simp: written_def log_wf_def)
  note u = do_write_user_cases [OF w(1,2), of "iov_base v" l]
  show ?case
  proof (cases "length (iov_base v) < l")
    case True
    then obtain zs where zs: "length zs \<le> l"
        "do_write_log_from_user log (iov_base v) l = (log\<lparr>lg_buffer := ring_copy_in (lg_buffer log) (w_off log) zs\<rparr>, Err EFAULT)"
      using u by auto
    then have "length bs + length zs \<le> N" using l Cons.prems(3) by linarith
    then have "kept N log0 (log\<lparr>lg_buffer := ring_copy_in (lg_buffer log) (w_off log) zs\<rparr>)"
      using written_step(2) [OF wf Cons.prems(1) _ N, of zs] Cons.prems(1) w N by (simp add: kept_def written_def)
    then show ?thesis using True zs(2) by (simp add: l_def [symmetric] Let_def)
  next
    case False
    let ?c = "take l (iov_base v)"
    let ?log = "log\<lparr>lg_buffer := ring_copy_in (lg_buffer log) (w_off log) ?c,
      w_off := logger_offset log (w_off log + l), lg_sign := lg_sign log + of_nat l\<rparr>"
    have c: "length ?c = l" using False by simp
    have "length bs + length ?c \<le> N" using l c Cons.prems(3) by linarith
    then have "written N log0 (bs @ ?c) ?log" using written_step(1) [OF wf Cons.prems(1) _ N, of ?c] c by simp
    moreover have "ret + l \<le> hlen" "length (bs @ ?c) + (hlen - (ret + l)) \<le> N" using l c Cons.prems(2,3) by auto
    ultimately have IH: "if iov_readable (hlen - ret - l) vs
       then \<exists>log'. write_segs ?log hlen (ret + l) vs = (log', Ok (ret + l + length (iov_bytes (hlen - ret - l) vs)))
         \<and> written N log0 ((bs @ ?c) @ iov_bytes (hlen - ret - l) vs) log'
       else \<exists>log'. write_segs ?log hlen (ret + l) vs = (log', Err EFAULT) \<and> kept N log0 log'"
      unfolding l(2) by (rule Cons.IH)
    have d: "do_write_log_from_user log (iov_base v) l = (?log, Ok l)" using False u by simp
    have "write_segs log hlen ret (v # vs) = write_segs ?log hlen (ret + l) vs"
      using d by (simp add: l_def [symmetric] Let_def)
    moreover have "iov_readable (hlen - ret) (v # vs) = iov_readable (hlen - ret - l) vs"
      "iov_bytes (hlen - ret) (v # vs) = ?c @ iov_bytes (hlen - ret - l) vs"
      using False by (simp_all add: l_def [symmetric])
    ultimately show ?thesis using IH c by (simp only: append_assoc length_append add.assoc)
  qed
qed simp

text \<open>The entry that a write leaves.\<close>

definition new_entry :: "logger_entry \<Rightarrow> iovec list \<Rightarrow> u8 list" where
  "new_entry header iovs =
     (let n = min (sum_list (map iov_len iovs)) LOGGER_ENTRY_MAX_PAYLOAD
      in entry_bytes (header\<lparr>le_len := of_nat n\<rparr>) @ iov_bytes n iovs)"

lemma length_entry_bytes [simp]: "length (u16_bytes w) = 2" "length (entry_bytes h) = 20"
  by (simp_all add: entry_bytes_def u16_bytes_def u32_bytes_def)

lemma u16_bytes_value: "unat (u16_bytes w ! 0) + 256 * unat (u16_bytes w ! 1) = unat w"
proof -
  have "unat w < 65536" using unsigned_less [of w, where ?'a = nat] by simp
  then have "unat w div 256 mod 256 = unat w div 256" by simp
  then show ?thesis by (simp add: u16_bytes_def unsigned_ucast_eq take_bit_eq_mod unat_drop_bit)
qed

lemma new_entry_ok:
  assumes "iov_readable (min (sum_list (map iov_len iovs)) LOGGER_ENTRY_MAX_PAYLOAD) iovs"
  shows "entry_ok (new_entry header iovs)"
    and "length (new_entry header iovs) = 20 + min (sum_list (map iov_len iovs)) LOGGER_ENTRY_MAX_PAYLOAD"
proof -
  let ?n = "min (sum_list (map iov_len iovs)) LOGGER_ENTRY_MAX_PAYLOAD"
  show l: "length (new_entry header iovs) = 20 + ?n"
    using length_iov_bytes [OF assms] by (simp add: new_entry_def Let_def)
  have "?n < 65536" by (simp add: LOGGER_ENTRY_MAX_PAYLOAD_def)
  then have "unat (of_nat ?n :: u16) = ?n" by (simp add: unat_of_nat)
  moreover have "new_entry header iovs ! i = u16_bytes (of_nat ?n) ! i" if "i < 2" for i
    using that by (simp add: new_entry_def Let_def entry_bytes_def nth_append)
  ultimately show "entry_ok (new_entry header iovs)"
    using l u16_bytes_value [of "of_nat ?n"] by (simp add: entry_ok_def)
qed

lemma pos_ok_kept:
  assumes "pos_ok log0 p es" and "kept N log0 log" and "nbytes es + N \<le> lg_size log0" and "w_off log = w_off log0"
  shows "pos_ok log p es"
  using assms by (simp add: pos_ok_def kept_def)

lemma pos_ok_written:
  assumes wf: "log_wf log0" and p: "pos_ok log0 p es" and w: "written (length e) log0 e log"
    and l: "nbytes es + length e < lg_size log0" and e: "entry_ok e"
  shows "pos_ok log p (es @ [e])"
proof -
  let ?S = "lg_size log0"
  have q: "p < ?S" "(p + nbytes es) mod ?S = w_off log0" "ring_read (lg_buffer log0) p (nbytes es) = concat es"
    using p by (auto simp: pos_ok_def)
  have s: "length (lg_buffer log) = ?S" "lg_size log = ?S" using w by (auto simp: written_def)
  have "ring_read (lg_buffer log) p (nbytes es) = concat es" using w q l by (simp add: written_def)
  moreover have "ring_read (lg_buffer log) (p + nbytes es) (length e) = e"
    using w ring_read_mod [of "lg_buffer log" "p + nbytes es" "length e"] q(2) by (simp add: written_def)
  ultimately have "ring_read (lg_buffer log) p (nbytes es + length e) = concat es @ e" by (simp add: ring_read_add)
  moreover have "(p + (nbytes es + length e)) mod ?S = w_off log" using w q(2) by (metis add.assoc mod_add_left_eq written_def)
  ultimately show ?thesis using p l e s by (simp add: pos_ok_def)
qed

lemma fix_up_wf: "log_wf (fix_up_readers log len) = log_wf log"
  by (simp add: log_wf_def fix_up_readers_off)

lemma aio_write_spec:
  assumes wf: "log_wf log" and n: "n = min (sum_list (map iov_len iovs)) LOGGER_ENTRY_MAX_PAYLOAD" "n \<noteq> 0"
  shows "if iov_readable n iovs
    then \<exists>log'. logger_aio_write log orig header (sum_list (map iov_len iovs)) iovs = (log', Ok n)
      \<and> written (20 + n) (fix_up_readers log (20 + n)) (new_entry header iovs) log'
    else \<exists>log'. logger_aio_write log orig header (sum_list (map iov_len iovs)) iovs = (log', Err EFAULT)
      \<and> kept (20 + n) (fix_up_readers log (20 + n)) log' \<and> w_off log' = orig"
proof -
  let ?F = "fix_up_readers log (20 + n)" and ?h = "entry_bytes (header\<lparr>le_len := of_nat n\<rparr>)"
  have F: "log_wf ?F" using wf by (simp add: fix_up_wf)
  have N: "20 + n \<le> lg_size ?F" using log_wf_size(1) [OF F] n by (simp add: LOGGER_ENTRY_MAX_PAYLOAD_def)
  have h: "written (20 + n) ?F ?h (do_write_log ?F ?h)"
    using written_do_write [OF F written_refl [OF F] _ N, of ?h] by simp
  have e: "logger_aio_write log orig header (sum_list (map iov_len iovs)) iovs =
    (case write_segs (do_write_log ?F ?h) n 0 iovs of
       (log, Ok ret) \<Rightarrow> (log, Ok ret) | (log, Err e) \<Rightarrow> (log\<lparr>w_off := orig\<rparr>, Err e) | (log, Bug) \<Rightarrow> (log, Bug))"
    using n(2) by (simp add: logger_aio_write_def Let_def n(1) [symmetric])
  note sg = write_segs_spec [OF F N h, of 0 n iovs]
  show ?thesis
  proof (cases "iov_readable n iovs")
    case True
    have "length (iov_bytes n iovs) = n" using length_iov_bytes [OF True] n(1) by simp
    moreover have "new_entry header iovs = ?h @ iov_bytes n iovs" by (simp add: new_entry_def n(1) [symmetric] Let_def)
    ultimately show ?thesis using True sg e by auto
  next
    case False
    then obtain log' where "write_segs (do_write_log ?F ?h) n 0 iovs = (log', Err EFAULT)" "kept (20 + n) ?F log'" using sg by auto
    then show ?thesis using False e by (auto simp: kept_def)
  qed
qed

text \<open>The offsets of the readers and of the head after a write, against their entries.\<close>

lemma write_offsets:
  assumes wf: "log_wf log" and n: "n = min (sum_list (map iov_len iovs)) LOGGER_ENTRY_MAX_PAYLOAD" "n \<noteq> 0"
    and p: "pos_ok log p es"
  defines "F \<equiv> fix_up_readers log (20 + n)" and "q \<equiv> fixed_off log (20 + n) p" and "rs \<equiv> make_room (lg_size log) (20 + n) es"
  shows "iov_readable n iovs \<Longrightarrow> written (20 + n) F (new_entry header iovs) log' \<Longrightarrow> pos_ok log' q (rs @ [new_entry header iovs])"
    and "kept (20 + n) F log' \<Longrightarrow> w_off log' = w_off log \<Longrightarrow> pos_ok log' q rs"
proof -
  have N: "2 * (20 + n) \<le> lg_size log" using log_wf_size(1) [OF wf] n(1) by (simp add: LOGGER_ENTRY_MAX_PAYLOAD_def)
  have s: "lg_size F = lg_size log" "w_off F = w_off log" "lg_buffer F = lg_buffer log" by (simp_all add: F_def fix_up_readers_off)
  have "pos_ok log q rs" using pos_ok_fixed [OF wf p _ N] by (simp add: q_def rs_def)
  then have q: "pos_ok F q rs" by (simp add: pos_ok_def s)
  have l: "nbytes rs + (20 + n) < lg_size F"
    using make_room_fits [OF N, of es] p s(1) by (auto simp: rs_def pos_ok_def)
  have F: "log_wf F" using wf by (simp add: F_def fix_up_wf)
  show "pos_ok log' q (rs @ [new_entry header iovs])" if r: "iov_readable n iovs" and w: "written (20 + n) F (new_entry header iovs) log'"
  proof -
    have e: "entry_ok (new_entry header iovs)" "length (new_entry header iovs) = 20 + n"
      using new_entry_ok [of iovs header] r unfolding n(1) by blast+
    show ?thesis using pos_ok_written [OF F q, of "new_entry header iovs"] w l e by simp
  qed
  show "pos_ok log' q rs" if "kept (20 + n) F log'" "w_off log' = w_off log"
    using pos_ok_kept [OF q that(1)] l that(2) s(2) by simp
qed

end
