(* ===== verification/Logger_Props.thy ===== *)
theory Logger_Props
  imports Logger_Ring
begin

text \<open>
  What the logger promises: a queue of entries per reader, which loses its oldest entries when the ring is full,
  and a warning for a reader that has lost some. The driver is shown to behave like these queues.
\<close>

section \<open>A write\<close>



section \<open>The specification\<close>

record spec_reader =
  s_id :: nat
  s_pending :: "u8 list list"
  s_lost :: nat




definition rd_sim :: "logger_log \<Rightarrow> logger_reader \<Rightarrow> spec_reader \<Rightarrow> bool" where
  "rd_sim log r s \<longleftrightarrow> r_id r = s_id s \<and> pos_ok log (r_off r) (s_pending s)
     \<and> nbytes (s_pending s) + s_lost s \<le> unat (lg_sign log)
     \<and> unat (r_sign r) = unat (lg_sign log) - (nbytes (s_pending s) + s_lost s)
     \<and> (0 < s_lost s \<longrightarrow> lg_size log \<le> nbytes (s_pending s) + s_lost s)"


lemma pos_ok_readers [simp]: "pos_ok (log\<lparr>lg_readers := rs\<rparr>) = pos_ok log"
  by (intro ext) (simp add: pos_ok_def)

lemma rd_sim_readers [simp]: "rd_sim (log\<lparr>lg_readers := rs\<rparr>) = rd_sim log"
  by (intro ext) (simp add: rd_sim_def)

lemma log_wf_readers [simp]: "log_wf (log\<lparr>lg_readers := rs\<rparr>) = log_wf log"
  by (simp add: log_wf_def)


section \<open>The count of bytes\<close>






section \<open>The driver behaves like the queues\<close>





section \<open>Runs\<close>

























end
