(* ===== verification/Spec2Isabelle.thy ===== *)
theory Spec2Isabelle
  imports Bitmap_Regions Kfifo Genalloc Resource_Props Lmb_Props Ashmem_Props Semaphore Rwsem Kstring_Props Rtc Sort_Extable Cgroup_Scan Logger_Props
begin

text \<open>
  A verification development of parts of a Linux 2.6.29 kernel for a 32-bit ARM phone.
\<close>

end
